(* ===== verification/Prelude.thy ===== *)
theory Prelude
  imports Complex_Main "HOL-Library.AList" "HOL-Library.List_Lexorder" "HOL-Library.Char_ord"
    "HOL-Library.Product_Lexorder"
begin

text \<open>
  Shared vocabulary of the development: Python results (a raised exception or a value), the
  error-propagating loop, insertion-ordered dictionaries, Python's stable descending sort,
  truncation of a float to an int and fixed-width C integers, with the lemmas every component
  uses. Python ints are \<open>int\<close> (or \<open>nat\<close> where the code indexes with them), floats are \<open>real\<close>,
  strings are \<open>string\<close>, a set that the code iterates over is a duplicate-free list.
\<close>

named_theorems res_simps \<open>equations and inversions of the exception monad\<close>
named_theorems dict_simps \<open>lookups and keys of updated dictionaries\<close>

section \<open>Exceptions\<close>

datatype py_error =
    ValueError string
  | RuntimeError string
  | AssertionError
  | KeyError
  | IndexError
  | ZeroDivisionError
  | OverflowError
  | StopIteration
  | NotImplementedError
  | DuplicateLifecycleError

type_synonym 'a res = "py_error + 'a"

definition rbind :: "'a res \<Rightarrow> ('a \<Rightarrow> 'b res) \<Rightarrow> 'b res" where
  "rbind m f = (case m of Inl e \<Rightarrow> Inl e | Inr x \<Rightarrow> f x)"

definition py_assert :: "bool \<Rightarrow> unit res" where
  "py_assert b = (if b then Inr () else Inl AssertionError)"

fun rfold :: "('a \<Rightarrow> 's \<Rightarrow> 's res) \<Rightarrow> 'a list \<Rightarrow> 's \<Rightarrow> 's res" where
  "rfold f [] s = Inr s"
| "rfold f (x # xs) s = rbind (f x s) (rfold f xs)"

lemma rbind_simps [simp, res_simps]:
  "rbind (Inl e) f = Inl e"
  "rbind (Inr x) f = f x"
  by (simp_all add: rbind_def)

lemma rbind_eq_Inr [res_simps]: "rbind m f = Inr y \<longleftrightarrow> (\<exists>x. m = Inr x \<and> f x = Inr y)"
  by (cases m) simp_all

lemma rbind_eq_Inl [res_simps]:
  "rbind m f = Inl e \<longleftrightarrow> m = Inl e \<or> (\<exists>x. m = Inr x \<and> f x = Inl e)"
  by (cases m) simp_all

lemma py_assert_Inr [simp, res_simps]: "py_assert b = Inr u \<longleftrightarrow> b"
  by (simp add: py_assert_def)

lemma py_assert_True [simp, res_simps]: "b \<Longrightarrow> py_assert b = Inr ()"
  by (simp add: py_assert_def)

lemma rfold_append: "rfold f (xs @ ys) s = rbind (rfold f xs s) (rfold f ys)"
  by (induction xs arbitrary: s) (auto simp: rbind_def split: sum.splits)

text \<open>
  Total correctness of a loop that can raise: an invariant that each iteration keeps, and under
  which no iteration raises, makes the whole loop return in a state satisfying it.
\<close>

lemma rfold_total:
  assumes step: "\<And>x s. x \<in> set xs \<Longrightarrow> P s \<Longrightarrow> \<exists>s'. f x s = Inr s' \<and> P s'" and start: "P s"
  shows "\<exists>s'. rfold f xs s = Inr s' \<and> P s'"
  using assms
proof (induction xs arbitrary: s)
  case Nil
  then show ?case by simp
next
  case (Cons x xs)
  obtain s1 where s1: "f x s = Inr s1" "P s1"
    using Cons.prems(1)[of x s] Cons.prems(2) by auto
  moreover have "\<exists>s'. rfold f xs s1 = Inr s' \<and> P s'"
    using Cons.IH[of s1] Cons.prems(1) s1(2) by auto
  ultimately show ?case by simp
qed

lemma rfold_invariant:
  assumes "rfold f xs s = Inr s'" and "P s"
    and "\<And>x s s'. x \<in> set xs \<Longrightarrow> P s \<Longrightarrow> f x s = Inr s' \<Longrightarrow> P s'"
  shows "P s'"
  using assms
proof (induction xs arbitrary: s)
  case Nil
  then show ?case by simp
next
  case (Cons x xs)
  from Cons.prems(1) obtain s1 where s1: "f x s = Inr s1" "rfold f xs s1 = Inr s'"
    by (auto simp: rbind_eq_Inr)
  have "P s1" using Cons.prems(3)[of x s s1] Cons.prems(2) s1(1) by simp
  then show ?case
    using Cons.IH[OF s1(2)] Cons.prems(3) by (meson list.set_intros(2))
qed

section \<open>Dictionaries\<close>

text \<open>
  A Python \<^verbatim>\<open>dict\<close> keeps insertion order and an assignment to an existing key keeps the key's
  place: exactly \<^const>\<open>AList.update\<close>. An \<^verbatim>\<open>OrderedDict\<close> adds \<^verbatim>\<open>move_to_end\<close> and
  \<^verbatim>\<open>popitem(last=False)\<close>.
\<close>

type_synonym ('k, 'v) dict = "('k \<times> 'v) list"

abbreviation dict_set :: "'k \<Rightarrow> 'v \<Rightarrow> ('k, 'v) dict \<Rightarrow> ('k, 'v) dict" where
  "dict_set \<equiv> AList.update"

abbreviation dict_del :: "'k \<Rightarrow> ('k, 'v) dict \<Rightarrow> ('k, 'v) dict" where
  "dict_del \<equiv> AList.delete"

abbreviation dict_keys :: "('k, 'v) dict \<Rightarrow> 'k list" where
  "dict_keys d \<equiv> map fst d"

definition has_key :: "('k, 'v) dict \<Rightarrow> 'k \<Rightarrow> bool" where
  "has_key d k = (map_of d k \<noteq> None)"

definition dict_get :: "('k, 'v) dict \<Rightarrow> 'k \<Rightarrow> 'v \<Rightarrow> 'v" where
  "dict_get d k v = (case map_of d k of None \<Rightarrow> v | Some w \<Rightarrow> w)"

definition setdefault :: "'k \<Rightarrow> 'v \<Rightarrow> ('k, 'v) dict \<Rightarrow> ('k, 'v) dict" where
  "setdefault k v d = (if has_key d k then d else d @ [(k, v)])"

definition move_to_end :: "'k \<Rightarrow> ('k, 'v) dict \<Rightarrow> ('k, 'v) dict" where
  "move_to_end k d = (case map_of d k of None \<Rightarrow> d | Some v \<Rightarrow> dict_del k d @ [(k, v)])"

abbreviation wf_dict :: "('k, 'v) dict \<Rightarrow> bool" where
  "wf_dict d \<equiv> distinct (map fst d)"

lemmas dict_of_update [simp, dict_simps] = AList.update_conv'
lemmas dict_of_delete [simp, dict_simps] = AList.delete_conv'

lemma has_key_iff [dict_simps]: "has_key d k \<longleftrightarrow> k \<in> fst ` set d"
  by (auto simp: has_key_def map_of_eq_None_iff)

lemma map_of_setdefault [dict_simps]:
  "map_of (setdefault k v d) x = (if x = k then Some (dict_get d k v) else map_of d x)"
  by (auto simp: setdefault_def has_key_def dict_get_def map_add_def split: option.splits)

lemma wf_dict_update [simp, intro]: "wf_dict d \<Longrightarrow> wf_dict (dict_set k v d)"
  by (rule AList.distinct_update)

lemma wf_dict_delete [simp, intro]: "wf_dict d \<Longrightarrow> wf_dict (dict_del k d)"
  by (rule AList.distinct_delete)

lemma set_dict_delete [dict_simps]: "set (dict_del k d) = {p \<in> set d. fst p \<noteq> k}"
  by (auto simp: AList.delete_eq)

lemma wf_dict_snoc [simp]: "wf_dict (d @ [(k, v)]) \<longleftrightarrow> wf_dict d \<and> k \<notin> fst ` set d"
  by auto

lemma map_of_move_to_end [simp, dict_simps]: "map_of (move_to_end k d) = map_of d"
proof
  fix x
  show "map_of (move_to_end k d) x = map_of d x"
    by (cases "x = k") (auto simp: move_to_end_def map_add_def split: option.splits)
qed

lemma wf_dict_move_to_end [simp, intro]: "wf_dict d \<Longrightarrow> wf_dict (move_to_end k d)"
  by (auto simp: move_to_end_def AList.delete_notin_dom split: option.splits)

lemma fst_set_move_to_end [simp, dict_simps]: "fst ` set (move_to_end k d) = fst ` set d"
  by (metis map_of_move_to_end dom_map_of_conv_image_fst)

lemma length_dict_del_key:
  "wf_dict d \<Longrightarrow> map_of d k = Some v \<Longrightarrow> Suc (length (dict_del k d)) = length d"
proof (induction d)
  case Nil
  then show ?case by simp
next
  case (Cons p d)
  then show ?case
    by (cases "fst p = k") (auto simp: map_of_eq_None_iff split: if_splits)
qed

lemma length_move_to_end [simp]: "wf_dict d \<Longrightarrow> length (move_to_end k d) = length d"
  by (auto simp: move_to_end_def length_dict_del_key split: option.splits)

lemma wf_dict_setdefault [simp, intro]: "wf_dict d \<Longrightarrow> wf_dict (setdefault k v d)"
  by (auto simp: setdefault_def has_key_iff)

lemma length_dict_set:
  "length (dict_set k v d) = (if has_key d k then length d else Suc (length d))"
  by (metis AList.update_keys has_key_iff length_append_singleton length_map list.set_map)

lemma map_of_filter_wf:
  "wf_dict d \<Longrightarrow> map_of (filter P d) k =
     (case map_of d k of None \<Rightarrow> None | Some v \<Rightarrow> if P (k, v) then Some v else None)"
proof (induction d)
  case Nil
  then show ?case by simp
next
  case (Cons p d)
  then show ?case
    by (cases p) (auto simp: map_of_eq_None_iff split: option.splits intro: rev_image_eqI)
qed

lemma wf_dict_filter [simp, intro]: "wf_dict d \<Longrightarrow> wf_dict (filter P d)"
  by (simp add: distinct_map_filter)

section \<open>Numbers\<close>

text \<open>\<^verbatim>\<open>int(x)\<close> of a float truncates towards zero.\<close>

definition py_int :: "real \<Rightarrow> int" where
  "py_int x = (if 0 \<le> x then \<lfloor>x\<rfloor> else \<lceil>x\<rceil>)"

lemma py_int_nonneg [simp]: "0 \<le> x \<Longrightarrow> py_int x = \<lfloor>x\<rfloor>"
  by (simp add: py_int_def)

lemma py_int_le: "0 \<le> x \<Longrightarrow> real_of_int (py_int x) \<le> x"
  by simp

text \<open>A store into a \<^verbatim>\<open>ctypes.c_int32\<close> field keeps the low 32 bits, read as two's complement.\<close>

definition c_int32 :: "int \<Rightarrow> int" where
  "c_int32 x = (x + 2 ^ 31) mod 2 ^ 32 - 2 ^ 31"

lemma c_int32_id: "- (2 ^ 31) \<le> x \<Longrightarrow> x < 2 ^ 31 \<Longrightarrow> c_int32 x = x"
  by (simp add: c_int32_def)

lemma c_int32_range: "- (2 ^ 31) \<le> c_int32 x \<and> c_int32 x < 2 ^ 31"
  by (simp add: c_int32_def)

section \<open>Sorting\<close>

text \<open>
  \<^verbatim>\<open>sorted(xs, key=f, reverse=True)\<close> keeps elements with equal keys in their original order, as
  sorting the reversed list and reversing the result does.
\<close>

definition sorted_desc :: "('a \<Rightarrow> 'b::linorder) \<Rightarrow> 'a list \<Rightarrow> 'a list" where
  "sorted_desc f xs = rev (sort_key f (rev xs))"

lemma set_sorted_desc [simp]: "set (sorted_desc f xs) = set xs"
  by (simp add: sorted_desc_def)

lemma length_sorted_desc [simp]: "length (sorted_desc f xs) = length xs"
  by (simp add: sorted_desc_def)

lemma distinct_sorted_desc [simp]: "distinct (sorted_desc f xs) = distinct xs"
  by (simp add: sorted_desc_def)

lemma sorted_desc_order: "sorted_wrt (\<lambda>x y. f y \<le> f x) (sorted_desc f xs)"
proof -
  have "sorted_wrt (\<lambda>x y. f x \<le> f y) (sort_key f (rev xs))"
    using sorted_sort_key[of f "rev xs"] by (simp add: sorted_wrt_map)
  then show ?thesis
    by (simp add: sorted_desc_def sorted_wrt_rev)
qed

lemma sorted_desc_take_max:
  assumes "x \<in> set (take n (sorted_desc f xs))" and "y \<in> set (drop n (sorted_desc f xs))"
  shows "f y \<le> f x"
proof -
  have "sorted_wrt (\<lambda>x y. f y \<le> f x) (take n (sorted_desc f xs) @ drop n (sorted_desc f xs))"
    by (simp add: sorted_desc_order)
  then show ?thesis
    using assms by (auto simp only: sorted_wrt_append)
qed

end
