(* ===== verification/Free_Queue.thy ===== *)
theory Free_Queue
  imports Prelude "HOL-Library.Word"
begin

text \<open>
  The GPU block objects and the free-block queue of \<^verbatim>\<open>vllm/v1/core/kv_cache_utils.py\<close>: block hash
  keys as bytes, \<^verbatim>\<open>KVCacheBlock\<close>, and \<^verbatim>\<open>FreeKVCacheBlockQueue\<close>, a doubly linked list threaded
  through the block objects. The objects live in a store from references to their fields, so the
  pointer writes of the code are the writes of the model. \<open>fq_repr\<close> relates a store to the list
  of free block ids in eviction order, and the locale \<open>free_list_queue\<close> states what the queue
  promises in terms of that list.
\<close>

named_theorems fq_simps \<open>reads of a block store after a pointer write\<close>

section \<open>Block hash keys\<close>

type_synonym bytes = "8 word list"

text \<open>\<^verbatim>\<open>n.to_bytes(4, "big", signed=False)\<close> raises \<^verbatim>\<open>OverflowError\<close> out of range.\<close>

definition to_bytes4 :: "int \<Rightarrow> bytes res" where
  "to_bytes4 n = (if 0 \<le> n \<and> n < 2 ^ 32
     then Inr [word_of_int (n div 2 ^ 24), word_of_int (n div 2 ^ 16), word_of_int (n div 2 ^ 8),
               word_of_int n]
     else Inl OverflowError)"

definition from_bytes :: "bytes \<Rightarrow> int" where
  "from_bytes bs = foldl (\<lambda>acc b. acc * 256 + uint b) 0 bs"

definition make_block_hash_with_group_id :: "bytes \<Rightarrow> int \<Rightarrow> bytes res" where
  "make_block_hash_with_group_id h group_id = rbind (to_bytes4 group_id) (\<lambda>g. Inr (h @ g))"

definition get_block_hash :: "bytes \<Rightarrow> bytes" where
  "get_block_hash key = take (length key - 4) key"

definition get_group_id :: "bytes \<Rightarrow> int" where
  "get_group_id key = from_bytes (drop (length key - 4) key)"

text \<open>\<^verbatim>\<open>use_int\<close> is the environment switch \<^verbatim>\<open>VLLM_KV_EVENTS_USE_INT_BLOCK_HASHES\<close>.\<close>

datatype external_block_hash = HashBytes bytes | HashInt int

definition maybe_convert_block_hash :: "bool \<Rightarrow> bytes \<Rightarrow> external_block_hash" where
  "maybe_convert_block_hash use_int hash_bytes =
     (if \<not> use_int then HashBytes hash_bytes
      else HashInt (from_bytes hash_bytes mod 2 ^ 64))"

section \<open>Block objects\<close>

text \<open>
  The two sentinels of the queue and the blocks of the pool are the only block objects; a block of
  the pool is identified by its index.
\<close>

datatype ref = Head | Tail | Blk nat

record kv_block =
  block_id :: int
  ref_cnt :: int
  block_hash :: "bytes option"
  prev_free_block :: "ref option"
  next_free_block :: "ref option"
  is_null :: bool

type_synonym block_store = "ref \<Rightarrow> kv_block"

definition KVCacheBlock :: "int \<Rightarrow> kv_block" where
  "KVCacheBlock i = \<lparr>block_id = i, ref_cnt = 0, block_hash = None, prev_free_block = None,
     next_free_block = None, is_null = False\<rparr>"

text \<open>The setter of the property \<^verbatim>\<open>block_hash\<close> asserts that no hash is set yet.\<close>

definition set_block_hash :: "bytes \<Rightarrow> kv_block \<Rightarrow> kv_block res" where
  "set_block_hash h b = (if block_hash b = None then Inr (b\<lparr>block_hash := Some h\<rparr>)
     else Inl AssertionError)"

definition reset_hash :: "kv_block \<Rightarrow> kv_block" where
  "reset_hash b = b\<lparr>block_hash := None\<rparr>"

definition set_prev :: "ref \<Rightarrow> ref option \<Rightarrow> block_store \<Rightarrow> block_store" where
  "set_prev r x st = st(r := (st r)\<lparr>prev_free_block := x\<rparr>)"

definition set_next :: "ref \<Rightarrow> ref option \<Rightarrow> block_store \<Rightarrow> block_store" where
  "set_next r x st = st(r := (st r)\<lparr>next_free_block := x\<rparr>)"

section \<open>The queue\<close>

record free_queue =
  store :: block_store
  num_free_blocks :: int

definition init_links :: "nat \<Rightarrow> nat \<Rightarrow> block_store \<Rightarrow> block_store" where
  "init_links n i st =
     (let st = (if 0 < i then set_prev (Blk i) (Some (Blk (i - 1))) st else st)
      in if int i < int n - 1 then set_next (Blk i) (Some (Blk (i + 1))) st else st)"

definition FreeKVCacheBlockQueue :: "nat \<Rightarrow> block_store \<Rightarrow> free_queue" where
  "FreeKVCacheBlockQueue n st =
     (let st = fold (init_links n) [0..<n] st;
          st = st(Head := KVCacheBlock (-1), Tail := KVCacheBlock (-1));
          st = (if 0 < n
                then set_next (Blk (n - 1)) (Some Tail) (set_prev Tail (Some (Blk (n - 1)))
                       (set_prev (Blk 0) (Some Head) (set_next Head (Some (Blk 0)) st)))
                else set_prev Tail (Some Head) (set_next Head (Some Tail) st))
      in \<lparr>store = st, num_free_blocks = int n\<rparr>)"

definition popleft_empty :: "'z free_queue_scheme \<Rightarrow> (ref \<times> 'z free_queue_scheme) res" where
  "popleft_empty q = rbind (py_assert (num_free_blocks q = 0))
     (\<lambda>_. Inl (ValueError ''No free blocks available''))"

definition popleft :: "'z free_queue_scheme \<Rightarrow> (ref \<times> 'z free_queue_scheme) res" where
  "popleft q =
     (case next_free_block (store q Head) of
        None \<Rightarrow> popleft_empty q
      | Some first \<Rightarrow>
          if first = Tail then popleft_empty q
          else case next_free_block (store q first) of
             None \<Rightarrow> Inl (RuntimeError ''Invalid block found in popleft()'')
           | Some second \<Rightarrow>
               (let st = set_next Head (Some second) (store q);
                    st = set_prev second (Some Head) st;
                    st = set_next first None (set_prev first None st)
                in Inr (first, q\<lparr>store := st, num_free_blocks := num_free_blocks q - 1\<rparr>)))"

fun popleft_n_loop ::
  "nat \<Rightarrow> ref option \<Rightarrow> ref list \<Rightarrow> block_store \<Rightarrow> (ref list \<times> ref option \<times> block_store) res"
where
  "popleft_n_loop 0 cur ret st = Inr (ret, cur, st)"
| "popleft_n_loop (Suc n) None ret st = Inl AssertionError"
| "popleft_n_loop (Suc n) (Some b) ret st =
     popleft_n_loop n (next_free_block (st b)) (ret @ [b])
       (set_next b None (set_prev b None st))"

definition popleft_n :: "nat \<Rightarrow> 'z free_queue_scheme \<Rightarrow> (ref list \<times> 'z free_queue_scheme) res" where
  "popleft_n n q =
     (if n = 0 then Inr ([], q)
      else rbind (py_assert (int n \<le> num_free_blocks q)) (\<lambda>_.
        rbind (popleft_n_loop n (next_free_block (store q Head)) [] (store q)) (\<lambda>(ret, cur, st).
          let st = (case cur of None \<Rightarrow> st
                    | Some c \<Rightarrow> set_prev c (Some Head) (set_next Head (Some c) st))
          in Inr (ret, q\<lparr>store := st, num_free_blocks := num_free_blocks q - int n\<rparr>))))"

definition queue_remove :: "ref \<Rightarrow> 'z free_queue_scheme \<Rightarrow> 'z free_queue_scheme res" where
  "queue_remove b q =
     (case (prev_free_block (store q b), next_free_block (store q b)) of
        (Some p, Some n) \<Rightarrow>
          (let st = set_next p (Some n) (store q);
               st = set_prev n (Some p) st;
               st = set_next b None (set_prev b None st)
           in Inr (q\<lparr>store := st, num_free_blocks := num_free_blocks q - 1\<rparr>))
      | _ \<Rightarrow> Inl (RuntimeError ''remove() called on an invalid block''))"

definition queue_append :: "ref \<Rightarrow> 'z free_queue_scheme \<Rightarrow> 'z free_queue_scheme res" where
  "queue_append b q =
     (case prev_free_block (store q Tail) of
        None \<Rightarrow> Inl (RuntimeError ''prev_free_block of fake_free_list_tail should always exist'')
      | Some l \<Rightarrow>
          (let st = set_next l (Some b) (store q);
               st = set_prev b (Some l) st;
               st = set_next b (Some Tail) st;
               st = set_prev Tail (Some b) st
           in Inr (q\<lparr>store := st, num_free_blocks := num_free_blocks q + 1\<rparr>)))"

fun append_links :: "ref \<Rightarrow> ref list \<Rightarrow> block_store \<Rightarrow> ref \<times> block_store" where
  "append_links l [] st = (l, st)"
| "append_links l (b # bs) st =
     append_links b bs (set_next l (Some b) (set_prev b (Some l) st))"

definition append_n :: "ref list \<Rightarrow> 'z free_queue_scheme \<Rightarrow> 'z free_queue_scheme res" where
  "append_n bs q =
     (if bs = [] then Inr q
      else case prev_free_block (store q Tail) of
        None \<Rightarrow> Inl AssertionError
      | Some l \<Rightarrow>
          (let (l', st) = append_links l bs (store q);
               st = set_prev Tail (Some l') (set_next l' (Some Tail) st)
           in Inr (q\<lparr>store := st, num_free_blocks := num_free_blocks q + int (length bs)\<rparr>)))"

text \<open>
  \<^verbatim>\<open>get_all_free_blocks\<close> follows the links until a block without a successor: on a cyclic store it
  would not return.
\<close>

partial_function (option) all_free_loop :: "block_store \<Rightarrow> ref \<Rightarrow> ref list \<Rightarrow> ref list option" where
  "all_free_loop st cur ret =
     (case next_free_block (st cur) of
        None \<Rightarrow> Some ret
      | Some n \<Rightarrow> all_free_loop st n (ret @ [cur]))"

definition get_all_free_blocks :: "'z free_queue_scheme \<Rightarrow> ref list res option" where
  "get_all_free_blocks q =
     (case next_free_block (store q Head) of
        None \<Rightarrow> Some (Inl (RuntimeError ''next_free_block of fake_free_list_head should always exist''))
      | Some c \<Rightarrow> map_option Inr (all_free_loop (store q) c []))"

section \<open>Hash keys round trip\<close>

lemma from_to_bytes4:
  assumes "to_bytes4 n = Inr bs"
  shows "from_bytes bs = n \<and> length bs = 4"
proof -
  have r: "0 \<le> n" "n < 2 ^ 32" and bs: "bs = [word_of_int (n div 2 ^ 24), word_of_int (n div 2 ^ 16),
      word_of_int (n div 2 ^ 8), word_of_int n]"
    using assms by (auto simp: to_bytes4_def split: if_splits)
  have "from_bytes bs = ((n div 2 ^ 24 mod 256 * 256 + n div 2 ^ 16 mod 256) * 256
      + n div 2 ^ 8 mod 256) * 256 + n mod 256"
    unfolding bs from_bytes_def by (simp add: unsigned_of_int take_bit_eq_mod)
  also have "\<dots> = n"
  proof -
    let ?a = "n div 256" let ?b = "?a div 256" let ?c = "?b div 256"
    have "n div 2 ^ 8 = ?a" "n div 2 ^ 16 = ?b" "n div 2 ^ 24 = ?c"
      by (simp_all add: zdiv_zmult2_eq[symmetric])
    moreover have "?c mod 256 = ?c"
    proof -
      have "n < 256 * 16777216" "0 \<le> n" using r by simp_all
      then have "n div 16777216 < 256" "0 \<le> n div 16777216" by linarith+
      then show ?thesis by (simp add: zdiv_zmult2_eq[symmetric])
    qed
    moreover have "?c * 256 + ?b mod 256 = ?b" "?b * 256 + ?a mod 256 = ?a" "?a * 256 + n mod 256 = n"
      by (simp_all add: div_mult_mod_eq)
    ultimately show ?thesis by (simp only:)
  qed
  finally show ?thesis by (simp add: bs)
qed

lemma hash_key_roundtrip:
  assumes "make_block_hash_with_group_id h g = Inr key"
  shows "get_block_hash key = h" and "get_group_id key = g"
  using assms from_to_bytes4[of g]
  by (auto simp: make_block_hash_with_group_id_def get_block_hash_def get_group_id_def rbind_eq_Inr)

lemma hash_key_defined:
  "0 \<le> g \<Longrightarrow> g < 2 ^ 32 \<Longrightarrow> \<exists>key. make_block_hash_with_group_id h g = Inr key"
  by (simp add: make_block_hash_with_group_id_def to_bytes4_def)

section \<open>Representation of the free list\<close>

text \<open>Consecutive references of the list point to each other.\<close>

fun linked :: "block_store \<Rightarrow> ref list \<Rightarrow> bool" where
  "linked st (a # b # rs) =
     (next_free_block (st a) = Some b \<and> prev_free_block (st b) = Some a \<and> linked st (b # rs))"
| "linked st _ = True"

definition chain :: "nat list \<Rightarrow> ref list" where
  "chain xs = Head # map Blk xs @ [Tail]"

definition fq_repr :: "'z free_queue_scheme \<Rightarrow> nat list \<Rightarrow> bool" where
  "fq_repr q xs \<longleftrightarrow> distinct xs \<and> linked (store q) (chain xs)
     \<and> num_free_blocks q = int (length xs)
     \<and> next_free_block (store q Tail) = None
     \<and> (\<forall>b. b \<notin> set xs \<longrightarrow>
          prev_free_block (store q (Blk b)) = None \<and> next_free_block (store q (Blk b)) = None)"

text \<open>The fields of a block that the queue never writes.\<close>

definition data_of :: "kv_block \<Rightarrow> int \<times> int \<times> bytes option \<times> bool" where
  "data_of b = (block_id b, ref_cnt b, block_hash b, is_null b)"

definition same_data :: "block_store \<Rightarrow> block_store \<Rightarrow> bool" where
  "same_data st st' \<longleftrightarrow> (\<forall>r. data_of (st' r) = data_of (st r))"

lemma same_data_refl [simp, intro]: "same_data st st"
  by (simp add: same_data_def)

lemma same_data_trans [trans]: "same_data a b \<Longrightarrow> same_data b c \<Longrightarrow> same_data a c"
  by (simp add: same_data_def)

lemma same_data_set [simp, intro]:
  "same_data st (set_next r x st')  \<longleftrightarrow> same_data st st'"
  "same_data st (set_prev r x st')  \<longleftrightarrow> same_data st st'"
  by (auto simp: same_data_def set_next_def set_prev_def data_of_def)

lemma same_dataD:
  assumes "same_data st st'"
  shows "block_id (st' r) = block_id (st r)" "ref_cnt (st' r) = ref_cnt (st r)"
    "block_hash (st' r) = block_hash (st r)" "is_null (st' r) = is_null (st r)"
  using assms by (auto simp: same_data_def data_of_def)

lemma links_set [simp, fq_simps]:
  "next_free_block (set_next r x st r') = (if r' = r then x else next_free_block (st r'))"
  "prev_free_block (set_next r x st r') = prev_free_block (st r')"
  "prev_free_block (set_prev r x st r') = (if r' = r then x else prev_free_block (st r'))"
  "next_free_block (set_prev r x st r') = next_free_block (st r')"
  by (auto simp: set_next_def set_prev_def)

lemma linked_append:
  "linked st (xs @ a # ys) \<longleftrightarrow> linked st (xs @ [a]) \<and> linked st (a # ys)"
proof (induction xs)
  case Nil
  then show ?case by simp
next
  case (Cons x xs)
  then show ?case by (cases xs) auto
qed

lemma linked_set_next [simp]:
  "r \<notin> set (butlast zs) \<Longrightarrow> linked (set_next r x st) zs = linked st zs"
proof (induction zs)
  case Nil
  then show ?case by simp
next
  case (Cons z zs)
  then show ?case by (cases zs) auto
qed

lemma linked_set_prev [simp]:
  "r \<notin> set (tl zs) \<Longrightarrow> linked (set_prev r x st) zs = linked st zs"
proof (induction zs)
  case Nil
  then show ?case by simp
next
  case (Cons z zs)
  then show ?case by (cases zs) auto
qed

lemma linked_frame [simp]:
  "r \<notin> set zs \<Longrightarrow> linked (set_next r x st) zs = linked st zs"
  "r \<notin> set zs \<Longrightarrow> linked (set_prev r x st) zs = linked st zs"
  "r \<notin> set us \<Longrightarrow> linked (set_next r x st) (us @ [r']) = linked st (us @ [r'])"
  by (simp_all add: in_set_butlastD list.set_sel(2) butlast_append)
     (metis linked_set_next in_set_butlastD, metis linked_set_prev list.set_sel(2) list.sel(2))

lemma chain_simps [simp]:
  "chain [] = [Head, Tail]"
  "chain (x # xs) = Head # Blk x # map Blk xs @ [Tail]"
  by (simp_all add: chain_def)

lemma distinct_chain: "distinct xs \<Longrightarrow> distinct (chain xs)"
  by (auto simp: chain_def distinct_map inj_on_def)

lemma in_chain [simp]: "Blk b \<in> set (chain xs) \<longleftrightarrow> b \<in> set xs"
  by (auto simp: chain_def)

text \<open>Cutting one block out of a chain and splicing blocks in before the tail sentinel.\<close>

definition unlink :: "ref \<Rightarrow> ref \<Rightarrow> ref \<Rightarrow> block_store \<Rightarrow> block_store" where
  "unlink p b n st =
     set_next b None (set_prev b None (set_prev n (Some p) (set_next p (Some n) st)))"

lemma linked_unlink:
  assumes "linked st (us @ p # b # n # vs)" and "distinct (us @ p # b # n # vs)"
  shows "linked (unlink p b n st) (us @ p # n # vs)"
proof -
  from assms(1) have "linked st (us @ [p])" "linked st (n # vs)"
    using linked_append[of st us p "b # n # vs"] linked_append[of st "us @ [p, b]" n vs]
      linked_append[of st "[p, b]" n vs] by auto
  with assms(2) show ?thesis
    unfolding linked_append[of _ us p "n # vs"] unlink_def
    by auto
qed

lemma linked_append_links:
  assumes "linked st (us @ [l])" and "distinct (us @ l # bs)"
    and "append_links l bs st = (l', st')"
  shows "linked st' (us @ l # bs) \<and> l' = last (l # bs)"
  using assms
proof (induction bs arbitrary: us l st)
  case Nil
  then show ?case by simp
next
  case (Cons b bs)
  let ?st = "set_next l (Some b) (set_prev b (Some l) st)"
  have "linked ?st (us @ [l])"
    using Cons.prems(1,2) by auto
  then have "linked ?st ((us @ [l]) @ [b])"
    using linked_append[of ?st us l "[b]"] Cons.prems(2) by simp
  then show ?case
    using Cons.IH[of ?st "us @ [l]" b] Cons.prems(2,3) by simp
qed

lemma append_links_frame:
  assumes "append_links l bs st = (l', st')"
  shows "same_data st st'"
    and "r \<notin> set bs \<Longrightarrow> prev_free_block (st' r) = prev_free_block (st r)"
    and "r \<notin> set (l # bs) \<Longrightarrow> next_free_block (st' r) = next_free_block (st r)"
proof -
  show "same_data st st'"
    using assms
  proof (induction l bs st rule: append_links.induct)
    case (2 l b bs st)
    then have "same_data (set_next l (Some b) (set_prev b (Some l) st)) st'" by simp
    then show ?case by (rule same_data_trans[rotated]) simp
  qed simp
  show "r \<notin> set bs \<Longrightarrow> prev_free_block (st' r) = prev_free_block (st r)"
    using assms by (induction l bs st rule: append_links.induct) auto
  show "r \<notin> set (l # bs) \<Longrightarrow> next_free_block (st' r) = next_free_block (st r)"
    using assms by (induction l bs st rule: append_links.induct) auto
qed

section \<open>Every operation implements the list operation\<close>

text \<open>
  The outcome of a queue operation: the new store represents the list, the fields that are not
  links and whatever extends the queue's record are untouched.
\<close>

definition fq_next :: "'z free_queue_scheme \<Rightarrow> 'z free_queue_scheme \<Rightarrow> nat list \<Rightarrow> bool" where
  "fq_next q q' xs \<longleftrightarrow> fq_repr q' xs \<and> same_data (store q) (store q')
     \<and> free_queue.more q' = free_queue.more q"

lemma fq_nextD:
  "fq_next q q' xs \<Longrightarrow> fq_repr q' xs"
  "fq_next q q' xs \<Longrightarrow> same_data (store q) (store q')"
  "fq_next q q' xs \<Longrightarrow> free_queue.more q' = free_queue.more q"
  by (simp_all add: fq_next_def)

lemma fq_repr_num: "fq_repr q xs \<Longrightarrow> num_free_blocks q = int (length xs)"
  by (simp add: fq_repr_def)

lemma fq_repr_distinct: "fq_repr q xs \<Longrightarrow> distinct xs"
  by (simp add: fq_repr_def)

text \<open>Removing any block: the common core of \<^verbatim>\<open>popleft\<close> and \<^verbatim>\<open>remove\<close>.\<close>

lemma fq_next_unlink:
  assumes r: "fq_repr q (us @ b # vs)" and A: "Head # map Blk us = A @ [p]"
    and V: "map Blk vs @ [Tail] = n # V"
  shows "fq_next q (q\<lparr>store := unlink p (Blk b) n (store q),
           num_free_blocks := num_free_blocks q - 1\<rparr>) (us @ vs)"
    and "prev_free_block (store q (Blk b)) = Some p"
    and "next_free_block (store q (Blk b)) = Some n"
proof -
  have c: "chain (us @ b # vs) = A @ p # Blk b # n # V"
    using A V unfolding chain_def by (metis append.assoc append_Cons append_Nil list.simps(9) map_append)
  have c': "chain (us @ vs) = A @ p # n # V"
    using A V unfolding chain_def by (metis append.assoc append_Cons append_Nil map_append)
  from r have l: "linked (store q) (A @ p # Blk b # n # V)" and d: "distinct (A @ p # Blk b # n # V)"
    unfolding c[symmetric] by (simp_all add: fq_repr_def distinct_chain)
  from linked_unlink[OF l d] have l': "linked (unlink p (Blk b) n (store q)) (chain (us @ vs))"
    by (simp add: c')
  have pn: "p \<in> set (chain (us @ b # vs))" "n \<in> set (chain (us @ b # vs))" "p \<noteq> Tail"
    using A unfolding c by (auto simp: Cons_eq_append_conv)
       (metis A imageE in_set_conv_decomp list.set_map ref.distinct(3) ref.distinct(5) set_ConsD)
  show "fq_next q (q\<lparr>store := unlink p (Blk b) n (store q),
           num_free_blocks := num_free_blocks q - 1\<rparr>) (us @ vs)"
    using r l' pn unfolding fq_next_def fq_repr_def unlink_def by auto
  show "prev_free_block (store q (Blk b)) = Some p" "next_free_block (store q (Blk b)) = Some n"
    using l linked_append[of "store q" A p "Blk b # n # V"] by auto
qed

lemma chain_split_last: "\<exists>A p. Head # map Blk us = A @ [p]"
  by (metis append_butlast_last_id list.discI)

lemma chain_split_first: "\<exists>n V. map Blk vs @ [Tail] = n # V"
  by (cases vs) auto

lemma popleft_repr:
  assumes "fq_repr q (x # xs)"
  shows "\<exists>q'. popleft q = Inr (Blk x, q') \<and> fq_next q q' xs"
proof -
  obtain n V where V: "map Blk xs @ [Tail] = n # V" using chain_split_first by blast
  note u = fq_next_unlink[of q "[]" x xs "[]" Head n V]
  have "next_free_block (store q Head) = Some (Blk x)"
    using assms by (simp add: fq_repr_def)
  then have "popleft q = Inr (Blk x, q\<lparr>store := unlink Head (Blk x) n (store q),
           num_free_blocks := num_free_blocks q - 1\<rparr>)"
    using u(3) assms V by (simp add: popleft_def unlink_def Let_def)
  then show ?thesis using u(1) assms V by simp
qed

lemma popleft_repr_Nil:
  "fq_repr q [] \<Longrightarrow> popleft q = Inl (ValueError ''No free blocks available'')"
  by (simp add: popleft_def popleft_empty_def fq_repr_def)

lemma queue_remove_repr:
  assumes "fq_repr q xs" and "b \<in> set xs"
  shows "\<exists>q'. queue_remove (Blk b) q = Inr q' \<and> fq_next q q' (remove1 b xs)"
proof -
  from assms(2) obtain us vs where xs: "xs = us @ b # vs" "b \<notin> set us"
    by (meson split_list_first)
  obtain A p where A: "Head # map Blk us = A @ [p]" using chain_split_last by blast
  obtain n V where V: "map Blk vs @ [Tail] = n # V" using chain_split_first by blast
  note u = fq_next_unlink[OF assms(1)[unfolded xs(1)] A V]
  have "queue_remove (Blk b) q = Inr (q\<lparr>store := unlink p (Blk b) n (store q),
           num_free_blocks := num_free_blocks q - 1\<rparr>)"
    using u(2,3) by (simp add: queue_remove_def unlink_def Let_def)
  moreover have "remove1 b xs = us @ vs" using xs by (simp add: remove1_append)
  ultimately show ?thesis using u(1) by simp
qed

lemma queue_remove_not_free:
  "fq_repr q xs \<Longrightarrow> b \<notin> set xs \<Longrightarrow>
     queue_remove (Blk b) q = Inl (RuntimeError ''remove() called on an invalid block'')"
  by (simp add: queue_remove_def fq_repr_def)

lemma tail_prev:
  assumes "fq_repr q xs" and "Head # map Blk xs = A @ [p]"
  shows "prev_free_block (store q Tail) = Some p" and "linked (store q) (A @ [p])"
    and "distinct (A @ [p])"
proof -
  have c: "chain xs = A @ [p, Tail]"
    using assms(2) unfolding chain_def by (metis append.assoc append_Cons append_Nil)
  from assms(1) have l: "linked (store q) (A @ p # [Tail])" by (simp add: fq_repr_def flip: c)
  from linked_append[of "store q" A p "[Tail]"] l
  show "prev_free_block (store q Tail) = Some p" "linked (store q) (A @ [p])" by auto
  have "distinct (chain xs)" using assms(1) by (simp add: fq_repr_def distinct_chain)
  then show "distinct (A @ [p])" by (simp add: c)
qed

lemma append_n_repr:
  assumes r: "fq_repr q xs" and d: "distinct bs" and fresh: "set bs \<inter> set xs = {}"
  shows "\<exists>q'. append_n (map Blk bs) q = Inr q' \<and> fq_next q q' (xs @ bs)"
proof (cases "bs = []")
  case True
  then show ?thesis using r by (simp add: append_n_def fq_next_def)
next
  case False
  obtain A p where A: "Head # map Blk xs = A @ [p]" using chain_split_last by blast
  note t = tail_prev[OF r A]
  obtain l' st where al: "append_links p (map Blk bs) (store q) = (l', st)" by fastforce
  have elems: "set (A @ [p]) = insert Head (Blk ` set xs)"
    using arg_cong[OF A, of set] by simp
  have d': "distinct (A @ p # map Blk bs)"
    using t(3) d fresh elems by (auto simp: distinct_map inj_on_def)
  from linked_append_links[OF t(2) d' al]
  have L: "linked st (A @ p # map Blk bs)" and l': "l' = last (p # map Blk bs)" by simp_all
  let ?st = "set_prev Tail (Some l') (set_next l' (Some Tail) st)"
  have c: "chain (xs @ bs) = butlast (A @ p # map Blk bs) @ [l', Tail]"
  proof -
    have "chain (xs @ bs) = (A @ [p]) @ map Blk bs @ [Tail]" using A by (simp add: chain_def)
    also have "\<dots> = (A @ p # map Blk bs) @ [Tail]" by simp
    also have "\<dots> = (butlast (A @ p # map Blk bs) @ [last (A @ p # map Blk bs)]) @ [Tail]"
      by (subst append_butlast_last_id) simp_all
    finally show ?thesis using l' by simp
  qed
  have dc: "distinct (chain (xs @ bs))" using r d fresh by (auto intro!: distinct_chain simp: fq_repr_def)
  have "linked st (butlast (A @ p # map Blk bs) @ [l'])"
    using L l' by (metis append_butlast_last_id append_is_Nil_conv last_appendR list.discI)
  then have lk: "linked ?st (chain (xs @ bs))"
    using dc unfolding c linked_append[of _ _ l' "[Tail]"] by auto
  note fr = append_links_frame[OF al]
  have "l' \<in> Blk ` set bs" using l' False by (simp add: last_map)
  moreover have "p \<noteq> Tail" using elems by auto
  moreover have "next_free_block (st Tail) = None"
    using fr(3)[of Tail] \<open>p \<noteq> Tail\<close> r by (auto simp: fq_repr_def)
  moreover have "prev_free_block (st (Blk b)) = None \<and> next_free_block (st (Blk b)) = None"
    if "b \<notin> set xs" "b \<notin> set bs" for b
  proof -
    have "p \<noteq> Blk b" using elems that(1) by auto
    then show ?thesis
      using fr(2,3)[of "Blk b"] r that by (auto simp: fq_repr_def)
  qed
  ultimately have "fq_next q (q\<lparr>store := ?st, num_free_blocks := num_free_blocks q + int (length bs)\<rparr>) (xs @ bs)"
    using r d fresh lk fr(1) unfolding fq_next_def fq_repr_def by auto
  then show ?thesis using False t(1) al by (simp add: append_n_def)
qed

lemma queue_append_repr:
  assumes "fq_repr q xs" and "b \<notin> set xs"
  shows "\<exists>q'. queue_append (Blk b) q = Inr q' \<and> fq_next q q' (xs @ [b])"
proof -
  obtain A p where A: "Head # map Blk xs = A @ [p]" using chain_split_last by blast
  have "p \<noteq> Blk b" using arg_cong[OF A, of set] assms(2) by auto
  then have "queue_append (Blk b) q = append_n (map Blk [b]) q"
    using tail_prev(1)[OF assms(1) A]
    by (auto simp: queue_append_def append_n_def Let_def set_next_def set_prev_def fun_upd_twist)
  then show ?thesis using append_n_repr[OF assms(1), of "[b]"] assms(2) by simp
qed

definition clear_links :: "ref set \<Rightarrow> block_store \<Rightarrow> block_store" where
  "clear_links R st = (\<lambda>r. if r \<in> R then (st r)\<lparr>prev_free_block := None, next_free_block := None\<rparr> else st r)"

lemma popleft_n_loop_clears:
  assumes "linked st (bs @ [r])" and "distinct (bs @ [r])"
  shows "popleft_n_loop (length bs) (Some (hd (bs @ [r]))) ret st =
    Inr (ret @ bs, Some r, clear_links (set bs) st)"
  using assms
proof (induction bs arbitrary: st ret)
  case Nil
  then show ?case by (simp add: clear_links_def)
next
  case (Cons b bs)
  let ?st = "set_next b None (set_prev b None st)"
  have nx: "next_free_block (st b) = Some (hd (bs @ [r]))" and "linked st (bs @ [r])"
    using Cons.prems(1) by (cases bs; auto)+
  then have "linked ?st (bs @ [r])" using Cons.prems(2) by auto
  moreover have "clear_links (set bs) ?st = clear_links (set (b # bs)) st"
    using Cons.prems(2) by (auto simp: clear_links_def set_next_def set_prev_def fun_eq_iff)
  ultimately show ?case
    using Cons.IH[of ?st "ret @ [b]"] Cons.prems(2) nx by simp
qed

lemma linked_clear_links [simp]:
  "R \<inter> set zs = {} \<Longrightarrow> linked (clear_links R st) zs = linked st zs"
proof (induction zs)
  case Nil
  then show ?case by simp
next
  case (Cons z zs)
  then show ?case by (cases zs) (auto simp: clear_links_def)
qed

lemma popleft_n_repr:
  assumes r: "fq_repr q (ys @ zs)"
  shows "\<exists>q'. popleft_n (length ys) q = Inr (map Blk ys, q') \<and> fq_next q q' zs"
proof (cases "ys = []")
  case True
  then show ?thesis using r by (simp add: popleft_n_def fq_next_def)
next
  case False
  obtain n V where V: "map Blk zs @ [Tail] = n # V" using chain_split_first by blast
  have c: "chain (ys @ zs) = Head # map Blk ys @ n # V" using V by (simp add: chain_def)
  have d: "distinct (Head # map Blk ys @ n # V)" and l: "linked (store q) (Head # map Blk ys @ n # V)"
    using r by (simp_all add: fq_repr_def distinct_chain flip: c)
  have l1: "linked (store q) (map Blk ys @ [n])" and l2: "linked (store q) (n # V)"
    and h: "next_free_block (store q Head) = Some (hd (map Blk ys @ [n]))"
    using l False linked_append[of "store q" "Head # map Blk ys" n V] by (cases ys; auto)+
  have loop: "popleft_n_loop (length ys) (next_free_block (store q Head)) [] (store q)
      = Inr (map Blk ys, Some n, clear_links (Blk ` set ys) (store q))"
    using popleft_n_loop_clears[OF l1, of "[]"] d h by auto
  let ?st = "set_prev n (Some Head) (set_next Head (Some n) (clear_links (Blk ` set ys) (store q)))"
  have "linked ?st (chain zs)"
    using l2 d unfolding chain_def V by auto
  moreover have "same_data (store q) (clear_links (Blk ` set ys) (store q))"
    by (auto simp: same_data_def clear_links_def data_of_def)
  moreover have "n = Tail \<or> n \<in> Blk ` set zs" using V by (cases zs) auto
  ultimately have "fq_next q (q\<lparr>store := ?st, num_free_blocks := num_free_blocks q - int (length ys)\<rparr>) zs"
    using r unfolding fq_next_def fq_repr_def by (auto simp: clear_links_def)
  then show ?thesis using loop False r by (simp add: popleft_n_def fq_repr_def)
qed

lemma popleft_n_too_many:
  "fq_repr q xs \<Longrightarrow> length xs < n \<Longrightarrow> popleft_n n q = Inl AssertionError"
  by (simp add: popleft_n_def fq_repr_def py_assert_def)

lemma all_free_loop_returns:
  assumes "linked st (bs @ [Tail])" and "next_free_block (st Tail) = None"
  shows "all_free_loop st (hd (bs @ [Tail])) ret = Some (ret @ bs)"
  using assms
proof (induction bs arbitrary: ret)
  case Nil
  then show ?case by (simp add: all_free_loop.simps)
next
  case (Cons b bs)
  then have "next_free_block (st b) = Some (hd (bs @ [Tail]))" "linked st (bs @ [Tail])"
    by (cases bs; auto)+
  then show ?case using Cons by (simp add: all_free_loop.simps[of st b])
qed

lemma get_all_free_blocks_repr:
  assumes "fq_repr q xs"
  shows "get_all_free_blocks q = Some (Inr (map Blk xs))"
proof -
  have "next_free_block (store q Head) = Some (hd (map Blk xs @ [Tail]))"
    "linked (store q) (map Blk xs @ [Tail])"
    using assms by (cases xs; auto simp: fq_repr_def chain_def)+
  then show ?thesis
    using all_free_loop_returns[of "store q" "map Blk xs" "[]"] assms
    by (simp add: get_all_free_blocks_def fq_repr_def)
qed

section \<open>Construction\<close>

lemma linked_nth:
  "linked st zs \<longleftrightarrow> (\<forall>i. Suc i < length zs \<longrightarrow>
     next_free_block (st (zs ! i)) = Some (zs ! Suc i) \<and>
     prev_free_block (st (zs ! Suc i)) = Some (zs ! i))"
proof (induction zs)
  case Nil
  then show ?case by simp
next
  case (Cons z zs)
  show ?case
  proof (cases zs)
    case Nil
    then show ?thesis by simp
  next
    case (Cons y ys)
    then show ?thesis using Cons.IH by (auto simp: nth_Cons split: nat.splits)
  qed
qed

lemma fold_init_links:
  assumes "\<And>b. prev_free_block (st (Blk b)) = None \<and> next_free_block (st (Blk b)) = None"
  shows "prev_free_block (fold (init_links n) [0..<m] st (Blk i)) =
           (if 0 < i \<and> i < m then Some (Blk (i - 1)) else None)
       \<and> next_free_block (fold (init_links n) [0..<m] st (Blk i)) =
           (if i < m \<and> Suc i < n then Some (Blk (Suc i)) else None)"
proof (induction m)
  case 0
  then show ?case using assms by simp
next
  case (Suc m)
  then show ?case by (auto simp: init_links_def Let_def)
qed

lemma fold_init_links_frame:
  "same_data st (fold (init_links n) is st)"
proof (induction "is" arbitrary: st)
  case Nil
  then show ?case by simp
next
  case (Cons i "is")
  have "same_data st (init_links n i st)" by (simp add: init_links_def Let_def)
  also have "same_data \<dots> (fold (init_links n) is \<dots>)" by (rule Cons.IH)
  finally show ?case by simp
qed

theorem FreeKVCacheBlockQueue_repr:
  assumes "\<And>b. prev_free_block (st (Blk b)) = None \<and> next_free_block (st (Blk b)) = None"
  shows "fq_repr (FreeKVCacheBlockQueue n st) [0..<n]"
proof -
  have nth: "i < n \<Longrightarrow> chain [0..<n] ! Suc i = Blk i" "chain [0..<n] ! 0 = Head"
    "chain [0..<n] ! Suc n = Tail" "length (chain [0..<n]) = Suc (Suc n)" for i
    by (simp_all add: chain_def nth_append)
  have "linked (store (FreeKVCacheBlockQueue n st)) (chain [0..<n])"
    unfolding linked_nth nth(4)
  proof (intro allI impI)
    fix i assume i: "Suc i < Suc (Suc n)"
    show "next_free_block (store (FreeKVCacheBlockQueue n st) (chain [0..<n] ! i)) = Some (chain [0..<n] ! Suc i)
      \<and> prev_free_block (store (FreeKVCacheBlockQueue n st) (chain [0..<n] ! Suc i)) = Some (chain [0..<n] ! i)"
    proof (cases i)
      case 0
      then show ?thesis using nth(1)[of 0] nth(2,3) by (auto simp: FreeKVCacheBlockQueue_def Let_def)
    next
      case (Suc j)
      then show ?thesis
        using i nth(1)[of j] nth(1)[of "Suc j"] nth(3) fold_init_links[where st = st and n = n and m = n, OF assms]
        by (cases "Suc j < n") (auto simp: FreeKVCacheBlockQueue_def Let_def less_Suc_eq)
    qed
  qed
  then show ?thesis
    using fold_init_links[where st = st and n = n and m = n, OF assms]
    by (auto simp: fq_repr_def FreeKVCacheBlockQueue_def Let_def KVCacheBlock_def)
qed

lemma FreeKVCacheBlockQueue_data:
  "data_of (store (FreeKVCacheBlockQueue n st) (Blk b)) = data_of (st (Blk b))"
  using fold_init_links_frame[of st n "[0..<n]"]
  by (auto simp: FreeKVCacheBlockQueue_def Let_def same_data_def set_next_def set_prev_def data_of_def)

section \<open>The interface of the queue\<close>

text \<open>
  What the block pool relies on: the queue behaves as a list of free block ids, allocation takes
  from the front, freeing appends at the back, a cache hit takes a block out of the middle.
\<close>

locale free_list_queue =
  fixes repr :: "'q \<Rightarrow> nat list \<Rightarrow> bool"
    and num_free :: "'q \<Rightarrow> int"
    and pop :: "'q \<Rightarrow> (ref \<times> 'q) res"
    and pop_n :: "nat \<Rightarrow> 'q \<Rightarrow> (ref list \<times> 'q) res"
    and rem :: "ref \<Rightarrow> 'q \<Rightarrow> 'q res"
    and app_n :: "ref list \<Rightarrow> 'q \<Rightarrow> 'q res"
  assumes repr_distinct: "repr q xs \<Longrightarrow> distinct xs"
    and repr_num: "repr q xs \<Longrightarrow> num_free q = int (length xs)"
    and pop_law: "repr q (x # xs) \<Longrightarrow> \<exists>q'. pop q = Inr (Blk x, q') \<and> repr q' xs"
    and pop_n_law: "repr q (ys @ zs) \<Longrightarrow> \<exists>q'. pop_n (length ys) q = Inr (map Blk ys, q') \<and> repr q' zs"
    and rem_law: "repr q xs \<Longrightarrow> b \<in> set xs \<Longrightarrow> \<exists>q'. rem (Blk b) q = Inr q' \<and> repr q' (remove1 b xs)"
    and app_n_law: "repr q xs \<Longrightarrow> distinct bs \<Longrightarrow> set bs \<inter> set xs = {} \<Longrightarrow>
        \<exists>q'. app_n (map Blk bs) q = Inr q' \<and> repr q' (xs @ bs)"
begin

lemma pop_n_take:
  assumes "repr q xs" and "n \<le> length xs"
  shows "\<exists>q'. pop_n n q = Inr (map Blk (take n xs), q') \<and> repr q' (drop n xs)"
  using pop_n_law[of q "take n xs" "drop n xs"] assms by simp

lemma pop_n_enough:
  assumes "repr q xs" and "int n \<le> num_free q"
  shows "\<exists>bs q'. pop_n n q = Inr (map Blk bs, q') \<and> length bs = n \<and> set bs \<subseteq> set xs
           \<and> num_free q' = num_free q - int n"
proof -
  have n: "n \<le> length xs" using assms repr_num by simp
  from pop_n_take[OF assms(1) this] obtain q' where
    "pop_n n q = Inr (map Blk (take n xs), q')" "repr q' (drop n xs)" by blast
  then show ?thesis
    using n repr_num[of q'] repr_num[OF assms(1)]
    by (intro exI[of _ "take n xs"] exI[of _ q']) (auto dest: in_set_takeD)
qed

text \<open>Freed blocks are handed out only after every block that was free before them.\<close>

lemma freed_last:
  assumes "repr q xs" and "distinct bs" and "set bs \<inter> set xs = {}"
  shows "\<exists>q1 q2 q3. app_n (map Blk bs) q = Inr q1 \<and> pop_n (length xs) q1 = Inr (map Blk xs, q2)
           \<and> pop_n (length bs) q2 = Inr (map Blk bs, q3) \<and> repr q3 []"
proof -
  obtain q1 where q1: "app_n (map Blk bs) q = Inr q1" "repr q1 (xs @ bs)"
    using app_n_law[OF assms] by blast
  obtain q2 where q2: "pop_n (length xs) q1 = Inr (map Blk xs, q2)" "repr q2 bs"
    using pop_n_law[OF q1(2)] by blast
  obtain q3 where "pop_n (length bs) q2 = Inr (map Blk bs, q3)" "repr q3 []"
    using pop_n_law[of q2 bs "[]"] q2(2) by auto
  then show ?thesis using q1 q2 by blast
qed

text \<open>A block taken out by a cache hit is not handed out by any later allocation.\<close>

lemma removed_not_popped:
  assumes "repr q xs" and "b \<in> set xs" and "n < length xs"
  shows "\<exists>q1 bs q2. rem (Blk b) q = Inr q1 \<and> pop_n n q1 = Inr (map Blk bs, q2) \<and> b \<notin> set bs"
proof -
  obtain q1 where q1: "rem (Blk b) q = Inr q1" "repr q1 (remove1 b xs)"
    using rem_law[OF assms(1,2)] by blast
  have "n \<le> length (remove1 b xs)" using assms(2,3) by (simp add: length_remove1)
  from pop_n_take[OF q1(2) this] obtain q2 where
    "pop_n n q1 = Inr (map Blk (take n (remove1 b xs)), q2)" by blast
  moreover have "b \<notin> set (take n (remove1 b xs))"
    using repr_distinct[OF assms(1)] by (auto dest: in_set_takeD)
  ultimately show ?thesis using q1(1) by blast
qed

end

interpretation fq: free_list_queue fq_repr num_free_blocks popleft popleft_n queue_remove append_n
proof
  show "fq_repr q xs \<Longrightarrow> distinct xs" for q :: "'a free_queue_scheme" and xs
    by (rule fq_repr_distinct)
  show "fq_repr q xs \<Longrightarrow> num_free_blocks q = int (length xs)" for q :: "'a free_queue_scheme" and xs
    by (rule fq_repr_num)
  show "fq_repr q (x # xs) \<Longrightarrow> \<exists>q'. popleft q = Inr (Blk x, q') \<and> fq_repr q' xs"
    for q :: "'a free_queue_scheme" and x xs using popleft_repr fq_nextD(1) by blast
  show "fq_repr q (ys @ zs) \<Longrightarrow> \<exists>q'. popleft_n (length ys) q = Inr (map Blk ys, q') \<and> fq_repr q' zs"
    for q :: "'a free_queue_scheme" and ys zs using popleft_n_repr fq_nextD(1) by blast
  show "fq_repr q xs \<Longrightarrow> b \<in> set xs \<Longrightarrow> \<exists>q'. queue_remove (Blk b) q = Inr q' \<and> fq_repr q' (remove1 b xs)"
    for q :: "'a free_queue_scheme" and xs b using queue_remove_repr fq_nextD(1) by blast
  show "fq_repr q xs \<Longrightarrow> distinct bs \<Longrightarrow> set bs \<inter> set xs = {} \<Longrightarrow>
      \<exists>q'. append_n (map Blk bs) q = Inr q' \<and> fq_repr q' (xs @ bs)"
    for q :: "'a free_queue_scheme" and xs bs using append_n_repr fq_nextD(1) by blast
qed

section \<open>Properties\<close>

text \<open>
  C18: the key of a block hash and a group id splits back into both; a group id that does not fit
  four bytes raises \<^verbatim>\<open>OverflowError\<close>.
\<close>

theorem hash_key_splits:
  "if 0 \<le> g \<and> g < 2 ^ 32
   then \<exists>key. make_block_hash_with_group_id h g = Inr key \<and> get_block_hash key = h \<and> get_group_id key = g
   else make_block_hash_with_group_id h g = Inl OverflowError"
  using hash_key_defined[of g h] hash_key_roundtrip[of h g]
  by (auto simp: make_block_hash_with_group_id_def to_bytes4_def)

text \<open>
  C19: freed blocks are handed out after every block that was free before, in the order in which
  they were freed; when all are taken, the next request for a block raises \<^verbatim>\<open>ValueError\<close>.
\<close>

theorem eviction_order:
  assumes "fq_repr q xs" and "distinct bs" and "set bs \<inter> set xs = {}"
  shows "\<exists>q1 q2 q3. append_n (map Blk bs) q = Inr q1 \<and> popleft_n (length xs) q1 = Inr (map Blk xs, q2)
    \<and> popleft_n (length bs) q2 = Inr (map Blk bs, q3)
    \<and> popleft q3 = Inl (ValueError ''No free blocks available'')"
  using fq.freed_last[OF assms] popleft_repr_Nil by blast

text \<open>
  C20: collecting all free blocks returns (the walk over the links ends) and lists them in eviction
  order.
\<close>

theorem get_all_free_blocks_returns:
  assumes "fq_repr q xs"
  shows "get_all_free_blocks q = Some (Inr (map Blk xs))"
  using get_all_free_blocks_repr[OF assms] .

lemma example_queue:
  "\<exists>q q'. q = FreeKVCacheBlockQueue 3 (\<lambda>_. KVCacheBlock 0) \<and> fq_repr q [0, 1, 2]
    \<and> popleft q = Inr (Blk 0, q') \<and> fq_repr q' [1, 2]"
proof -
  let ?q = "FreeKVCacheBlockQueue 3 (\<lambda>_. KVCacheBlock 0)"
  have "fq_repr ?q [0..<3]"
    by (rule FreeKVCacheBlockQueue_repr) (simp add: KVCacheBlock_def)
  moreover have "[0..<3] = [0, 1, 2::nat]" by (simp add: upt_conv_Cons)
  ultimately have "fq_repr ?q [0, 1, 2]" by simp
  then show ?thesis using popleft_repr[of ?q 0 "[1, 2]"] fq_nextD(1) by blast
qed

theorem eviction_order_witness:
  "\<exists>q q' q1 q2 q3. q = FreeKVCacheBlockQueue 3 (\<lambda>_. KVCacheBlock 0) \<and> popleft q = Inr (Blk 0, q')
    \<and> append_n [Blk 0] q' = Inr q1 \<and> popleft_n 2 q1 = Inr ([Blk 1, Blk 2], q2)
    \<and> popleft_n 1 q2 = Inr ([Blk 0], q3) \<and> popleft q3 = Inl (ValueError ''No free blocks available'')"
proof -
  obtain q q' where q: "q = FreeKVCacheBlockQueue 3 (\<lambda>_. KVCacheBlock 0)" "popleft q = Inr (Blk 0, q')"
    "fq_repr q' [1, 2]"
    using example_queue by blast
  then show ?thesis using eviction_order[OF q(3), of "[0]"] by (auto simp: numeral_2_eq_2)
qed

theorem get_all_free_blocks_returns_witness:
  "get_all_free_blocks (FreeKVCacheBlockQueue 3 (\<lambda>_. KVCacheBlock 0)) = Some (Inr [Blk 0, Blk 1, Blk 2])"
proof -
  have "fq_repr (FreeKVCacheBlockQueue 3 (\<lambda>_. KVCacheBlock 0)) [0, 1, 2]" using example_queue by blast
  from get_all_free_blocks_returns[OF this] show ?thesis by simp
qed

end
