(* ===== verification/Cpu_Policy.thy ===== *)
theory Cpu_Policy
  imports Free_Queue
begin

text \<open>
  The replacement policies of the CPU tier (\<^verbatim>\<open>vllm/v1/kv_offload/cpu/policies\<close>): \<^verbatim>\<open>LRUCachePolicy\<close>
  and \<^verbatim>\<open>ARCCachePolicy\<close> behind the interface \<^verbatim>\<open>CachePolicy\<close>, with the offload keys of
  \<^verbatim>\<open>vllm/v1/kv_offload/base.py\<close>. The locale \<open>cache_policy\<close> states what the interface promises in terms
  of the map from keys to block statuses; it is interpreted on both policies and on their dispatch.

  The manager changes a \<^verbatim>\<open>BlockStatus\<close> through the reference that \<^verbatim>\<open>get\<close> returns; \<open>write\<close> is that
  write, in the dictionary entry that holds the object.
\<close>

section \<open>Offload keys\<close>

type_synonym offload_key = bytes

definition make_offload_key :: "bytes \<Rightarrow> int \<Rightarrow> offload_key res" where
  "make_offload_key h group_idx = rbind (to_bytes4 group_idx) (\<lambda>g. Inr (h @ g))"

definition get_offload_block_hash :: "offload_key \<Rightarrow> bytes" where
  "get_offload_block_hash key = take (length key - 4) key"

definition get_offload_group_idx :: "offload_key \<Rightarrow> int" where
  "get_offload_group_idx key = from_bytes (drop (length key - 4) key)"

section \<open>Block status\<close>

text \<open>The fields are a \<^verbatim>\<open>c_int32\<close> and a \<^verbatim>\<open>c_int64\<close>: a store keeps the low bits.\<close>

record block_status =
  cs_ref_cnt :: int
  cs_block_id :: int

definition c_int64 :: "int \<Rightarrow> int" where
  "c_int64 x = (x + 2 ^ 63) mod 2 ^ 64 - 2 ^ 63"

definition BlockStatus :: "int \<Rightarrow> block_status" where
  "BlockStatus bid = \<lparr>cs_ref_cnt = c_int32 (-1), cs_block_id = c_int64 bid\<rparr>"

definition set_ref_cnt :: "int \<Rightarrow> block_status \<Rightarrow> block_status" where
  "set_ref_cnt n b = b\<lparr>cs_ref_cnt := c_int32 n\<rparr>"

definition is_ready :: "block_status \<Rightarrow> bool" where
  "is_ready b \<longleftrightarrow> cs_ref_cnt b \<ge> 0"

type_synonym status_dict = "(offload_key, block_status) dict"

section \<open>LRU\<close>

record lru_policy =
  lru_blocks :: status_dict

definition LRUCachePolicy :: "int \<Rightarrow> lru_policy" where
  "LRUCachePolicy cache_capacity = \<lparr>lru_blocks = []\<rparr>"

definition lru_get :: "lru_policy \<Rightarrow> offload_key \<Rightarrow> block_status option" where
  "lru_get p key = map_of (lru_blocks p) key"

definition lru_insert :: "offload_key \<Rightarrow> block_status \<Rightarrow> lru_policy \<Rightarrow> lru_policy" where
  "lru_insert key b p = p\<lparr>lru_blocks := dict_set key b (lru_blocks p)\<rparr>"

definition lru_remove :: "offload_key \<Rightarrow> lru_policy \<Rightarrow> lru_policy res" where
  "lru_remove key p = (if has_key (lru_blocks p) key
     then Inr (p\<lparr>lru_blocks := dict_del key (lru_blocks p)\<rparr>) else Inl KeyError)"

definition lru_touch :: "offload_key list \<Rightarrow> lru_policy \<Rightarrow> lru_policy" where
  "lru_touch keys p = fold (\<lambda>key p. if has_key (lru_blocks p) key
     then p\<lparr>lru_blocks := move_to_end key (lru_blocks p)\<rparr> else p) (rev keys) p"

definition lru_clear :: "lru_policy \<Rightarrow> lru_policy" where
  "lru_clear p = p\<lparr>lru_blocks := []\<rparr>"

definition evictable :: "offload_key list \<Rightarrow> offload_key \<times> block_status \<Rightarrow> bool" where
  "evictable protected kb \<longleftrightarrow> cs_ref_cnt (snd kb) = 0 \<and> fst kb \<notin> set protected"

fun lru_scan :: "nat \<Rightarrow> offload_key list \<Rightarrow> status_dict \<Rightarrow> status_dict \<Rightarrow> status_dict" where
  "lru_scan n protected [] cands = cands"
| "lru_scan n protected (kb # rest) cands =
     (if evictable protected kb
      then let cands = cands @ [kb]
           in if length cands = n then cands else lru_scan n protected rest cands
      else lru_scan n protected rest cands)"

definition lru_evict :: "nat \<Rightarrow> offload_key list \<Rightarrow> lru_policy \<Rightarrow> (status_dict \<times> lru_policy) option" where
  "lru_evict n protected p =
     (if n = 0 then Some ([], p)
      else let cands = lru_scan n protected (lru_blocks p) []
           in if length cands < n then None
              else Some (cands, p\<lparr>lru_blocks := fold (\<lambda>kb. dict_del (fst kb)) cands (lru_blocks p)\<rparr>))"

definition lru_write :: "offload_key \<Rightarrow> block_status \<Rightarrow> lru_policy \<Rightarrow> lru_policy" where
  "lru_write key b p = p\<lparr>lru_blocks := dict_set key b (lru_blocks p)\<rparr>"

section \<open>ARC\<close>

record arc_policy =
  cache_capacity :: int
  target_t1_size :: real
  arc_t1 :: status_dict
  arc_t2 :: status_dict
  arc_b1 :: "(offload_key, unit) dict"
  arc_b2 :: "(offload_key, unit) dict"

definition ARCCachePolicy :: "int \<Rightarrow> arc_policy" where
  "ARCCachePolicy capacity = \<lparr>cache_capacity = capacity, target_t1_size = 0, arc_t1 = [], arc_t2 = [],
     arc_b1 = [], arc_b2 = []\<rparr>"

definition arc_get :: "arc_policy \<Rightarrow> offload_key \<Rightarrow> block_status option" where
  "arc_get p key = (case map_of (arc_t1 p) key of Some b \<Rightarrow> Some b | None \<Rightarrow> map_of (arc_t2 p) key)"

definition arc_insert :: "offload_key \<Rightarrow> block_status \<Rightarrow> arc_policy \<Rightarrow> arc_policy" where
  "arc_insert key b p = p\<lparr>arc_t1 := dict_set key b (arc_t1 p), arc_b1 := dict_del key (arc_b1 p),
     arc_b2 := dict_del key (arc_b2 p)\<rparr>"

definition arc_remove :: "offload_key \<Rightarrow> arc_policy \<Rightarrow> arc_policy res" where
  "arc_remove key p = (if has_key (arc_t1 p) key
     then Inr (p\<lparr>arc_t1 := dict_del key (arc_t1 p)\<rparr>)
     else Inr (p\<lparr>arc_t2 := dict_del key (arc_t2 p)\<rparr>))"

definition arc_touch_one :: "offload_key \<Rightarrow> arc_policy \<Rightarrow> arc_policy" where
  "arc_touch_one key p =
     (case map_of (arc_t1 p) key of
        Some b \<Rightarrow>
          (let p = p\<lparr>arc_t1 := dict_del key (arc_t1 p)\<rparr>
           in if \<not> is_ready b then p\<lparr>arc_t1 := dict_set key b (arc_t1 p)\<rparr>
              else p\<lparr>arc_t2 := dict_set key b (arc_t2 p)\<rparr>)
      | None \<Rightarrow>
          if has_key (arc_t2 p) key then p\<lparr>arc_t2 := move_to_end key (arc_t2 p)\<rparr>
          else if has_key (arc_b1 p) key
          then let delta = max 1 (real (length (arc_b2 p)) / real (length (arc_b1 p)))
               in p\<lparr>target_t1_size := min (target_t1_size p + delta) (real_of_int (cache_capacity p)),
                    arc_b1 := move_to_end key (arc_b1 p)\<rparr>
          else if has_key (arc_b2 p) key
          then let delta = max 1 (real (length (arc_b1 p)) / real (length (arc_b2 p)))
               in p\<lparr>target_t1_size := max (target_t1_size p - delta) 0,
                    arc_b2 := move_to_end key (arc_b2 p)\<rparr>
          else p)"

definition arc_touch :: "offload_key list \<Rightarrow> arc_policy \<Rightarrow> arc_policy" where
  "arc_touch keys p = fold arc_touch_one (rev keys) p"

definition arc_clear :: "arc_policy \<Rightarrow> arc_policy" where
  "arc_clear p = p\<lparr>arc_t1 := [], arc_t2 := [], arc_b1 := [], arc_b2 := [], target_t1_size := 0\<rparr>"

text \<open>
  The selection loop: \<open>k\<close> rounds to go, \<open>vsize\<close> the simulated size of T1, \<open>cands\<close> the candidates
  selected so far with the list they come from.
\<close>

definition arc_candidate :: "offload_key list \<Rightarrow> arc_policy \<Rightarrow> int \<Rightarrow> offload_key list
    \<Rightarrow> ((offload_key \<times> block_status) \<times> bool) option" where
  "arc_candidate protected p vsize selected =
     (let free = evictable (protected @ selected);
          from_t1 = (if vsize \<ge> py_int (target_t1_size p) then find free (arc_t1 p) else None)
      in case from_t1 of
           Some kb \<Rightarrow> Some (kb, True)
         | None \<Rightarrow> map_option (\<lambda>kb. (kb, False)) (find free (arc_t2 p)))"

fun arc_select :: "nat \<Rightarrow> offload_key list \<Rightarrow> arc_policy \<Rightarrow> int
    \<Rightarrow> ((offload_key \<times> block_status) \<times> bool) list \<Rightarrow> ((offload_key \<times> block_status) \<times> bool) list option" where
  "arc_select 0 protected p vsize cands = Some cands"
| "arc_select (Suc k) protected p vsize cands =
     (case arc_candidate protected p vsize (map (fst \<circ> fst) cands) of
        None \<Rightarrow> None
      | Some (kb, t1) \<Rightarrow>
          arc_select k protected p (if t1 then vsize - 1 else vsize) (cands @ [(kb, t1)]))"

definition arc_apply :: "(offload_key \<times> block_status) \<times> bool \<Rightarrow> arc_policy \<Rightarrow> arc_policy" where
  "arc_apply c p = (let key = fst (fst c) in
     if snd c then p\<lparr>arc_t1 := dict_del key (arc_t1 p), arc_b1 := dict_set key () (arc_b1 p)\<rparr>
     else p\<lparr>arc_t2 := dict_del key (arc_t2 p), arc_b2 := dict_set key () (arc_b2 p)\<rparr>)"

text \<open>\<^verbatim>\<open>range\<close> of a negative number is empty.\<close>

definition arc_trim :: "int \<Rightarrow> 'a list \<Rightarrow> 'a list" where
  "arc_trim capacity ghost = drop (nat (int (length ghost) - capacity)) ghost"

definition arc_evict :: "nat \<Rightarrow> offload_key list \<Rightarrow> arc_policy \<Rightarrow> (status_dict \<times> arc_policy) option" where
  "arc_evict n protected p =
     (if n = 0 then Some ([], p)
      else case arc_select n protected p (int (length (arc_t1 p))) [] of
             None \<Rightarrow> None
           | Some cands \<Rightarrow>
               (let p = fold arc_apply cands p;
                    p = p\<lparr>arc_b1 := arc_trim (cache_capacity p) (arc_b1 p)\<rparr>;
                    p = p\<lparr>arc_b2 := arc_trim (cache_capacity p) (arc_b2 p)\<rparr>
                in Some (map fst cands, p)))"

definition arc_write :: "offload_key \<Rightarrow> block_status \<Rightarrow> arc_policy \<Rightarrow> arc_policy" where
  "arc_write key b p = (if has_key (arc_t1 p) key
     then p\<lparr>arc_t1 := dict_set key b (arc_t1 p)\<rparr> else p\<lparr>arc_t2 := dict_set key b (arc_t2 p)\<rparr>)"

section \<open>Dispatch\<close>

datatype policy = Lru lru_policy | Arc arc_policy

definition make_policy :: "string \<Rightarrow> int \<Rightarrow> policy res" where
  "make_policy name capacity =
     (if name = ''lru'' then Inr (Lru (LRUCachePolicy capacity))
      else if name = ''arc'' then Inr (Arc (ARCCachePolicy capacity))
      else Inl (ValueError ''Unknown cache policy''))"

fun pol_get :: "policy \<Rightarrow> offload_key \<Rightarrow> block_status option" where
  "pol_get (Lru p) key = lru_get p key" | "pol_get (Arc p) key = arc_get p key"

fun pol_insert :: "offload_key \<Rightarrow> block_status \<Rightarrow> policy \<Rightarrow> policy" where
  "pol_insert key b (Lru p) = Lru (lru_insert key b p)" | "pol_insert key b (Arc p) = Arc (arc_insert key b p)"

fun pol_remove :: "offload_key \<Rightarrow> policy \<Rightarrow> policy res" where
  "pol_remove key (Lru p) = map_sum id Lru (lru_remove key p)"
| "pol_remove key (Arc p) = map_sum id Arc (arc_remove key p)"

fun pol_touch :: "offload_key list \<Rightarrow> policy \<Rightarrow> policy" where
  "pol_touch keys (Lru p) = Lru (lru_touch keys p)" | "pol_touch keys (Arc p) = Arc (arc_touch keys p)"

fun pol_evict :: "nat \<Rightarrow> offload_key list \<Rightarrow> policy \<Rightarrow> (status_dict \<times> policy) option" where
  "pol_evict n prot (Lru p) = map_option (map_prod id Lru) (lru_evict n prot p)"
| "pol_evict n prot (Arc p) = map_option (map_prod id Arc) (arc_evict n prot p)"

fun pol_clear :: "policy \<Rightarrow> policy" where
  "pol_clear (Lru p) = Lru (lru_clear p)" | "pol_clear (Arc p) = Arc (arc_clear p)"

fun pol_write :: "offload_key \<Rightarrow> block_status \<Rightarrow> policy \<Rightarrow> policy" where
  "pol_write key b (Lru p) = Lru (lru_write key b p)" | "pol_write key b (Arc p) = Arc (arc_write key b p)"

section \<open>The interface\<close>

locale cache_policy =
  fixes inv :: "'p \<Rightarrow> bool"
    and get :: "'p \<Rightarrow> offload_key \<Rightarrow> block_status option"
    and ins :: "offload_key \<Rightarrow> block_status \<Rightarrow> 'p \<Rightarrow> 'p"
    and rem :: "offload_key \<Rightarrow> 'p \<Rightarrow> 'p res"
    and tch :: "offload_key list \<Rightarrow> 'p \<Rightarrow> 'p"
    and evt :: "nat \<Rightarrow> offload_key list \<Rightarrow> 'p \<Rightarrow> (status_dict \<times> 'p) option"
    and clr :: "'p \<Rightarrow> 'p"
    and wr :: "offload_key \<Rightarrow> block_status \<Rightarrow> 'p \<Rightarrow> 'p"
  assumes finite_dom: "inv p \<Longrightarrow> finite (dom (get p))"
    and ins_law: "inv p \<Longrightarrow> get p k = None \<Longrightarrow> inv (ins k b p) \<and> get (ins k b p) = (get p)(k \<mapsto> b)"
    and rem_law: "inv p \<Longrightarrow> get p k = Some b \<Longrightarrow>
      \<exists>p'. rem k p = Inr p' \<and> inv p' \<and> get p' = (get p)(k := None)"
    and tch_law: "inv p \<Longrightarrow> inv (tch ks p) \<and> get (tch ks p) = get p"
    and wr_law: "inv p \<Longrightarrow> get p k = Some b \<Longrightarrow> inv (wr k b' p) \<and> get (wr k b' p) = (get p)(k \<mapsto> b')"
    and clr_law: "inv p \<Longrightarrow> inv (clr p) \<and> get (clr p) = Map.empty"
    and evt_law: "inv p \<Longrightarrow> evt n prot p = Some (ev, p') \<Longrightarrow>
      inv p' \<and> length ev = n \<and> distinct (map fst ev)
      \<and> (\<forall>(k, b) \<in> set ev. get p k = Some b \<and> cs_ref_cnt b = 0 \<and> k \<notin> set prot)
      \<and> get p' = get p |` (- fst ` set ev)"
begin

text \<open>A block that is in use or protected survives every eviction.\<close>

lemma evict_keeps:
  assumes "inv p" and "evt n prot p = Some (ev, p')" and "get p k = Some b"
    and "cs_ref_cnt b \<noteq> 0 \<or> k \<in> set prot"
  shows "get p' k = Some b"
proof -
  note l = evt_law[OF assms(1,2)]
  have "k \<notin> fst ` set ev"
  proof
    assume "k \<in> fst ` set ev"
    then obtain b' where "(k, b') \<in> set ev" by auto
    then have "get p k = Some b' \<and> cs_ref_cnt b' = 0 \<and> k \<notin> set prot" using l by blast
    then show False using assms(3,4) by simp
  qed
  then show ?thesis using l assms(3) by (simp add: restrict_map_def)
qed

lemma insert_all:
  assumes "inv p" and "distinct ks" and "\<forall>k \<in> set ks. get p k = None" and "length bs = length ks"
  shows "inv (fold (\<lambda>(k, b). ins k b) (zip ks bs) p)
    \<and> get (fold (\<lambda>(k, b). ins k b) (zip ks bs) p) = get p ++ map_of (zip ks bs)"
  using assms
proof (induction ks arbitrary: p bs)
  case Nil
  then show ?case by simp
next
  case (Cons k ks)
  obtain b bs' where bs: "bs = b # bs'" using Cons.prems(4) by (cases bs) auto
  have i: "inv (ins k b p)" "get (ins k b p) = (get p)(k \<mapsto> b)"
    using ins_law[OF Cons.prems(1)] Cons.prems(3) by auto
  have "\<forall>k' \<in> set ks. get (ins k b p) k' = None" using Cons.prems(2,3) by (auto simp: i(2))
  from Cons.IH[OF i(1) _ this, of bs'] Cons.prems(2,4) bs
  have "inv (fold (\<lambda>(k, b). ins k b) (zip ks bs') (ins k b p))
    \<and> get (fold (\<lambda>(k, b). ins k b) (zip ks bs') (ins k b p)) = (get p)(k \<mapsto> b) ++ map_of (zip ks bs')"
    by (simp add: i(2) fun_upd_def)
  moreover have "(get p)(k \<mapsto> b) ++ map_of (zip ks bs') = get p ++ map_of (zip (k # ks) bs)"
  proof
    fix x
    have "map_of (zip ks bs') k = None" using Cons.prems(2) by (auto simp: map_of_eq_None_iff dest: set_zip_leftD)
    then show "((get p)(k \<mapsto> b) ++ map_of (zip ks bs')) x = (get p ++ map_of (zip (k # ks) bs)) x"
      by (auto simp: map_add_def bs split: option.splits)
  qed
  ultimately show ?case unfolding bs by (metis (no_types, lifting) case_prod_conv fold_simps(2) zip_Cons_Cons)
qed

text \<open>Writing the statuses of several resident keys.\<close>

lemma write_all:
  assumes "inv p" and "distinct ks" and "\<forall>k \<in> set ks. get p k \<noteq> None"
  shows "inv (fold (\<lambda>k p. wr k (f (the (get p k))) p) ks p)
    \<and> get (fold (\<lambda>k p. wr k (f (the (get p k))) p) ks p) =
        (\<lambda>k. if k \<in> set ks then map_option f (get p k) else get p k)"
  using assms
proof (induction ks arbitrary: p)
  case Nil
  then show ?case by simp
next
  case (Cons k ks)
  obtain b where b: "get p k = Some b" using Cons.prems(3) by auto
  have i: "inv (wr k (f b) p)" "get (wr k (f b) p) = (get p)(k \<mapsto> f b)"
    using wr_law[OF Cons.prems(1) b] by auto
  have "\<forall>k' \<in> set ks. get (wr k (f b) p) k' \<noteq> None" using Cons.prems(3) by (auto simp: i(2))
  from Cons.IH[OF i(1) _ this] Cons.prems(2) b show ?case
    by (auto simp: i(2) fun_eq_iff)
qed

end

section \<open>LRU keeps the contract\<close>

definition lru_inv :: "lru_policy \<Rightarrow> bool" where
  "lru_inv p \<longleftrightarrow> wf_dict (lru_blocks p)"

lemma lru_scan_take:
  "length cands < n \<Longrightarrow> lru_scan n prot xs cands = cands @ take (n - length cands) (filter (evictable prot) xs)"
proof (induction xs arbitrary: cands)
  case Nil
  then show ?case by simp
next
  case (Cons x xs)
  show ?case
  proof (cases "evictable prot x")
    case True
    show ?thesis
    proof (cases "Suc (length cands) = n")
      case True
      then have "n - length cands = Suc 0" by simp
      then show ?thesis using True \<open>evictable prot x\<close> by (simp add: Let_def)
    next
      case False
      then have "n - length cands = Suc (n - Suc (length cands))" using Cons.prems by simp
      then show ?thesis using False Cons.IH[of "cands @ [x]"] Cons.prems True by (simp add: Let_def)
    qed
  next
    case False
    then show ?thesis using Cons by simp
  qed
qed

lemma map_of_fold_del:
  "map_of (fold (\<lambda>kb. dict_del (fst kb)) cs d) = map_of d |` (- fst ` set cs)"
  by (induction cs arbitrary: d) (auto simp: restrict_map_def fun_eq_iff)

lemma wf_fold_del: "wf_dict d \<Longrightarrow> wf_dict (fold (\<lambda>kb. dict_del (fst kb)) cs d)"
  by (induction cs arbitrary: d) auto

lemma lru_evict_eq:
  "lru_evict n prot p =
    (let c = filter (evictable prot) (lru_blocks p) in
     if length c < n then None
     else Some (take n c, p\<lparr>lru_blocks := fold (\<lambda>kb. dict_del (fst kb)) (take n c) (lru_blocks p)\<rparr>))"
  using lru_scan_take[of "[]" n prot "lru_blocks p"] by (auto simp: lru_evict_def Let_def)

lemma lru_evict_law:
  assumes "lru_inv p" and "lru_evict n prot p = Some (ev, p')"
  shows "lru_inv p' \<and> length ev = n \<and> distinct (map fst ev)
      \<and> (\<forall>(k, b) \<in> set ev. lru_get p k = Some b \<and> cs_ref_cnt b = 0 \<and> k \<notin> set prot)
      \<and> lru_get p' = lru_get p |` (- fst ` set ev)"
proof -
  let ?c = "filter (evictable prot) (lru_blocks p)"
  have ev: "ev = take n ?c" "n \<le> length ?c"
    and p': "p' = p\<lparr>lru_blocks := fold (\<lambda>kb. dict_del (fst kb)) ev (lru_blocks p)\<rparr>"
    using assms(2) by (auto simp: lru_evict_eq Let_def split: if_splits)
  have wf: "wf_dict (lru_blocks p)" using assms(1) by (simp add: lru_inv_def)
  then have "distinct (map fst ev)" by (simp add: ev(1) take_map[symmetric])
  moreover have "\<forall>(k, b) \<in> set ev. lru_get p k = Some b \<and> cs_ref_cnt b = 0 \<and> k \<notin> set prot"
    using wf by (auto simp: ev(1) lru_get_def evictable_def dest!: in_set_takeD)
  moreover have "lru_get p' = lru_get p |` (- fst ` set ev)"
    by (simp add: p' lru_get_def[abs_def] map_of_fold_del)
  ultimately show ?thesis using wf ev by (simp add: lru_inv_def p' wf_fold_del)
qed

lemma lru_touch_law: "lru_inv p \<Longrightarrow> lru_inv (lru_touch ks p) \<and> lru_get (lru_touch ks p) = lru_get p"
  unfolding lru_touch_def
proof (induction ks arbitrary: p rule: rev_induct)
  case Nil
  then show ?case by simp
next
  case (snoc k ks)
  let ?p = "if has_key (lru_blocks p) k then p\<lparr>lru_blocks := move_to_end k (lru_blocks p)\<rparr> else p"
  have "lru_inv ?p" "lru_get ?p = lru_get p"
    using snoc.prems by (auto simp: lru_inv_def lru_get_def[abs_def])
  then show ?case using snoc.IH[of ?p] by simp
qed

interpretation lru: cache_policy lru_inv lru_get lru_insert lru_remove lru_touch lru_evict lru_clear lru_write
proof
  show "lru_inv p \<Longrightarrow> finite (dom (lru_get p))" for p
    by (simp add: lru_get_def[abs_def] finite_dom_map_of)
  show "lru_inv p \<Longrightarrow> lru_get p k = None \<Longrightarrow>
      lru_inv (lru_insert k b p) \<and> lru_get (lru_insert k b p) = (lru_get p)(k \<mapsto> b)" for p k b
    by (auto simp: lru_inv_def lru_insert_def lru_get_def[abs_def])
  show "lru_inv p \<Longrightarrow> lru_get p k = Some b \<Longrightarrow>
      \<exists>p'. lru_remove k p = Inr p' \<and> lru_inv p' \<and> lru_get p' = (lru_get p)(k := None)" for p k b
    by (auto simp: lru_inv_def lru_remove_def lru_get_def[abs_def] has_key_def)
  show "lru_inv p \<Longrightarrow> lru_inv (lru_touch ks p) \<and> lru_get (lru_touch ks p) = lru_get p" for p ks
    by (rule lru_touch_law)
  show "lru_inv p \<Longrightarrow> lru_get p k = Some b \<Longrightarrow>
      lru_inv (lru_write k b' p) \<and> lru_get (lru_write k b' p) = (lru_get p)(k \<mapsto> b')" for p k b b'
    by (auto simp: lru_inv_def lru_write_def lru_get_def[abs_def])
  show "lru_inv p \<Longrightarrow> lru_inv (lru_clear p) \<and> lru_get (lru_clear p) = Map.empty" for p
    by (simp add: lru_inv_def lru_clear_def lru_get_def[abs_def])
  show "lru_inv p \<Longrightarrow> lru_evict n prot p = Some (ev, p') \<Longrightarrow>
      lru_inv p' \<and> length ev = n \<and> distinct (map fst ev)
      \<and> (\<forall>(k, b) \<in> set ev. lru_get p k = Some b \<and> cs_ref_cnt b = 0 \<and> k \<notin> set prot)
      \<and> lru_get p' = lru_get p |` (- fst ` set ev)" for p n prot ev p'
    by (rule lru_evict_law)
qed

section \<open>ARC keeps the contract\<close>

definition keys_of :: "('k, 'v) dict \<Rightarrow> 'k set" where
  "keys_of d = fst ` set d"

definition arc_core :: "arc_policy \<Rightarrow> bool" where
  "arc_core p \<longleftrightarrow> wf_dict (arc_t1 p) \<and> wf_dict (arc_t2 p) \<and> wf_dict (arc_b1 p) \<and> wf_dict (arc_b2 p)
     \<and> keys_of (arc_t1 p) \<inter> keys_of (arc_t2 p) = {} \<and> keys_of (arc_b1 p) \<inter> keys_of (arc_b2 p) = {}
     \<and> (keys_of (arc_t1 p) \<union> keys_of (arc_t2 p)) \<inter> (keys_of (arc_b1 p) \<union> keys_of (arc_b2 p)) = {}
     \<and> 0 \<le> target_t1_size p \<and> target_t1_size p \<le> real_of_int (cache_capacity p)"

definition arc_inv :: "arc_policy \<Rightarrow> bool" where
  "arc_inv p \<longleftrightarrow> arc_core p \<and> int (length (arc_b1 p)) \<le> cache_capacity p \<and> int (length (arc_b2 p)) \<le> cache_capacity p"

lemma keys_of_dom: "keys_of d = dom (map_of d)"
  by (simp add: keys_of_def dom_map_of_conv_image_fst)

lemma keys_of_simps [simp]:
  "keys_of [] = {}" "keys_of (dict_set k v d) = insert k (keys_of d)" "keys_of (dict_del k d) = keys_of d - {k}"
  "keys_of (move_to_end k d) = keys_of d" "finite (keys_of d)"
  by (auto simp: keys_of_dom finite_dom_map_of split: if_splits)

lemma map_of_None_keys: "map_of d k = None \<longleftrightarrow> k \<notin> keys_of d"
  by (simp add: map_of_eq_None_iff keys_of_def)

lemma has_key_keys: "has_key d k \<longleftrightarrow> k \<in> keys_of d"
  by (simp add: has_key_iff keys_of_def)

lemma map_of_Some_keys: "map_of d k = Some v \<Longrightarrow> k \<in> keys_of d"
  by (metis map_of_None_keys option.distinct(1))

lemma length_del_le: "length (dict_del k d) \<le> length d"
  by (simp add: AList.delete_eq)

lemma arc_get_iff: "arc_get p k = None \<longleftrightarrow> k \<notin> keys_of (arc_t1 p) \<and> k \<notin> keys_of (arc_t2 p)"
  by (auto simp: arc_get_def map_of_None_keys split: option.splits dest: map_of_Some_keys)

lemma arc_get_add: "arc_get p = map_of (arc_t2 p) ++ map_of (arc_t1 p)"
  by (simp add: arc_get_def fun_eq_iff map_add_def)

lemma arc_insert_law:
  assumes "arc_inv p" and "arc_get p k = None"
  shows "arc_inv (arc_insert k b p) \<and> arc_get (arc_insert k b p) = (arc_get p)(k \<mapsto> b)"
proof -
  have "arc_inv (arc_insert k b p)"
    using assms length_del_le[of k "arc_b1 p"] length_del_le[of k "arc_b2 p"]
    by (auto simp: arc_inv_def arc_core_def arc_insert_def arc_get_iff)
  then show ?thesis by (auto simp: arc_insert_def arc_get_def fun_eq_iff split: option.splits)
qed

lemma arc_remove_law:
  assumes "arc_inv p" and "arc_get p k = Some b"
  shows "\<exists>p'. arc_remove k p = Inr p' \<and> arc_inv p' \<and> arc_get p' = (arc_get p)(k := None)"
proof (cases "has_key (arc_t1 p) k")
  case True
  then have "map_of (arc_t2 p) k = None"
    using assms(1) by (auto simp: arc_inv_def arc_core_def map_of_None_keys has_key_keys)
  then show ?thesis using True assms(1)
    by (auto simp: arc_remove_def arc_inv_def arc_core_def arc_get_def fun_eq_iff split: option.splits)
next
  case False
  then show ?thesis using assms(1)
    by (auto simp: arc_remove_def arc_inv_def arc_core_def arc_get_def fun_eq_iff has_key_def split: option.splits)
qed

lemma arc_write_law:
  assumes "arc_inv p" and "arc_get p k = Some b"
  shows "arc_inv (arc_write k b' p) \<and> arc_get (arc_write k b' p) = (arc_get p)(k \<mapsto> b')"
proof (cases "has_key (arc_t1 p) k")
  case True
  then show ?thesis using assms(1)
    by (auto simp: arc_write_def arc_inv_def arc_core_def arc_get_def fun_eq_iff has_key_keys split: option.splits)
next
  case False
  then have "k \<in> keys_of (arc_t2 p)" "map_of (arc_t1 p) k = None"
    using assms(2) by (auto simp: arc_get_def has_key_def map_of_Some_keys split: option.splits)
  then show ?thesis using False assms(1)
    by (auto simp: arc_write_def arc_inv_def arc_core_def arc_get_def fun_eq_iff has_key_keys split: option.splits)
qed

lemma arc_touch_one_law:
  assumes "arc_inv p"
  shows "arc_inv (arc_touch_one k p) \<and> arc_get (arc_touch_one k p) = arc_get p"
proof (cases "map_of (arc_t1 p) k")
  case (Some b)
  then have k: "k \<in> keys_of (arc_t1 p)" by (rule map_of_Some_keys)
  then have t2: "map_of (arc_t2 p) k = None"
    using assms by (auto simp: arc_inv_def arc_core_def map_of_None_keys)
  have "arc_inv (arc_touch_one k p)"
    using assms Some k by (auto simp: arc_touch_one_def arc_inv_def arc_core_def Let_def)
  moreover have "arc_get (arc_touch_one k p) = arc_get p"
    using Some t2 by (auto simp: arc_touch_one_def arc_get_def Let_def fun_eq_iff split: option.splits)
  ultimately show ?thesis ..
next
  case None
  have "arc_inv (arc_touch_one k p)"
    using assms None by (auto simp: arc_touch_one_def arc_inv_def arc_core_def Let_def)
  moreover have "arc_get (arc_touch_one k p) = arc_get p"
    using None by (simp add: arc_touch_one_def arc_get_add Let_def)
  ultimately show ?thesis ..
qed

lemma arc_touch_law: "arc_inv p \<Longrightarrow> arc_inv (arc_touch ks p) \<and> arc_get (arc_touch ks p) = arc_get p"
  unfolding arc_touch_def
  by (induction ks arbitrary: p rule: rev_induct) (simp_all add: arc_touch_one_law)

text \<open>What the selection returns.\<close>

abbreviation cand_keys :: "((offload_key \<times> block_status) \<times> bool) list \<Rightarrow> offload_key list" where
  "cand_keys cs \<equiv> map (fst \<circ> fst) cs"

definition cand_ok :: "offload_key list \<Rightarrow> arc_policy \<Rightarrow> (offload_key \<times> block_status) \<times> bool \<Rightarrow> bool" where
  "cand_ok prot p c \<longleftrightarrow> evictable prot (fst c) \<and> fst c \<in> set (if snd c then arc_t1 p else arc_t2 p)"

lemma arc_candidate_ok:
  assumes "arc_candidate prot p vs sel = Some c"
  shows "cand_ok prot p c \<and> fst (fst c) \<notin> set sel"
  using assms
  by (auto simp: arc_candidate_def Let_def cand_ok_def evictable_def find_Some_iff2 find_Some_iff
      split: option.splits if_splits)

lemma arc_select_ok:
  assumes "arc_select n prot p vs cs = Some cs'" and "distinct (cand_keys cs)" and "\<forall>c \<in> set cs. cand_ok prot p c"
  shows "distinct (cand_keys cs') \<and> (\<forall>c \<in> set cs'. cand_ok prot p c) \<and> length cs' = length cs + n"
  using assms
proof (induction n arbitrary: vs cs)
  case 0
  then show ?case by simp
next
  case (Suc n)
  obtain c where c: "arc_candidate prot p vs (cand_keys cs) = Some c"
    "arc_select n prot p (if snd c then vs - 1 else vs) (cs @ [c]) = Some cs'"
    using Suc.prems(1) by (auto split: option.splits)
  show ?case
    using Suc.IH[OF c(2)] arc_candidate_ok[OF c(1)] Suc.prems(2,3) by auto
qed

lemma arc_get_part:
  assumes "arc_core p" and "map_of (if t then arc_t1 p else arc_t2 p) k = Some b"
  shows "arc_get p k = Some b"
proof (cases t)
  case True
  then show ?thesis using assms(2) by (simp add: arc_get_def)
next
  case False
  then have "k \<in> keys_of (arc_t2 p)" using assms(2) by (simp add: map_of_Some_keys)
  then have "map_of (arc_t1 p) k = None" using assms(1) unfolding arc_core_def map_of_None_keys by blast
  then show ?thesis using False assms(2) by (simp add: arc_get_def)
qed

lemma arc_apply_core:
  assumes core: "arc_core p" and c: "map_of (if t then arc_t1 p else arc_t2 p) k = Some b"
  shows "arc_core (arc_apply ((k, b), t) p) \<and> arc_get (arc_apply ((k, b), t) p) = (arc_get p)(k := None)
    \<and> cache_capacity (arc_apply ((k, b), t) p) = cache_capacity p"
proof (cases t)
  case True
  then have k: "k \<in> keys_of (arc_t1 p)" using c by (auto dest: map_of_Some_keys)
  then have "map_of (arc_t2 p) k = None" using core by (auto simp: arc_core_def map_of_None_keys)
  then have "arc_get (arc_apply ((k, b), t) p) = (arc_get p)(k := None)"
    using True by (auto simp: arc_apply_def arc_get_def fun_eq_iff Let_def split: option.splits)
  moreover have "arc_core (arc_apply ((k, b), t) p)"
    using True core k by (auto simp: arc_apply_def arc_core_def Let_def)
  ultimately show ?thesis using True by (simp add: arc_apply_def Let_def)
next
  case False
  then have k: "k \<in> keys_of (arc_t2 p)" using c by (auto dest: map_of_Some_keys)
  then have "map_of (arc_t1 p) k = None" using core by (auto simp: arc_core_def map_of_None_keys)
  then have "arc_get (arc_apply ((k, b), t) p) = (arc_get p)(k := None)"
    using False by (auto simp: arc_apply_def arc_get_def fun_eq_iff Let_def split: option.splits)
  moreover have "arc_core (arc_apply ((k, b), t) p)"
    using False core k by (auto simp: arc_apply_def arc_core_def Let_def)
  ultimately show ?thesis using False by (simp add: arc_apply_def Let_def)
qed

lemma arc_apply_all:
  assumes "arc_core p" and "distinct (cand_keys cs)"
    and "\<forall>c \<in> set cs. map_of (if snd c then arc_t1 p else arc_t2 p) (fst (fst c)) = Some (snd (fst c))"
  shows "arc_core (fold arc_apply cs p) \<and> arc_get (fold arc_apply cs p) = arc_get p |` (- set (cand_keys cs))
    \<and> cache_capacity (fold arc_apply cs p) = cache_capacity p"
  using assms
proof (induction cs arbitrary: p)
  case Nil
  then show ?case by (simp add: restrict_map_def)
next
  case (Cons c cs)
  obtain k b t where c: "c = ((k, b), t)" by (metis surj_pair)
  have a: "arc_core (arc_apply c p)" "arc_get (arc_apply c p) = (arc_get p)(k := None)"
    "cache_capacity (arc_apply c p) = cache_capacity p"
    using arc_apply_core[OF Cons.prems(1), of t k b] Cons.prems(3) unfolding c by auto
  have "\<forall>c' \<in> set cs. map_of (if snd c' then arc_t1 (arc_apply c p) else arc_t2 (arc_apply c p)) (fst (fst c'))
      = Some (snd (fst c'))"
  proof
    fix c' assume c': "c' \<in> set cs"
    then have "fst (fst c') \<noteq> k" using Cons.prems(2) by (auto simp: c)
    then show "map_of (if snd c' then arc_t1 (arc_apply c p) else arc_t2 (arc_apply c p)) (fst (fst c'))
      = Some (snd (fst c'))"
      using Cons.prems(3) c' by (auto simp: arc_apply_def c Let_def)
  qed
  note IH = Cons.IH[OF a(1) _ this]
  have "arc_get (arc_apply c p) |` (- set (cand_keys cs)) = arc_get p |` (- set (cand_keys (c # cs)))"
    unfolding a(2) by (auto simp: restrict_map_def fun_eq_iff c)
  then show ?case using IH a(3) Cons.prems(2) by simp
qed

lemma arc_trim_keys: "keys_of (arc_trim n d) \<subseteq> keys_of d"
  by (auto simp: keys_of_def arc_trim_def dest: in_set_dropD)

lemma arc_trim_wf: "wf_dict d \<Longrightarrow> wf_dict (arc_trim n d)"
  by (simp add: arc_trim_def drop_map[symmetric])

lemma arc_trim_length: "0 \<le> n \<Longrightarrow> int (length (arc_trim n d)) \<le> n"
  by (simp add: arc_trim_def)

lemma arc_evict_law:
  assumes inv: "arc_inv p" and ev: "arc_evict n prot p = Some (ev, p')"
  shows "arc_inv p' \<and> length ev = n \<and> distinct (map fst ev)
      \<and> (\<forall>(k, b) \<in> set ev. arc_get p k = Some b \<and> cs_ref_cnt b = 0 \<and> k \<notin> set prot)
      \<and> arc_get p' = arc_get p |` (- fst ` set ev)"
proof (cases "n = 0")
  case True
  then show ?thesis using assms by (auto simp: arc_evict_def restrict_map_def)
next
  case False
  have core: "arc_core p" using inv by (simp add: arc_inv_def)
  define q where "q cs = fold arc_apply cs p" for cs
  obtain cs where sel: "arc_select n prot p (int (length (arc_t1 p))) [] = Some cs" and evs: "ev = map fst cs"
    and p': "p' = (q cs)\<lparr>arc_b1 := arc_trim (cache_capacity (q cs)) (arc_b1 (q cs)),
                        arc_b2 := arc_trim (cache_capacity (q cs)) (arc_b2 (q cs))\<rparr>"
    using ev False by (auto simp: arc_evict_def Let_def q_def split: option.splits)
  note ok = arc_select_ok[OF sel, simplified]
  have look: "map_of (if snd c then arc_t1 p else arc_t2 p) (fst (fst c)) = Some (snd (fst c))" if "c \<in> set cs" for c
    using ok that core by (auto simp: cand_ok_def arc_core_def split: if_splits)
  have a: "arc_core (q cs)" "arc_get (q cs) = arc_get p |` (- set (cand_keys cs))" "cache_capacity (q cs) = cache_capacity p"
    using arc_apply_all[OF core, of cs] ok look by (auto simp: q_def)
  have cap: "0 \<le> cache_capacity p" using core by (simp add: arc_core_def)
  have "arc_core p'"
    using a(1) arc_trim_keys[of "cache_capacity (q cs)" "arc_b1 (q cs)"] arc_trim_keys[of "cache_capacity (q cs)" "arc_b2 (q cs)"]
    by (auto simp: p' arc_core_def arc_trim_wf)
  then have "arc_inv p'" using a(3) cap by (simp add: arc_inv_def p' arc_trim_length)
  moreover have "arc_get p' = arc_get p |` (- fst ` set ev)"
    using a(2) by (simp add: p' arc_get_add evs image_comp)
  moreover have "\<forall>(k, b) \<in> set ev. arc_get p k = Some b \<and> cs_ref_cnt b = 0 \<and> k \<notin> set prot"
  proof (clarsimp simp: evs)
    fix k b t assume c: "((k, b), t) \<in> set cs"
    have "evictable prot (k, b)" using ok c by (auto simp: cand_ok_def)
    moreover have "arc_get p k = Some b" using arc_get_part[OF core] look[OF c] by simp
    ultimately show "arc_get p k = Some b \<and> cs_ref_cnt b = 0 \<and> k \<notin> set prot" by (simp add: evictable_def)
  qed
  ultimately show ?thesis using ok by (simp add: evs)
qed

interpretation arc: cache_policy arc_inv arc_get arc_insert arc_remove arc_touch arc_evict arc_clear arc_write
proof
  show "arc_inv p \<Longrightarrow> finite (dom (arc_get p))" for p
  proof -
    have "dom (arc_get p) \<subseteq> keys_of (arc_t1 p) \<union> keys_of (arc_t2 p)" using arc_get_iff[of p] by (auto simp: dom_def)
    then show ?thesis by (rule finite_subset) simp
  qed
  show "arc_inv p \<Longrightarrow> arc_inv (arc_clear p) \<and> arc_get (arc_clear p) = Map.empty" for p
    by (auto simp: arc_inv_def arc_core_def arc_clear_def arc_get_def)
qed (rule arc_insert_law arc_remove_law arc_touch_law arc_write_law arc_evict_law; assumption)+

section \<open>The dispatched policy\<close>

fun pol_inv :: "policy \<Rightarrow> bool" where
  "pol_inv (Lru p) = lru_inv p" | "pol_inv (Arc p) = arc_inv p"

lemma pol_get_funs [simp]: "pol_get (Lru p) = lru_get p" "pol_get (Arc q) = arc_get q"
  by (simp_all add: fun_eq_iff)

lemma pol_remove_law:
  assumes "pol_inv p" and "pol_get p k = Some b"
  shows "\<exists>p'. pol_remove k p = Inr p' \<and> pol_inv p' \<and> pol_get p' = (pol_get p)(k := None)"
proof (cases p)
  case (Lru l)
  then obtain l' where "lru_remove k l = Inr l'" "lru_inv l'" "lru_get l' = (lru_get l)(k := None)"
    using lru.rem_law[of l k b] assms by auto
  then show ?thesis using Lru by (intro exI[of _ "Lru l'"]) simp
next
  case (Arc a)
  then obtain a' where "arc_remove k a = Inr a'" "arc_inv a'" "arc_get a' = (arc_get a)(k := None)"
    using arc.rem_law[of a k b] assms by auto
  then show ?thesis using Arc by (intro exI[of _ "Arc a'"]) simp
qed

interpretation pol: cache_policy pol_inv pol_get pol_insert pol_remove pol_touch pol_evict pol_clear pol_write
proof
  show "pol_inv p \<Longrightarrow> finite (dom (pol_get p))" for p
    by (cases p) (auto intro: lru.finite_dom arc.finite_dom)
  show "pol_inv p \<Longrightarrow> pol_get p k = None \<Longrightarrow>
      pol_inv (pol_insert k b p) \<and> pol_get (pol_insert k b p) = (pol_get p)(k \<mapsto> b)" for p k b
    by (cases p) (simp_all add: lru.ins_law arc.ins_law)
  show "pol_inv p \<Longrightarrow> pol_get p k = Some b \<Longrightarrow>
      \<exists>p'. pol_remove k p = Inr p' \<and> pol_inv p' \<and> pol_get p' = (pol_get p)(k := None)" for p k b
    by (rule pol_remove_law)
  show "pol_inv p \<Longrightarrow> pol_inv (pol_touch ks p) \<and> pol_get (pol_touch ks p) = pol_get p" for p ks
    by (cases p) (simp_all add: lru.tch_law arc.tch_law)
  show "pol_inv p \<Longrightarrow> pol_get p k = Some b \<Longrightarrow>
      pol_inv (pol_write k b' p) \<and> pol_get (pol_write k b' p) = (pol_get p)(k \<mapsto> b')" for p k b b'
    by (cases p) (simp_all add: lru.wr_law arc.wr_law)
  show "pol_inv p \<Longrightarrow> pol_inv (pol_clear p) \<and> pol_get (pol_clear p) = Map.empty" for p
    by (cases p) (simp_all add: lru.clr_law arc.clr_law)
  show "pol_inv p \<Longrightarrow> pol_evict n prot p = Some (ev, p') \<Longrightarrow>
      pol_inv p' \<and> length ev = n \<and> distinct (map fst ev)
      \<and> (\<forall>(k, b) \<in> set ev. pol_get p k = Some b \<and> cs_ref_cnt b = 0 \<and> k \<notin> set prot)
      \<and> pol_get p' = pol_get p |` (- fst ` set ev)" for p n prot ev p'
    by (cases p) (auto dest: lru.evt_law arc.evt_law)
qed

section \<open>Recency\<close>

lemma move_to_end_split:
  assumes "wf_dict d" and "has_key d k"
  shows "\<exists>b. map_of d k = Some b \<and> move_to_end k d = filter (\<lambda>kb. fst kb \<noteq> k) d @ [(k, b)]"
  using assms by (auto simp: move_to_end_def has_key_def AList.delete_eq case_prod_beta' eq_commute[of k] split: option.splits)

text \<open>After a touch, the blocks that were not touched come first, in their old order.\<close>

lemma lru_touch_blocks:
  assumes "lru_inv p"
  shows "\<exists>t. lru_blocks (lru_touch ks p) = filter (\<lambda>kb. fst kb \<notin> set ks) (lru_blocks p) @ t \<and> fst ` set t \<subseteq> set ks"
  using assms unfolding lru_touch_def
proof (induction ks)
  case Nil
  then show ?case by simp
next
  case (Cons k ks)
  let ?q = "fold (\<lambda>key p. if has_key (lru_blocks p) key then p\<lparr>lru_blocks := move_to_end key (lru_blocks p)\<rparr> else p) (rev ks) p"
  have q: "lru_inv ?q" using lru_touch_law[OF Cons.prems, of ks] by (simp add: lru_touch_def)
  obtain t where t: "lru_blocks ?q = filter (\<lambda>kb. fst kb \<notin> set ks) (lru_blocks p) @ t" "fst ` set t \<subseteq> set ks"
    using Cons by blast
  show ?case
  proof (cases "has_key (lru_blocks ?q) k")
    case True
    then obtain b where "move_to_end k (lru_blocks ?q) = filter (\<lambda>kb. fst kb \<noteq> k) (lru_blocks ?q) @ [(k, b)]"
      using move_to_end_split q by (force simp: lru_inv_def)
    then have "move_to_end k (lru_blocks ?q) = filter (\<lambda>kb. fst kb \<notin> set (k # ks)) (lru_blocks p)
        @ filter (\<lambda>kb. fst kb \<noteq> k) t @ [(k, b)]"
      by (simp add: t(1) conj_commute)
    then show ?thesis using True t(2) by (intro exI[of _ "filter (\<lambda>kb. fst kb \<noteq> k) t @ [(k, b)]"]) auto
  next
    case False
    then have "filter (\<lambda>kb. fst kb \<notin> set (k # ks)) (lru_blocks p) = filter (\<lambda>kb. fst kb \<notin> set ks) (lru_blocks p)"
      using t(1) by (intro filter_cong) (auto simp: has_key_iff image_iff)
    then show ?thesis using False t by auto
  qed
qed

text \<open>
  \<^bold>\<open>C29\<close> The LRU policy refuses an eviction exactly when fewer than \<^verbatim>\<open>n\<close> blocks are unreferenced and
  unprotected, and a block that was just touched is only evicted when every evictable block
  that was not touched is evicted as well.
\<close>

theorem lru_evict_recency:
  assumes "lru_inv p"
  shows "(lru_evict n prot (lru_touch ks p) = None \<longleftrightarrow> length (filter (evictable prot) (lru_blocks p)) < n) \<and>
    (\<forall>ev p'. lru_evict n prot (lru_touch ks p) = Some (ev, p') \<and> (\<exists>kb \<in> set ev. fst kb \<in> set ks) \<longrightarrow>
       (\<forall>kb \<in> set (lru_blocks p). evictable prot kb \<and> fst kb \<notin> set ks \<longrightarrow> kb \<in> set ev))"
proof -
  let ?q = "lru_touch ks p" and ?f = "\<lambda>kb. fst kb \<notin> set ks" and ?e = "evictable prot"
  obtain t where t: "lru_blocks ?q = filter ?f (lru_blocks p) @ t" "fst ` set t \<subseteq> set ks"
    using lru_touch_blocks[OF assms] by blast
  have wf: "wf_dict (lru_blocks ?q)" "wf_dict (lru_blocks p)" and mp: "map_of (lru_blocks ?q) = map_of (lru_blocks p)"
    using lru_touch_law[OF assms, of ks] assms by (auto simp: lru_inv_def lru_get_def[abs_def])
  have "set (lru_blocks ?q) = set (lru_blocks p)" using mp wf by (metis map_of_inject_set)
  then have "set (filter ?e (lru_blocks ?q)) = set (filter ?e (lru_blocks p))" by simp
  moreover have "distinct (filter ?e (lru_blocks ?q))" "distinct (filter ?e (lru_blocks p))"
    using wf by (simp_all add: distinct_map)
  ultimately have len: "length (filter ?e (lru_blocks ?q)) = length (filter ?e (lru_blocks p))"
    by (metis distinct_card)
  have c: "filter ?e (lru_blocks ?q) = filter ?e (filter ?f (lru_blocks p)) @ filter ?e t" by (simp add: t(1))
  have "kb \<in> set (take n (filter ?e (lru_blocks ?q)))"
    if h: "kb' \<in> set (take n (filter ?e (lru_blocks ?q)))" "fst kb' \<in> set ks"
      and kb: "kb \<in> set (lru_blocks p)" "?e kb" "?f kb" for kb kb'
  proof -
    let ?A = "filter ?e (filter ?f (lru_blocks p))"
    have "\<not> n \<le> length ?A"
    proof
      assume "n \<le> length ?A"
      then have "take n (filter ?e (lru_blocks ?q)) = take n ?A" unfolding c by simp
      then have "kb' \<in> set ?A" using h(1) by (metis in_set_takeD)
      then show False using h(2) by simp
    qed
    then show ?thesis unfolding c using kb by simp
  qed
  then show ?thesis unfolding lru_evict_eq Let_def len by (simp split: if_splits) blast
qed

theorem lru_evict_recency_witness:
  "lru_evict 2 [] (lru_touch [[1]] \<lparr>lru_blocks = [([1], \<lparr>cs_ref_cnt = 0, cs_block_id = 0\<rparr>),
       ([2], \<lparr>cs_ref_cnt = 1, cs_block_id = 1\<rparr>)]\<rparr>) = None"
proof -
  let ?p = "\<lparr>lru_blocks = [([1], \<lparr>cs_ref_cnt = 0, cs_block_id = 0\<rparr>), ([2], \<lparr>cs_ref_cnt = 1, cs_block_id = 1\<rparr>)]\<rparr>"
  have "lru_inv ?p" by (simp add: lru_inv_def)
  then show ?thesis using lru_evict_recency[of ?p 2 "[]" "[[1]]"] by (simp add: evictable_def)
qed

end
