(* ===== verification/Cpu_Manager.thy ===== *)
theory Cpu_Manager
  imports Cpu_Policy
begin

text \<open>
  The manager of the CPU tier (\<^verbatim>\<open>vllm/v1/kv_offload/cpu/manager.py\<close>): which keys are offloaded, the
  buffer slot of each, the reference counts that keep blocks from being evicted (loads in flight and
  the keys that a suspended request retains), and the events. The invariant \<open>mgr_inv\<close> says that the
  slots of the resident blocks and the free list partition the slots handed out so far.
\<close>

named_theorems mgr_simps \<open>fields of a manager after an update\<close>

section \<open>Definitions\<close>

record offloading_event =
  oe_keys :: "offload_key list"
  oe_medium :: string
  oe_removed :: bool

record prepare_store_output =
  keys_to_store :: "offload_key list"
  store_spec :: "int list"
  evicted_keys :: "offload_key list"

record cpu_manager =
  m_num_blocks :: int
  m_num_allocated :: int
  m_free_list :: "int list"
  m_events :: "offloading_event list option"
  m_policy :: policy
  m_store_threshold :: int
  m_max_tracker_size :: int
  m_counts :: "(offload_key, int) dict option"

definition CPUOffloadingManager :: "int \<Rightarrow> string \<Rightarrow> bool \<Rightarrow> int \<Rightarrow> int \<Rightarrow> cpu_manager res" where
  "CPUOffloadingManager num_blocks policy_name enable_events threshold max_tracker =
     rbind (make_policy policy_name num_blocks) (\<lambda>p. Inr
       \<lparr>m_num_blocks = num_blocks, m_num_allocated = 0, m_free_list = [],
        m_events = (if enable_events then Some [] else None), m_policy = p,
        m_store_threshold = threshold, m_max_tracker_size = max_tracker,
        m_counts = (if threshold \<ge> 2 then Some [] else None)\<rparr>)"

definition cpu_num_free_blocks :: "cpu_manager \<Rightarrow> int" where
  "cpu_num_free_blocks m = int (length (m_free_list m)) + m_num_blocks m - m_num_allocated m"

fun alloc_fresh :: "nat \<Rightarrow> cpu_manager \<Rightarrow> block_status list \<Rightarrow> block_status list \<times> cpu_manager" where
  "alloc_fresh 0 m blocks = (blocks, m)"
| "alloc_fresh (Suc n) m blocks =
     alloc_fresh n (m\<lparr>m_num_allocated := m_num_allocated m + 1\<rparr>) (blocks @ [BlockStatus (m_num_allocated m)])"

text \<open>\<^verbatim>\<open>list.pop()\<close> takes the last element and raises on an empty list.\<close>

fun alloc_reused :: "nat \<Rightarrow> cpu_manager \<Rightarrow> block_status list \<Rightarrow> (block_status list \<times> cpu_manager) res" where
  "alloc_reused 0 m blocks = Inr (blocks, m)"
| "alloc_reused (Suc n) m blocks =
     (if m_free_list m = [] then Inl IndexError
      else alloc_reused n (m\<lparr>m_free_list := butlast (m_free_list m)\<rparr>) (blocks @ [BlockStatus (last (m_free_list m))]))"

definition allocate_blocks :: "offload_key list \<Rightarrow> cpu_manager \<Rightarrow> (block_status list \<times> cpu_manager) res" where
  "allocate_blocks keys m =
     (let num_fresh = min (int (length keys)) (m_num_blocks m - m_num_allocated m);
          num_reused = int (length keys) - num_fresh
      in rbind (py_assert (int (length (m_free_list m)) \<ge> num_reused)) (\<lambda>_.
           let (blocks, m) = alloc_fresh (nat num_fresh) m []
           in alloc_reused (nat num_reused) m blocks))"

definition free_block :: "block_status \<Rightarrow> cpu_manager \<Rightarrow> cpu_manager" where
  "free_block b m = m\<lparr>m_free_list := m_free_list m @ [cs_block_id b]\<rparr>"

definition get_load_store_spec :: "block_status list \<Rightarrow> int list" where
  "get_load_store_spec blocks = map cs_block_id blocks"

definition count_lookup :: "offload_key \<Rightarrow> cpu_manager \<Rightarrow> cpu_manager res" where
  "count_lookup key m =
     (case m_counts m of
        None \<Rightarrow> Inr m
      | Some counts \<Rightarrow>
          (case map_of counts key of
             Some c \<Rightarrow> Inr (m\<lparr>m_counts := Some (dict_set key (c + 1) (move_to_end key counts))\<rparr>)
           | None \<Rightarrow>
               rbind (if int (length counts) \<ge> m_max_tracker_size m
                      then case counts of [] \<Rightarrow> Inl KeyError | _ # rest \<Rightarrow> Inr rest
                      else Inr counts)
                 (\<lambda>counts. Inr (m\<lparr>m_counts := Some (dict_set key 1 counts)\<rparr>))))"

text \<open>\<^verbatim>\<open>None\<close> asks the caller to try again, since the block is still being written.\<close>

definition cpu_lookup :: "offload_key \<Rightarrow> cpu_manager \<Rightarrow> (bool option \<times> cpu_manager) res" where
  "cpu_lookup key m =
     rbind (count_lookup key m) (\<lambda>m.
       case pol_get (m_policy m) key of
         None \<Rightarrow> Inr (Some False, m)
       | Some b \<Rightarrow> Inr (if is_ready b then Some True else None, m))"

definition upd_status :: "offload_key \<Rightarrow> block_status \<Rightarrow> cpu_manager \<Rightarrow> cpu_manager" where
  "upd_status key b m = m\<lparr>m_policy := pol_write key b (m_policy m)\<rparr>"

fun load_loop :: "offload_key list \<Rightarrow> cpu_manager \<Rightarrow> block_status list \<Rightarrow> (block_status list \<times> cpu_manager) res" where
  "load_loop [] m blocks = Inr (blocks, m)"
| "load_loop (key # keys) m blocks =
     (case pol_get (m_policy m) key of
        None \<Rightarrow> Inl AssertionError
      | Some b \<Rightarrow>
          if \<not> is_ready b then Inl AssertionError
          else let b = set_ref_cnt (cs_ref_cnt b + 1) b
               in load_loop keys (upd_status key b m) (blocks @ [b]))"

definition prepare_load :: "offload_key list \<Rightarrow> cpu_manager \<Rightarrow> (int list \<times> cpu_manager) res" where
  "prepare_load keys m =
     rbind (load_loop keys m []) (\<lambda>(blocks, m). Inr (get_load_store_spec blocks, m))"

definition cpu_touch :: "offload_key list \<Rightarrow> cpu_manager \<Rightarrow> cpu_manager" where
  "cpu_touch keys m = m\<lparr>m_policy := pol_touch keys (m_policy m)\<rparr>"

fun retain_loop :: "offload_key list \<Rightarrow> cpu_manager \<Rightarrow> offload_key list \<Rightarrow> offload_key list \<times> cpu_manager" where
  "retain_loop [] m retained = (retained, m)"
| "retain_loop (key # keys) m retained =
     (case pol_get (m_policy m) key of
        None \<Rightarrow> retain_loop keys m retained
      | Some b \<Rightarrow>
          if is_ready b
          then retain_loop keys (upd_status key (set_ref_cnt (cs_ref_cnt b + 1) b) m) (retained @ [key])
          else retain_loop keys m retained)"

text \<open>\<^verbatim>\<open>set(keys)\<close> is iterated in an unspecified order; the result does not depend on it.\<close>

definition retain :: "offload_key list \<Rightarrow> cpu_manager \<Rightarrow> offload_key list \<times> cpu_manager" where
  "retain keys m = retain_loop (remdups keys) m []"

definition decr_status :: "offload_key \<Rightarrow> cpu_manager \<Rightarrow> cpu_manager" where
  "decr_status key m = (case pol_get (m_policy m) key of
     None \<Rightarrow> m | Some b \<Rightarrow> upd_status key (set_ref_cnt (cs_ref_cnt b - 1) b) m)"

definition release :: "offload_key list \<Rightarrow> cpu_manager \<Rightarrow> cpu_manager res" where
  "release keys m =
     rbind (py_assert (list_all (\<lambda>key. case pol_get (m_policy m) key of
                         None \<Rightarrow> False | Some b \<Rightarrow> cs_ref_cnt b > 0) (remdups keys)))
       (\<lambda>_. Inr (fold decr_status (remdups keys) m))"

definition complete_load_one :: "offload_key \<Rightarrow> cpu_manager \<Rightarrow> cpu_manager res" where
  "complete_load_one key m =
     (case pol_get (m_policy m) key of
        None \<Rightarrow> Inl AssertionError
      | Some b \<Rightarrow> if cs_ref_cnt b > 0 then Inr (decr_status key m) else Inl AssertionError)"

definition complete_load :: "offload_key list \<Rightarrow> cpu_manager \<Rightarrow> cpu_manager res" where
  "complete_load keys m = rfold complete_load_one keys m"

definition emit :: "offload_key list \<Rightarrow> bool \<Rightarrow> cpu_manager \<Rightarrow> cpu_manager" where
  "emit keys removed m = (case m_events m of
     None \<Rightarrow> m
   | Some es \<Rightarrow> if keys = [] then m
       else m\<lparr>m_events := Some (es @ [\<lparr>oe_keys = keys, oe_medium = ''CPU'', oe_removed = removed\<rparr>])\<rparr>)"

text \<open>
  The second half of \<^verbatim>\<open>prepare_store\<close>: the evicted blocks are freed, the event is emitted, and slots
  are allocated and inserted for the keys to store.
\<close>

definition store_blocks ::
  "offload_key list \<Rightarrow> status_dict \<Rightarrow> cpu_manager \<Rightarrow> (prepare_store_output option \<times> cpu_manager) res" where
  "store_blocks to_store evicted m =
     (let m = fold (\<lambda>kb. free_block (snd kb)) evicted m;
          to_evict = map fst evicted;
          m = emit to_evict True m
      in rbind (allocate_blocks to_store m) (\<lambda>(blocks, m).
         rbind (py_assert (length blocks = length to_store)) (\<lambda>_.
           Inr (Some \<lparr>keys_to_store = to_store, store_spec = get_load_store_spec blocks, evicted_keys = to_evict\<rparr>,
                m\<lparr>m_policy := fold (\<lambda>(k, b). pol_insert k b) (zip to_store blocks) (m_policy m)\<rparr>))))"

definition prepare_store ::
  "offload_key list \<Rightarrow> cpu_manager \<Rightarrow> (prepare_store_output option \<times> cpu_manager) res" where
  "prepare_store keys m =
     (let keys = (case m_counts m of None \<Rightarrow> keys
                  | Some counts \<Rightarrow> filter (\<lambda>k. dict_get counts k 0 \<ge> m_store_threshold m) keys);
          to_store = filter (\<lambda>k. pol_get (m_policy m) k = None) keys
      in if to_store = []
         then Inr (Some \<lparr>keys_to_store = [], store_spec = [], evicted_keys = []\<rparr>, m)
         else let num_evict = int (length to_store) - cpu_num_free_blocks m
              in if num_evict > 0
                 then case pol_evict (nat num_evict) keys (m_policy m) of
                        None \<Rightarrow> Inr (None, m)
                      | Some (evicted, p) \<Rightarrow> store_blocks to_store evicted (m\<lparr>m_policy := p\<rparr>)
                 else store_blocks to_store [] m)"

fun store_ok_loop :: "offload_key list \<Rightarrow> cpu_manager \<Rightarrow> offload_key list \<Rightarrow> offload_key list \<times> cpu_manager" where
  "store_ok_loop [] m stored = (stored, m)"
| "store_ok_loop (key # keys) m stored =
     (case pol_get (m_policy m) key of
        Some b \<Rightarrow> if \<not> is_ready b then store_ok_loop keys (upd_status key (set_ref_cnt 0 b) m) (stored @ [key])
                  else store_ok_loop keys m stored
      | None \<Rightarrow> store_ok_loop keys m stored)"

definition store_fail_one :: "offload_key \<Rightarrow> cpu_manager \<Rightarrow> cpu_manager res" where
  "store_fail_one key m =
     (case pol_get (m_policy m) key of
        Some b \<Rightarrow> if \<not> is_ready b
                  then rbind (pol_remove key (m_policy m)) (\<lambda>p. Inr (free_block b (m\<lparr>m_policy := p\<rparr>)))
                  else Inr m
      | None \<Rightarrow> Inr m)"

definition complete_store :: "offload_key list \<Rightarrow> bool \<Rightarrow> cpu_manager \<Rightarrow> cpu_manager res" where
  "complete_store keys success m =
     (if success then let (stored, m) = store_ok_loop keys m [] in Inr (emit stored False m)
      else rfold store_fail_one keys m)"

definition reset_cache :: "cpu_manager \<Rightarrow> cpu_manager" where
  "reset_cache m = m\<lparr>m_policy := pol_clear (m_policy m), m_free_list := [], m_num_allocated := 0\<rparr>"

definition cpu_take_events :: "cpu_manager \<Rightarrow> offloading_event list \<times> cpu_manager" where
  "cpu_take_events m = (case m_events m of
     None \<Rightarrow> ([], m) | Some es \<Rightarrow> (es, m\<lparr>m_events := Some []\<rparr>))"

section \<open>Slots\<close>

definition ids_of :: "(offload_key \<Rightarrow> block_status option) \<Rightarrow> int set" where
  "ids_of g = {cs_block_id b | k b. g k = Some b}"

definition slot_inj :: "(offload_key \<Rightarrow> block_status option) \<Rightarrow> bool" where
  "slot_inj g \<longleftrightarrow> (\<forall>k b k' b'. g k = Some b \<longrightarrow> g k' = Some b' \<longrightarrow> cs_block_id b = cs_block_id b' \<longrightarrow> k = k')"

text \<open>The slots of the resident blocks and the free slots are all slots below \<open>a\<close>, each once.\<close>

definition slots_ok :: "(offload_key \<Rightarrow> block_status option) \<Rightarrow> int list \<Rightarrow> int \<Rightarrow> bool" where
  "slots_ok g free a \<longleftrightarrow> distinct free \<and> slot_inj g \<and> set free \<inter> ids_of g = {} \<and> set free \<union> ids_of g = {0..<a}"

lemma slots_ok_perm: "distinct free' \<Longrightarrow> set free' = set free \<Longrightarrow> slots_ok g free a \<Longrightarrow> slots_ok g free' a"
  by (simp add: slots_ok_def)

lemma ids_of_insert: "g k = None \<Longrightarrow> ids_of (g(k \<mapsto> b)) = insert (cs_block_id b) (ids_of g)"
  unfolding ids_of_def by (auto split: if_splits) (metis option.distinct(1))

lemma slots_ok_insert:
  assumes "slots_ok g (free @ [i]) a" and "g k = None" and "cs_block_id b = i"
  shows "slots_ok (g(k \<mapsto> b)) free a"
proof -
  have "i \<notin> ids_of g" using assms(1) by (auto simp: slots_ok_def)
  then have "slot_inj (g(k \<mapsto> b))"
    using assms unfolding slots_ok_def slot_inj_def ids_of_def by (auto split: if_splits)
  then show ?thesis using assms by (auto simp: slots_ok_def ids_of_insert)
qed

lemma slots_ok_remove:
  assumes "slots_ok g free a" and "g k = Some b"
  shows "slots_ok (g(k := None)) (free @ [cs_block_id b]) a"
proof -
  have "(g(k := None))(k \<mapsto> b) = g" using assms(2) by (simp add: fun_eq_iff)
  then have ids: "ids_of g = insert (cs_block_id b) (ids_of (g(k := None)))"
    using ids_of_insert[of "g(k := None)" k b] by simp
  have inj: "slot_inj g" using assms(1) by (simp add: slots_ok_def)
  then have "cs_block_id b \<notin> ids_of (g(k := None))"
    using assms(2) unfolding slot_inj_def ids_of_def by (auto split: if_splits)
  moreover have "slot_inj (g(k := None))" using inj unfolding slot_inj_def by (auto split: if_splits)
  ultimately show ?thesis using assms(1) ids by (auto simp: slots_ok_def)
qed

lemma slots_ok_write:
  assumes "slots_ok g free a" and "g k = Some b" and "cs_block_id b' = cs_block_id b"
  shows "slots_ok (g(k \<mapsto> b')) free a"
proof -
  have "slots_ok ((g(k := None))(k \<mapsto> b')) free a"
    by (rule slots_ok_insert[OF slots_ok_remove[OF assms(1,2)]]) (simp_all add: assms(3))
  then show ?thesis by simp
qed

lemma slots_ok_evict:
  assumes "slots_ok g free a" and "distinct (map fst ev)" and "\<forall>(k, b) \<in> set ev. g k = Some b"
  shows "slots_ok (g |` (- fst ` set ev)) (free @ map (cs_block_id \<circ> snd) ev) a"
  using assms
proof (induction ev arbitrary: g free)
  case Nil
  then show ?case by (simp add: restrict_map_def)
next
  case (Cons kb ev)
  obtain k b where kb: "kb = (k, b)" by fastforce
  have ok: "slots_ok (g(k := None)) (free @ [cs_block_id b]) a"
    by (rule slots_ok_remove[OF Cons.prems(1)]) (use Cons.prems(3) kb in auto)
  have "\<forall>(k', b') \<in> set ev. (g(k := None)) k' = Some b'"
  proof clarify
    fix k' b' assume kb': "(k', b') \<in> set ev"
    then have "k' \<noteq> k" using Cons.prems(2) kb by force
    then show "(g(k := None)) k' = Some b'" using Cons.prems(3) kb' by auto
  qed
  from Cons.IH[OF ok _ this] Cons.prems(2)
  have "slots_ok ((g(k := None)) |` (- fst ` set ev)) ((free @ [cs_block_id b]) @ map (cs_block_id \<circ> snd) ev) a"
    by fastforce
  moreover have "(g(k := None)) |` (- fst ` set ev) = g |` (- fst ` set (kb # ev))"
    by (auto simp: kb restrict_map_def fun_eq_iff)
  ultimately show ?case using kb by (simp add: comp_def)
qed

lemma slots_ok_insert_all:
  assumes "slots_ok g (free @ map cs_block_id bs) a" and "distinct ks" and "\<forall>k \<in> set ks. g k = None"
    and "length bs = length ks"
  shows "slots_ok (g ++ map_of (zip ks bs)) free a"
  using assms
proof (induction ks arbitrary: g bs)
  case Nil
  then show ?case by simp
next
  case (Cons k ks)
  obtain b bs' where bs: "bs = b # bs'" using Cons.prems(4) by (cases bs) auto
  have "slots_ok g ((free @ map cs_block_id bs') @ [cs_block_id b]) a"
    by (rule slots_ok_perm[OF _ _ Cons.prems(1)]) (use Cons.prems(1) in \<open>auto simp: bs slots_ok_def\<close>)
  then have ok: "slots_ok (g(k \<mapsto> b)) (free @ map cs_block_id bs') a"
    by (rule slots_ok_insert) (use Cons.prems(3) in simp_all)
  have "slots_ok (g(k \<mapsto> b) ++ map_of (zip ks bs')) free a"
    by (rule Cons.IH[OF ok]) (use Cons.prems(2-4) bs in auto)
  moreover have "map_of (zip ks bs') k = None"
    using Cons.prems(2) by (auto simp: map_of_eq_None_iff dest: set_zip_leftD)
  then have "g(k \<mapsto> b) ++ map_of (zip ks bs') = g ++ map_of (zip (k # ks) bs)"
    by (auto simp: bs map_add_def fun_eq_iff split: option.splits)
  ultimately show ?case by simp
qed

lemma slots_ok_card:
  assumes "slots_ok g free a" and "finite (dom g)"
  shows "int (card (dom g)) + int (length free) = max 0 a"
proof -
  have ids: "ids_of g = (\<lambda>k. cs_block_id (the (g k))) ` dom g" by (force simp: ids_of_def dom_def)
  moreover have "inj_on (\<lambda>k. cs_block_id (the (g k))) (dom g)"
    using assms(1) by (auto simp: slots_ok_def slot_inj_def inj_on_def)
  ultimately have "card (ids_of g) = card (dom g)" by (simp add: card_image)
  moreover have "card (set free \<union> ids_of g) = card (set free) + card (ids_of g)"
    using assms by (intro card_Un_disjoint) (auto simp: slots_ok_def ids)
  moreover have "card (set free) = length free" using assms(1) by (simp add: slots_ok_def distinct_card)
  moreover have "card (set free \<union> ids_of g) = nat a" using assms(1) by (simp add: slots_ok_def)
  ultimately show ?thesis by linarith
qed

section \<open>Invariant\<close>

fun counts_bounded :: "int \<Rightarrow> (offload_key, int) dict option \<Rightarrow> bool" where
  "counts_bounded n None = True"
| "counts_bounded n (Some c) = (wf_dict c \<and> (1 \<le> n \<longrightarrow> int (length c) \<le> n))"

definition mgr_inv :: "cpu_manager \<Rightarrow> bool" where
  "mgr_inv m \<longleftrightarrow> pol_inv (m_policy m) \<and> 0 \<le> m_num_allocated m \<and> m_num_allocated m \<le> m_num_blocks m
     \<and> m_num_blocks m \<le> 2 ^ 63 \<and> slots_ok (pol_get (m_policy m)) (m_free_list m) (m_num_allocated m)
     \<and> counts_bounded (m_max_tracker_size m) (m_counts m)"

abbreviation status_of :: "cpu_manager \<Rightarrow> offload_key \<Rightarrow> block_status option" where
  "status_of m \<equiv> pol_get (m_policy m)"

lemma mgr_invD:
  assumes "mgr_inv m"
  shows "pol_inv (m_policy m)" "slots_ok (status_of m) (m_free_list m) (m_num_allocated m)"
    "0 \<le> m_num_allocated m" "m_num_allocated m \<le> m_num_blocks m" "m_num_blocks m \<le> 2 ^ 63"
    "counts_bounded (m_max_tracker_size m) (m_counts m)"
  using assms by (simp_all add: mgr_inv_def)

lemma mgr_inv_card:
  assumes "mgr_inv m"
  shows "int (card (dom (status_of m))) + int (length (m_free_list m)) = m_num_allocated m"
  using slots_ok_card[OF mgr_invD(2)[OF assms] pol.finite_dom[OF mgr_invD(1)[OF assms]]] mgr_invD(3)[OF assms] by simp

lemma num_free_card:
  assumes "mgr_inv m"
  shows "cpu_num_free_blocks m = m_num_blocks m - int (card (dom (status_of m)))"
  using mgr_inv_card[OF assms] by (simp add: cpu_num_free_blocks_def)

text \<open>Updating a status keeps the slot.\<close>

definition same_slots :: "cpu_manager \<Rightarrow> cpu_manager \<Rightarrow> bool" where
  "same_slots m m' \<longleftrightarrow> m_num_blocks m' = m_num_blocks m \<and> m_num_allocated m' = m_num_allocated m
     \<and> m_free_list m' = m_free_list m \<and> m_events m' = m_events m \<and> m_counts m' = m_counts m
     \<and> m_max_tracker_size m' = m_max_tracker_size m \<and> m_store_threshold m' = m_store_threshold m"

lemma same_slots_refl [simp, intro]: "same_slots m m"
  by (simp add: same_slots_def)

lemma same_slots_trans [trans]: "same_slots a b \<Longrightarrow> same_slots b c \<Longrightarrow> same_slots a c"
  by (simp add: same_slots_def)

lemma upd_status_inv:
  assumes "mgr_inv m" and "status_of m k = Some b" and "cs_block_id b' = cs_block_id b"
  shows "mgr_inv (upd_status k b' m)" and "status_of (upd_status k b' m) = (status_of m)(k \<mapsto> b')"
    and "same_slots m (upd_status k b' m)"
proof -
  note w = pol.wr_law[OF mgr_invD(1)[OF assms(1)] assms(2), of b']
  show s: "status_of (upd_status k b' m) = (status_of m)(k \<mapsto> b')" using w by (simp add: upd_status_def)
  show "same_slots m (upd_status k b' m)" by (simp add: same_slots_def upd_status_def)
  have "slots_ok ((status_of m)(k \<mapsto> b')) (m_free_list m) (m_num_allocated m)"
    by (rule slots_ok_write[OF mgr_invD(2)[OF assms(1)] assms(2,3)])
  then show "mgr_inv (upd_status k b' m)"
    using w assms(1) by (simp add: mgr_inv_def upd_status_def)
qed

lemma set_ref_cnt_id [simp]: "cs_block_id (set_ref_cnt n b) = cs_block_id b"
  by (simp add: set_ref_cnt_def)

lemma c_int64_id: "0 \<le> x \<Longrightarrow> x < 2 ^ 63 \<Longrightarrow> c_int64 x = x"
  by (simp add: c_int64_def)

lemma BlockStatus_id: "0 \<le> i \<Longrightarrow> i < 2 ^ 63 \<Longrightarrow> cs_block_id (BlockStatus i) = i"
  by (simp add: BlockStatus_def c_int64_id)

lemma BlockStatus_not_ready [simp]: "\<not> is_ready (BlockStatus i)" "cs_ref_cnt (BlockStatus i) = -1"
  by (simp_all add: BlockStatus_def is_ready_def c_int32_def)

section \<open>Operations keep the invariant\<close>

lemma alloc_fresh_spec:
  "alloc_fresh n m bl = (bl @ map (\<lambda>i. BlockStatus (m_num_allocated m + int i)) [0..<n],
     m\<lparr>m_num_allocated := m_num_allocated m + int n\<rparr>)"
proof (induction n arbitrary: m bl)
  case 0
  then show ?case by simp
next
  case (Suc n)
  have "[0..<Suc n] = 0 # map Suc [0..<n]" by (simp add: upt_conv_Cons map_Suc_upt del: upt_Suc)
  then have "map (\<lambda>i. BlockStatus (m_num_allocated m + int i)) [0..<Suc n] =
      BlockStatus (m_num_allocated m) # map (\<lambda>i. BlockStatus (m_num_allocated m + 1 + int i)) [0..<n]"
    by (simp add: comp_def algebra_simps del: upt_Suc)
  then show ?case by (simp add: Suc.IH algebra_simps del: upt_Suc)
qed

lemma alloc_reused_spec:
  "n \<le> length (m_free_list m) \<Longrightarrow> alloc_reused n m bl =
     Inr (bl @ map BlockStatus (rev (drop (length (m_free_list m) - n) (m_free_list m))),
          m\<lparr>m_free_list := take (length (m_free_list m) - n) (m_free_list m)\<rparr>)"
proof (induction n arbitrary: m bl)
  case 0
  then show ?case by simp
next
  case (Suc n)
  obtain fs x where fs: "m_free_list m = fs @ [x]" using Suc.prems by (cases "m_free_list m" rule: rev_cases) auto
  let ?m = "m\<lparr>m_free_list := fs\<rparr>"
  have "alloc_reused n ?m (bl @ [BlockStatus x]) = Inr ((bl @ [BlockStatus x]) @ map BlockStatus (rev (drop (length fs - n) fs)),
      ?m\<lparr>m_free_list := take (length fs - n) fs\<rparr>)"
    using Suc.IH[of ?m "bl @ [BlockStatus x]"] Suc.prems by (simp add: fs)
  then show ?case using Suc.prems by (simp add: fs)
qed

lemma slots_ok_split:
  assumes ok: "slots_ok g F a" and a: "0 \<le> a" and f: "0 \<le> f"
  shows "slots_ok g (take n F @ map (\<lambda>i. a + int i) [0..<nat f] @ rev (drop n F)) (a + f)" (is "slots_ok g ?L _")
proof -
  have "x \<in> (\<lambda>i. a + int i) ` {0..<nat f}" if "x \<in> {a..<a + f}" for x
    using that by (intro image_eqI[of _ _ "nat (x - a)"]) auto
  then have fs: "set (map (\<lambda>i. a + int i) [0..<nat f]) = {a..<a + f}" using f by auto
  have td: "set (take n F) \<inter> set (drop n F) = {}" "set (take n F) \<union> set (drop n F) = set F" "distinct F"
    using ok set_append[of "take n F" "drop n F"]
    by (simp_all add: slots_ok_def set_take_disj_set_drop_if_distinct del: set_append)
  have L: "set ?L = set F \<union> {a..<a + f}" using fs td(2) by auto
  have un: "set F \<union> ids_of g = {0..<a}" "set F \<inter> ids_of g = {}" using ok by (simp_all add: slots_ok_def)
  have "{0..<a} \<union> {a..<a + f} = {0..<a + f}" using a f by auto
  then have "set ?L \<union> ids_of g = {0..<a + f}" using L un(1) by blast
  moreover have "{a..<a + f} \<inter> {0..<a} = {}" by auto
  then have "set ?L \<inter> ids_of g = {}" and dj: "{a..<a + f} \<inter> set F = {}" using L un by blast+
  moreover have "distinct ?L" using td fs dj by (auto simp: distinct_map inj_on_def)
  ultimately show ?thesis using ok by (simp add: slots_ok_def)
qed

text \<open>
  Allocation: the new blocks take free slots, each a different one, and together with the remaining
  free slots and the resident blocks they again account for all slots.
\<close>

lemma allocate_blocks_spec:
  assumes inv: "mgr_inv m" and n: "int (length keys) \<le> cpu_num_free_blocks m"
  shows "\<exists>blocks m'. allocate_blocks keys m = Inr (blocks, m') \<and> length blocks = length keys
    \<and> m_policy m' = m_policy m \<and> m_num_blocks m' = m_num_blocks m \<and> m_events m' = m_events m
    \<and> m_counts m' = m_counts m \<and> m_max_tracker_size m' = m_max_tracker_size m
    \<and> 0 \<le> m_num_allocated m' \<and> m_num_allocated m' \<le> m_num_blocks m'
    \<and> slots_ok (status_of m) (m_free_list m' @ map cs_block_id blocks) (m_num_allocated m')
    \<and> (\<forall>b \<in> set blocks. \<exists>i. b = BlockStatus i)"
proof -
  let ?a = "m_num_allocated m" and ?F = "m_free_list m"
  define f where "f = min (int (length keys)) (m_num_blocks m - ?a)"
  define r where "r = nat (int (length keys) - f)"
  note D = mgr_invD[OF inv]
  have f: "0 \<le> f" "?a + f \<le> m_num_blocks m" using D by (auto simp: f_def)
  have r: "r \<le> length ?F" "int (length keys) - f = int r"
    using n D(4) by (auto simp: f_def r_def cpu_num_free_blocks_def)
  let ?fresh = "map (\<lambda>i. BlockStatus (?a + int i)) [0..<nat f]"
  let ?reused = "map BlockStatus (rev (drop (length ?F - r) ?F))"
  let ?m = "m\<lparr>m_num_allocated := ?a + f, m_free_list := take (length ?F - r) ?F\<rparr>"
  have run: "allocate_blocks keys m = Inr (?fresh @ ?reused, ?m)"
    using r f alloc_reused_spec[of r "m\<lparr>m_num_allocated := ?a + f\<rparr>" ?fresh]
    by (simp add: allocate_blocks_def f_def[symmetric] Let_def alloc_fresh_spec)
  have free: "set ?F \<subseteq> {0..<?a}" "distinct ?F" using D(2) by (auto simp: slots_ok_def)
  have "cs_block_id (BlockStatus (?a + int i)) = ?a + int i" if "i < nat f" for i
    using that f D(3,5) by (intro BlockStatus_id) auto
  then have fid: "map cs_block_id ?fresh = map (\<lambda>i. ?a + int i) [0..<nat f]" by simp
  have "cs_block_id (BlockStatus i) = i" if "i \<in> set ?F" for i
    using that free D(4,5) by (intro BlockStatus_id) auto
  then have rid: "map cs_block_id ?reused = rev (drop (length ?F - r) ?F)"
    by (auto simp: rev_map[symmetric] intro!: map_idI dest: in_set_dropD)
  have "slots_ok (status_of m) (take (length ?F - r) ?F @ map cs_block_id (?fresh @ ?reused)) (?a + f)"
    unfolding map_append fid rid by (rule slots_ok_split[OF D(2,3) f(1)])
  then show ?thesis using run r f D(3) by (intro exI[of _ "?fresh @ ?reused"] exI[of _ ?m]) auto
qed

lemma emit_frame [simp, mgr_simps]:
  "m_policy (emit ks r m) = m_policy m" "m_free_list (emit ks r m) = m_free_list m"
  "m_num_allocated (emit ks r m) = m_num_allocated m" "m_num_blocks (emit ks r m) = m_num_blocks m"
  "m_counts (emit ks r m) = m_counts m" "m_max_tracker_size (emit ks r m) = m_max_tracker_size m"
  "m_store_threshold (emit ks r m) = m_store_threshold m"
  by (simp_all add: emit_def split: option.splits)

lemma mgr_inv_emit [simp, mgr_simps]: "mgr_inv (emit ks r m) = mgr_inv m"
  by (simp add: mgr_inv_def)

lemma fold_free_block:
  "fold (\<lambda>kb. free_block (snd kb)) ev m = m\<lparr>m_free_list := m_free_list m @ map (cs_block_id \<circ> snd) ev\<rparr>"
  by (induction ev arbitrary: m) (auto simp: free_block_def)

text \<open>What a successful \<^verbatim>\<open>prepare_store\<close> did to the resident blocks.\<close>

definition stored_ok :: "offload_key list \<Rightarrow> cpu_manager \<Rightarrow> prepare_store_output \<Rightarrow> cpu_manager \<Rightarrow> bool" where
  "stored_ok keys m out m' \<longleftrightarrow>
     (\<forall>k \<in> set (evicted_keys out). \<exists>b. status_of m k = Some b \<and> cs_ref_cnt b = 0 \<and> k \<notin> set keys \<and> status_of m' k = None)
     \<and> (\<forall>k \<in> set (keys_to_store out). status_of m k = None \<and> (\<exists>i. status_of m' k = Some (BlockStatus i)))
     \<and> (\<forall>k. k \<notin> set (evicted_keys out) \<longrightarrow> k \<notin> set (keys_to_store out) \<longrightarrow> status_of m' k = status_of m k)
     \<and> store_spec out = map (\<lambda>k. cs_block_id (the (status_of m' k))) (keys_to_store out)"

lemma store_blocks_spec:
  assumes inv: "mgr_inv m" and pol: "pol_inv p" "distinct (map fst ev)" "\<forall>(k, b) \<in> set ev. status_of m k = Some b"
      "pol_get p = status_of m |` (- fst ` set ev)"
    and enough: "int (length ks) \<le> cpu_num_free_blocks m + int (length ev)"
    and ks: "distinct ks" "\<forall>k \<in> set ks. status_of m k = None"
  shows "\<exists>out m'. store_blocks ks ev (m\<lparr>m_policy := p\<rparr>) = Inr (Some out, m') \<and> mgr_inv m'
    \<and> keys_to_store out = ks \<and> evicted_keys out = map fst ev
    \<and> store_spec out = map (\<lambda>k. cs_block_id (the (status_of m' k))) ks
    \<and> (\<forall>k \<in> set ks. \<exists>i. status_of m' k = Some (BlockStatus i))
    \<and> (\<forall>k. k \<notin> set ks \<longrightarrow> status_of m' k = pol_get p k)"
proof -
  define m1 where "m1 = emit (map fst ev) True (fold (\<lambda>kb. free_block (snd kb)) ev (m\<lparr>m_policy := p\<rparr>))"
  have f1: "m_policy m1 = p" "m_free_list m1 = m_free_list m @ map (cs_block_id \<circ> snd) ev"
    "m_num_allocated m1 = m_num_allocated m" "m_num_blocks m1 = m_num_blocks m"
    "m_counts m1 = m_counts m" "m_max_tracker_size m1 = m_max_tracker_size m"
    by (simp_all add: m1_def fold_free_block)
  have "slots_ok (pol_get p) (m_free_list m1) (m_num_allocated m)"
    unfolding pol(4) f1(2) by (rule slots_ok_evict[OF mgr_invD(2)[OF inv] pol(2,3)])
  then have i1: "mgr_inv m1" using inv pol(1) by (simp add: mgr_inv_def f1)
  have "int (length ks) \<le> cpu_num_free_blocks m1" using enough by (simp add: cpu_num_free_blocks_def f1)
  from allocate_blocks_spec[OF i1 this] obtain bs m2 where m2: "allocate_blocks ks m1 = Inr (bs, m2)"
    "length bs = length ks" "m_policy m2 = p" "m_num_blocks m2 = m_num_blocks m" "m_counts m2 = m_counts m"
    "m_max_tracker_size m2 = m_max_tracker_size m" "0 \<le> m_num_allocated m2" "m_num_allocated m2 \<le> m_num_blocks m2"
    "slots_ok (pol_get p) (m_free_list m2 @ map cs_block_id bs) (m_num_allocated m2)" "\<forall>b \<in> set bs. \<exists>i. b = BlockStatus i"
    by (auto simp: f1)
  define p' where "p' = fold (\<lambda>(k, b). pol_insert k b) (zip ks bs) p"
  have none: "\<forall>k \<in> set ks. pol_get p k = None" using ks(2) pol(4) by (simp add: restrict_map_def)
  have p': "pol_inv p'" "pol_get p' = pol_get p ++ map_of (zip ks bs)"
    using pol.insert_all[OF pol(1) ks(1) none m2(2)] by (simp_all add: p'_def)
  have "slots_ok (pol_get p') (m_free_list m2) (m_num_allocated m2)"
    unfolding p'(2) by (rule slots_ok_insert_all[OF m2(9) ks(1) none m2(2)])
  then have "mgr_inv (m2\<lparr>m_policy := p'\<rparr>)"
    using p'(1) m2 inv by (simp add: mgr_inv_def)
  moreover have look: "pol_get p' (ks ! i) = Some (bs ! i)" if "i < length ks" for i
    using that ks(1) m2(2) by (simp add: p'(2) map_add_def map_of_zip_nth)
  then have "get_load_store_spec bs = map (\<lambda>k. cs_block_id (the (pol_get p' k))) ks"
    using m2(2) by (auto simp: get_load_store_spec_def intro!: nth_equalityI)
  moreover have "\<forall>k \<in> set ks. \<exists>i. pol_get p' k = Some (BlockStatus i)"
    using look m2(2,10) by (metis in_set_conv_nth nth_mem)
  moreover have "\<forall>k. k \<notin> set ks \<longrightarrow> pol_get p' k = pol_get p k"
    using m2(2) by (auto simp: p'(2) map_add_def split: option.splits dest!: map_of_SomeD set_zip_leftD)
  ultimately show ?thesis
    using m2(1,2,3) by (simp add: store_blocks_def m1_def[symmetric] p'_def Let_def)
qed

definition wanted :: "offload_key list \<Rightarrow> cpu_manager \<Rightarrow> offload_key list" where
  "wanted keys m = (case m_counts m of None \<Rightarrow> keys
     | Some counts \<Rightarrow> filter (\<lambda>k. dict_get counts k 0 \<ge> m_store_threshold m) keys)"

lemma evict_and_store:
  assumes inv: "mgr_inv m" and ev: "pol_evict (nat n) w (m_policy m) = Some (ev, p)"
    and d: "distinct (filter (\<lambda>k. status_of m k = None) w)" (is "distinct ?ks")
    and n: "n > 0" "n = int (length (filter (\<lambda>k. status_of m k = None) w)) - cpu_num_free_blocks m"
  shows "\<exists>out m'. store_blocks ?ks ev (m\<lparr>m_policy := p\<rparr>) = Inr (Some out, m') \<and> mgr_inv m'
    \<and> keys_to_store out = ?ks \<and> stored_ok w m out m'"
proof -
  note l = pol.evt_law[OF mgr_invD(1)[OF inv] ev]
  have lp: "pol_inv p" "distinct (map fst ev)" "pol_get p = status_of m |` (- fst ` set ev)" using l by blast+
  have none: "\<forall>k \<in> set ?ks. status_of m k = None" by simp
  have enough: "int (length ?ks) \<le> cpu_num_free_blocks m + int (length ev)" using l n by simp
  have evs: "\<forall>(k, b) \<in> set ev. status_of m k = Some b" using l by auto
  obtain o' m' where s: "store_blocks ?ks ev (m\<lparr>m_policy := p\<rparr>) = Inr (Some o', m')" "mgr_inv m'"
    "keys_to_store o' = ?ks" "evicted_keys o' = map fst ev"
    "store_spec o' = map (\<lambda>k. cs_block_id (the (status_of m' k))) ?ks"
    "\<forall>k \<in> set ?ks. \<exists>i. status_of m' k = Some (BlockStatus i)"
    "\<forall>k. k \<notin> set ?ks \<longrightarrow> status_of m' k = pol_get p k"
    using store_blocks_spec[OF inv lp(1,2) evs lp(3) enough d none] by blast
  have evk: "\<exists>b. status_of m k = Some b \<and> cs_ref_cnt b = 0 \<and> k \<notin> set w \<and> status_of m' k = None"
    if k: "k \<in> set (map fst ev)" for k
  proof -
    obtain b where b: "(k, b) \<in> set ev" using k by auto
    then have "status_of m k = Some b" "cs_ref_cnt b = 0" "k \<notin> set w" using l by auto
    moreover have "pol_get p k = None" using l k by (simp add: restrict_map_def)
    ultimately show ?thesis using s(7) by auto
  qed
  have "stored_ok w m o' m'"
    unfolding stored_ok_def
  proof (intro conjI)
    show "\<forall>k \<in> set (evicted_keys o'). \<exists>b. status_of m k = Some b \<and> cs_ref_cnt b = 0 \<and> k \<notin> set w \<and> status_of m' k = None"
      using evk by (simp only: s(4)) blast
    show "\<forall>k. k \<notin> set (evicted_keys o') \<longrightarrow> k \<notin> set (keys_to_store o') \<longrightarrow> status_of m' k = status_of m k"
      using s(3,4,7) l by (simp add: restrict_map_def)
  qed (use s in simp_all)
  then show ?thesis using s by blast
qed

lemma prepare_store_spec:
  assumes inv: "mgr_inv m" and d: "distinct keys"
  shows "\<exists>out m'. prepare_store keys m = Inr (out, m') \<and> mgr_inv m' \<and>
    (case out of None \<Rightarrow> m' = m
     | Some o' \<Rightarrow> stored_ok (wanted keys m) m o' m'
         \<and> keys_to_store o' = filter (\<lambda>k. status_of m k = None) (wanted keys m))"
proof -
  define w where "w = wanted keys m"
  define ks where "ks = filter (\<lambda>k. status_of m k = None) w"
  define n where "n = int (length ks) - cpu_num_free_blocks m"
  have dw: "distinct ks" using d by (simp add: ks_def w_def wanted_def split: option.splits)
  have none: "\<forall>k \<in> set ks. status_of m k = None" by (simp add: ks_def)
  have run: "prepare_store keys m = (if ks = []
      then Inr (Some \<lparr>keys_to_store = [], store_spec = [], evicted_keys = []\<rparr>, m)
      else if n > 0 then case pol_evict (nat n) w (m_policy m) of None \<Rightarrow> Inr (None, m)
             | Some (ev, p) \<Rightarrow> store_blocks ks ev (m\<lparr>m_policy := p\<rparr>)
      else store_blocks ks [] (m\<lparr>m_policy := m_policy m\<rparr>))"
    unfolding prepare_store_def wanted_def[symmetric] Let_def n_def ks_def w_def by simp
  consider (nothing) "ks = []" | (refused) "ks \<noteq> []" "n > 0" "pol_evict (nat n) w (m_policy m) = None"
    | (evict) ev p where "ks \<noteq> []" "n > 0" "pol_evict (nat n) w (m_policy m) = Some (ev, p)"
    | (room) "ks \<noteq> []" "n \<le> 0"
    by (metis not_le old.prod.exhaust option.exhaust)
  then have "\<exists>out m'. prepare_store keys m = Inr (out, m') \<and> mgr_inv m' \<and>
    (case out of None \<Rightarrow> m' = m | Some o' \<Rightarrow> stored_ok w m o' m' \<and> keys_to_store o' = ks)"
  proof cases
    case nothing
    then show ?thesis using run inv by (simp add: stored_ok_def)
  next
    case refused
    then show ?thesis using run inv by simp
  next
    case evict
    obtain o' m' where "store_blocks ks ev (m\<lparr>m_policy := p\<rparr>) = Inr (Some o', m')" "mgr_inv m'"
      "keys_to_store o' = ks" "stored_ok w m o' m'"
      using evict_and_store[OF inv evict(3) dw[unfolded ks_def] evict(2)] by (auto simp: n_def ks_def)
    then show ?thesis using run evict by simp
  next
    case room
    have rr: "status_of m = status_of m |` (- fst ` set [])" by (simp add: restrict_map_def)
    have e: "int (length ks) \<le> cpu_num_free_blocks m + int (length [])" using room by (simp add: n_def)
    obtain o' m' where s: "store_blocks ks [] (m\<lparr>m_policy := m_policy m\<rparr>) = Inr (Some o', m')" "mgr_inv m'"
      "keys_to_store o' = ks" "evicted_keys o' = map fst []"
      "store_spec o' = map (\<lambda>k. cs_block_id (the (status_of m' k))) ks"
      "\<forall>k \<in> set ks. \<exists>i. status_of m' k = Some (BlockStatus i)"
      "\<forall>k. k \<notin> set ks \<longrightarrow> status_of m' k = status_of m k"
      using store_blocks_spec[OF inv mgr_invD(1)[OF inv] _ _ rr e dw none] by auto
    then have "stored_ok w m o' m'" using none by (simp add: stored_ok_def)
    then show ?thesis using run room s(1-3) by simp
  qed
  then show ?thesis unfolding ks_def w_def .
qed

lemma count_lookup_spec:
  assumes inv: "mgr_inv m" and run: "count_lookup key m = Inr m'"
  shows "mgr_inv m' \<and> m_policy m' = m_policy m"
proof (cases "m_counts m")
  case None
  then show ?thesis using assms by (simp add: count_lookup_def)
next
  case (Some c)
  note cb = mgr_invD(6)[OF inv, unfolded Some]
  show ?thesis
  proof (cases "map_of c key")
    case (Some n)
    have "length (dict_set key (n + 1) (move_to_end key c)) = length c"
      using cb Some by (simp add: length_dict_set has_key_def)
    then show ?thesis using assms \<open>m_counts m = Some c\<close> Some cb
      by (auto simp: count_lookup_def mgr_inv_def)
  next
    case None
    then obtain c' where c': "m' = m\<lparr>m_counts := Some (dict_set key 1 c')\<rparr>"
      "if int (length c) \<ge> m_max_tracker_size m then \<exists>x. c = x # c' else c' = c"
      using run Some by (auto simp: count_lookup_def rbind_eq_Inr split: if_splits list.splits)
    have "wf_dict (dict_set key (1::int) c')" using c'(2) cb by (auto split: if_splits)
    moreover have "int (length (dict_set key (1::int) c')) \<le> m_max_tracker_size m" if "1 \<le> m_max_tracker_size m"
      using c'(2) cb that by (auto simp: length_dict_set split: if_splits)
    ultimately show ?thesis using inv c'(1) by (simp add: mgr_inv_def)
  qed
qed

lemma cpu_lookup_spec:
  assumes "mgr_inv m" and "cpu_lookup key m = Inr (r, m')"
  shows "mgr_inv m' \<and> m_policy m' = m_policy m
    \<and> r = (case status_of m key of None \<Rightarrow> Some False | Some b \<Rightarrow> if is_ready b then Some True else None)"
  using assms count_lookup_spec[OF assms(1)]
  by (auto simp: cpu_lookup_def rbind_eq_Inr split: option.splits)

lemma cpu_lookup_returns:
  assumes "1 \<le> m_max_tracker_size m"
  shows "\<exists>res. cpu_lookup key m = Inr res"
proof -
  have "\<exists>m'. count_lookup key m = Inr m'"
    using assms by (auto simp: count_lookup_def split: option.splits list.splits)
  then show ?thesis by (auto simp: cpu_lookup_def split: option.splits)
qed

lemma load_loop_spec:
  assumes "mgr_inv m" and "load_loop ks m bl = Inr (bl', m')"
  shows "mgr_inv m'"
  using assms
proof (induction ks arbitrary: m bl)
  case Nil
  then show ?case by simp
next
  case (Cons k ks)
  then obtain b where b: "status_of m k = Some b" "is_ready b" by (auto split: option.splits if_splits)
  let ?b = "set_ref_cnt (cs_ref_cnt b + 1) b"
  have "mgr_inv (upd_status k ?b m)" by (rule upd_status_inv[OF Cons.prems(1) b(1)]) simp
  then show ?case using Cons.IH Cons.prems(2) b by (simp add: Let_def)
qed

definition ready_key :: "cpu_manager \<Rightarrow> offload_key \<Rightarrow> bool" where
  "ready_key m k \<longleftrightarrow> (case status_of m k of None \<Rightarrow> False | Some b \<Rightarrow> is_ready b)"

definition incr :: "block_status \<Rightarrow> block_status" where
  "incr b = set_ref_cnt (cs_ref_cnt b + 1) b"

definition decr :: "block_status \<Rightarrow> block_status" where
  "decr b = set_ref_cnt (cs_ref_cnt b - 1) b"

lemma incr_decr_id [simp]: "cs_block_id (incr b) = cs_block_id b" "cs_block_id (decr b) = cs_block_id b"
  by (simp_all add: incr_def decr_def)

lemma decr_incr:
  assumes "0 \<le> cs_ref_cnt b" "cs_ref_cnt b < 2 ^ 31 - 1"
  shows "decr (incr b) = b" and "0 < cs_ref_cnt (incr b)"
  using assms by (cases b; simp add: incr_def decr_def set_ref_cnt_def c_int32_id)+

lemma retain_loop_spec:
  assumes "mgr_inv m" and "distinct ks"
  shows "\<exists>m'. retain_loop ks m acc = (acc @ filter (ready_key m) ks, m') \<and> mgr_inv m' \<and> same_slots m m'
    \<and> status_of m' = (\<lambda>k. if k \<in> set ks \<and> ready_key m k then map_option incr (status_of m k) else status_of m k)"
  using assms
proof (induction ks arbitrary: m acc)
  case Nil
  then show ?case by auto
next
  case (Cons k ks)
  show ?case
  proof (cases "ready_key m k")
    case True
    then obtain b where b: "status_of m k = Some b" "is_ready b" by (auto simp: ready_key_def split: option.splits)
    let ?m = "upd_status k (incr b) m"
    have u: "mgr_inv ?m" "status_of ?m = (status_of m)(k \<mapsto> incr b)" "same_slots m ?m"
      using upd_status_inv[OF Cons.prems(1) b(1), of "incr b"] by simp_all
    have rk: "ready_key ?m x = ready_key m x" if "x \<noteq> k" for x using that by (simp add: ready_key_def u(2))
    then have fl: "filter (ready_key ?m) ks = filter (ready_key m) ks"
      using Cons.prems(2) by (intro filter_cong refl) (metis distinct.simps(2))
    obtain m' where m': "retain_loop ks ?m (acc @ [k]) = ((acc @ [k]) @ filter (ready_key ?m) ks, m')" "mgr_inv m'"
      "same_slots ?m m'" "status_of m' = (\<lambda>x. if x \<in> set ks \<and> ready_key ?m x then map_option incr (status_of ?m x) else status_of ?m x)"
      using Cons.IH[OF u(1), of "acc @ [k]"] Cons.prems(2) by auto
    have "status_of m' = (\<lambda>x. if x \<in> set (k # ks) \<and> ready_key m x then map_option incr (status_of m x) else status_of m x)"
      using m'(4) Cons.prems(2) True b rk by (auto simp: u(2) fun_eq_iff)
    then show ?thesis
      using m'(1-3) fl True b same_slots_trans[OF u(3) m'(3)] by (auto simp: incr_def)
  next
    case False
    have "retain_loop (k # ks) m acc = retain_loop ks m acc"
      using False by (auto simp: ready_key_def split: option.splits)
    then show ?thesis using Cons.IH[OF Cons.prems(1), of acc] Cons.prems(2) False
      by (auto simp del: retain_loop.simps simp: fun_eq_iff)
  qed
qed

lemma fold_decr_spec:
  assumes "mgr_inv m" and "distinct ks"
  shows "mgr_inv (fold decr_status ks m) \<and> same_slots m (fold decr_status ks m)
    \<and> status_of (fold decr_status ks m) = (\<lambda>k. if k \<in> set ks then map_option decr (status_of m k) else status_of m k)"
  using assms
proof (induction ks arbitrary: m)
  case Nil
  then show ?case by simp
next
  case (Cons k ks)
  show ?case
  proof (cases "status_of m k")
    case None
    then have "decr_status k m = m" by (simp add: decr_status_def)
    then show ?thesis using Cons None by auto
  next
    case (Some b)
    let ?m = "upd_status k (decr b) m"
    have d: "decr_status k m = ?m" using Some by (simp add: decr_status_def decr_def)
    have u: "mgr_inv ?m" "status_of ?m = (status_of m)(k \<mapsto> decr b)" "same_slots m ?m"
      using upd_status_inv[OF Cons.prems(1) Some, of "decr b"] by simp_all
    show ?thesis
      using Cons.IH[OF u(1)] Cons.prems(2) d Some same_slots_trans[OF u(3)] by (auto simp: u(2) fun_eq_iff)
  qed
qed

lemma complete_load_spec:
  assumes "mgr_inv m" and "complete_load ks m = Inr m'"
  shows "mgr_inv m'"
proof -
  have "mgr_inv m1" if "mgr_inv m0" "complete_load_one k m0 = Inr m1" for k m0 m1
    using fold_decr_spec[OF that(1), of "[k]"] that(2)
    by (auto simp: complete_load_one_def split: option.splits if_splits)
  then show ?thesis using assms by (auto simp: complete_load_def intro: rfold_invariant)
qed

lemma store_ok_loop_spec:
  assumes "mgr_inv m"
  shows "mgr_inv (snd (store_ok_loop ks m acc)) \<and> status_of (snd (store_ok_loop ks m acc)) =
    (\<lambda>k. if k \<in> set ks \<and> (\<exists>b. status_of m k = Some b \<and> \<not> is_ready b) then map_option (set_ref_cnt 0) (status_of m k)
         else status_of m k)"
  using assms
proof (induction ks arbitrary: m acc)
  case Nil
  then show ?case by simp
next
  case (Cons k ks)
  show ?case
  proof (cases "\<exists>b. status_of m k = Some b \<and> \<not> is_ready b")
    case True
    then obtain b where b: "status_of m k = Some b" "\<not> is_ready b" by blast
    let ?m = "upd_status k (set_ref_cnt 0 b) m"
    have u: "mgr_inv ?m" "status_of ?m = (status_of m)(k \<mapsto> set_ref_cnt 0 b)"
      using upd_status_inv[OF Cons.prems(1) b(1), of "set_ref_cnt 0 b"] by simp_all
    have "is_ready (set_ref_cnt 0 b)" by (simp add: is_ready_def set_ref_cnt_def c_int32_def)
    then show ?thesis using Cons.IH[OF u(1), of "acc @ [k]"] b by (auto simp: u(2) fun_eq_iff)
  next
    case False
    then have "store_ok_loop (k # ks) m acc = store_ok_loop ks m acc" by (auto split: option.splits)
    then show ?thesis using Cons.IH[OF Cons.prems(1), of acc] False by (auto simp: fun_eq_iff)
  qed
qed

lemma store_fail_one_spec:
  assumes inv: "mgr_inv m"
  shows "\<exists>m'. store_fail_one k m = Inr m' \<and> mgr_inv m' \<and> status_of m' =
    (\<lambda>x. if x = k \<and> (\<exists>b. status_of m x = Some b \<and> \<not> is_ready b) then None else status_of m x)"
proof (cases "\<exists>b. status_of m k = Some b \<and> \<not> is_ready b")
  case True
  then obtain b where b: "status_of m k = Some b" "\<not> is_ready b" by blast
  then obtain p where p: "pol_remove k (m_policy m) = Inr p" "pol_inv p" "pol_get p = (status_of m)(k := None)"
    using pol.rem_law[OF mgr_invD(1)[OF inv] b(1)] by blast
  have "slots_ok (pol_get p) (m_free_list m @ [cs_block_id b]) (m_num_allocated m)"
    unfolding p(3) by (rule slots_ok_remove[OF mgr_invD(2)[OF inv] b(1)])
  then have "mgr_inv (free_block b (m\<lparr>m_policy := p\<rparr>))" using inv p(2) by (simp add: mgr_inv_def free_block_def)
  moreover have "store_fail_one k m = Inr (free_block b (m\<lparr>m_policy := p\<rparr>))"
    using b p(1) by (simp add: store_fail_one_def)
  moreover have "status_of (free_block b (m\<lparr>m_policy := p\<rparr>)) = (\<lambda>x. if x = k \<and> (\<exists>b. status_of m x = Some b \<and> \<not> is_ready b) then None else status_of m x)"
    using b p(3) by (auto simp: free_block_def fun_eq_iff)
  ultimately show ?thesis by blast
next
  case False
  then have "store_fail_one k m = Inr m" by (auto simp: store_fail_one_def split: option.splits)
  then show ?thesis using inv False by (auto simp: fun_eq_iff)
qed

lemma complete_store_spec:
  assumes inv: "mgr_inv m"
  shows "\<exists>m'. complete_store ks success m = Inr m' \<and> mgr_inv m'"
proof (cases success)
  case True
  then show ?thesis using store_ok_loop_spec[OF inv, of ks "[]"]
    by (auto simp: complete_store_def split: prod.splits)
next
  case False
  have "\<exists>m'. rfold store_fail_one ks m = Inr m' \<and> mgr_inv m'"
    by (rule rfold_total[where P = mgr_inv]) (use store_fail_one_spec inv in blast)+
  then show ?thesis using False by (simp add: complete_store_def)
qed

lemma reset_cache_inv: "mgr_inv m \<Longrightarrow> mgr_inv (reset_cache m)"
  using pol.clr_law[of "m_policy m"]
  by (auto simp: mgr_inv_def reset_cache_def slots_ok_def slot_inj_def ids_of_def)

lemma make_manager_inv:
  assumes "CPUOffloadingManager n pol ev th mx = Inr m" and "0 \<le> n" "n \<le> 2 ^ 63"
  shows "mgr_inv m"
proof -
  have "pol_inv (m_policy m)" "status_of m = Map.empty"
    using assms by (auto simp: CPUOffloadingManager_def make_policy_def lru_inv_def LRUCachePolicy_def arc_inv_def
        arc_core_def ARCCachePolicy_def lru_get_def arc_get_def rbind_eq_Inr fun_eq_iff split: if_splits)
  then show ?thesis
    using assms by (auto simp: CPUOffloadingManager_def mgr_inv_def rbind_eq_Inr slots_ok_def slot_inj_def ids_of_def)
qed

section \<open>Reachable managers\<close>

inductive mgr_reach :: "cpu_manager \<Rightarrow> bool" where
  start: "CPUOffloadingManager n name ev th mx = Inr m \<Longrightarrow> 0 \<le> n \<Longrightarrow> n \<le> 2 ^ 63 \<Longrightarrow> mgr_reach m"
| lookup: "mgr_reach m \<Longrightarrow> cpu_lookup k m = Inr (r, m') \<Longrightarrow> mgr_reach m'"
| touch: "mgr_reach m \<Longrightarrow> mgr_reach (cpu_touch ks m)"
| load: "mgr_reach m \<Longrightarrow> prepare_load ks m = Inr (spec, m') \<Longrightarrow> mgr_reach m'"
| loaded: "mgr_reach m \<Longrightarrow> complete_load ks m = Inr m' \<Longrightarrow> mgr_reach m'"
| retain: "mgr_reach m \<Longrightarrow> retain ks m = (kept, m') \<Longrightarrow> mgr_reach m'"
| release: "mgr_reach m \<Longrightarrow> release ks m = Inr m' \<Longrightarrow> mgr_reach m'"
| store: "mgr_reach m \<Longrightarrow> distinct ks \<Longrightarrow> prepare_store ks m = Inr (out, m') \<Longrightarrow> mgr_reach m'"
| stored: "mgr_reach m \<Longrightarrow> complete_store ks ok m = Inr m' \<Longrightarrow> mgr_reach m'"
| reset: "mgr_reach m \<Longrightarrow> mgr_reach (reset_cache m)"
| events: "mgr_reach m \<Longrightarrow> cpu_take_events m = (es, m') \<Longrightarrow> mgr_reach m'"

lemma retain_spec:
  assumes "mgr_inv m" and "retain ks m = (kept, m')"
  shows "mgr_inv m'" and "kept = filter (ready_key m) (remdups ks)"
    and "status_of m' = (\<lambda>k. if k \<in> set ks \<and> ready_key m k then map_option incr (status_of m k) else status_of m k)"
  using retain_loop_spec[OF assms(1), of "remdups ks" "[]"] assms(2) by (auto simp: retain_def)

lemma release_spec:
  assumes "mgr_inv m" and "release ks m = Inr m'"
  shows "mgr_inv m'"
  using fold_decr_spec[OF assms(1), of "remdups ks"] assms(2) by (auto simp: release_def rbind_eq_Inr)

lemma mgr_reach_inv: "mgr_reach m \<Longrightarrow> mgr_inv m"
proof (induction rule: mgr_reach.induct)
  case (start n name ev th mx m)
  then show ?case by (rule make_manager_inv)
next
  case (lookup m k r m')
  then show ?case using cpu_lookup_spec by blast
next
  case (touch m ks)
  then show ?case using pol.tch_law[of "m_policy m" ks] by (simp add: mgr_inv_def cpu_touch_def)
next
  case (load m ks spec m')
  then show ?case by (auto simp: prepare_load_def rbind_eq_Inr intro: load_loop_spec)
next
  case (loaded m ks m')
  then show ?case by (blast intro: complete_load_spec)
next
  case (retain m ks kept m')
  then show ?case by (blast intro: retain_spec)
next
  case (release m ks m')
  then show ?case by (blast intro: release_spec)
next
  case (store m ks out m')
  then show ?case using prepare_store_spec[of m ks] by auto
next
  case (stored m ks ok m')
  then show ?case using complete_store_spec[of m ks ok] by auto
next
  case (reset m)
  then show ?case by (simp add: reset_cache_inv)
next
  case (events m es m')
  then show ?case by (auto simp: mgr_inv_def cpu_take_events_def split: option.splits)
qed

lemma status_ready: "status_of m k = Some b \<Longrightarrow> ready_key m k = is_ready b"
  by (simp add: ready_key_def)

lemma stored_ok_keeps:
  assumes "stored_ok ks m out m'" and "status_of m k = Some b" and "cs_ref_cnt b \<noteq> 0 \<or> k \<in> set ks"
  shows "status_of m' k = Some b"
proof -
  have "k \<notin> set (evicted_keys out)" "k \<notin> set (keys_to_store out)"
    using assms by (fastforce simp: stored_ok_def)+
  then show ?thesis using assms(1,2) by (simp add: stored_ok_def)
qed

lemma prepare_store_keeps:
  assumes "mgr_inv m" and "distinct keys" and "prepare_store keys m = Inr (out, m')"
    and "status_of m k = Some b" and "cs_ref_cnt b \<noteq> 0 \<or> k \<in> set (wanted keys m)"
  shows "status_of m' k = Some b"
  using prepare_store_spec[OF assms(1,2)] assms(3-5) stored_ok_keeps[of "wanted keys m" m _ m' k b]
  by (cases out) auto

text \<open>Releasing undoes what retaining did, on the keys that were retained.\<close>

lemma release_retained:
  assumes inv: "mgr_inv m'" and d: "distinct ks"
    and st: "\<forall>k \<in> set ks. \<exists>b. status_of m' k = Some (incr b) \<and> 0 \<le> cs_ref_cnt b \<and> cs_ref_cnt b < 2 ^ 31 - 1"
  shows "\<exists>m2. release ks m' = Inr m2 \<and> mgr_inv m2
    \<and> status_of m2 = (\<lambda>k. if k \<in> set ks then map_option decr (status_of m' k) else status_of m' k)"
proof -
  have "list_all (\<lambda>key. case status_of m' key of None \<Rightarrow> False | Some b \<Rightarrow> cs_ref_cnt b > 0) (remdups ks)"
    using st decr_incr(2) by (fastforce simp: list_all_iff)
  then have "release ks m' = Inr (fold decr_status (remdups ks) m')" by (simp add: release_def)
  then show ?thesis using fold_decr_spec[OF inv distinct_remdups, of ks] by simp
qed

section \<open>Properties\<close>

definition demo_manager :: cpu_manager where
  "demo_manager = (case CPUOffloadingManager 2 ''arc'' True 0 64 of Inr m \<Rightarrow> m)"

lemma demo_manager_make: "CPUOffloadingManager 2 ''arc'' True 0 64 = Inr demo_manager"
  by (simp add: demo_manager_def CPUOffloadingManager_def make_policy_def)

lemma demo_manager_reach: "mgr_reach demo_manager"
  by (rule mgr_reach.start[OF demo_manager_make]) simp_all

text \<open>
  \<^bold>\<open>C21\<close> Whatever sequence of lookups, loads, stores, retains, releases and resets has run, two different
  keys never share a slot of the CPU buffer, every slot lies inside the buffer, no slot on the free
  list holds a resident block, and at most \<^verbatim>\<open>num_blocks\<close> keys are resident.
\<close>

theorem cpu_slots_exclusive:
  assumes "mgr_reach m"
  shows "slot_inj (status_of m) \<and> ids_of (status_of m) \<subseteq> {0..<m_num_blocks m}
    \<and> ids_of (status_of m) \<inter> set (m_free_list m) = {} \<and> int (card (dom (status_of m))) \<le> m_num_blocks m"
proof -
  note i = mgr_reach_inv[OF assms]
  have "ids_of (status_of m) \<subseteq> {0..<m_num_allocated m}" using mgr_invD(2)[OF i] by (auto simp: slots_ok_def)
  then show ?thesis
    using mgr_invD[OF i] mgr_inv_card[OF i] by (auto simp: slots_ok_def)
qed


text \<open>
  \<^bold>\<open>C23\<close> The blocks that \<^verbatim>\<open>retain\<close> reports as retained survive any later store: after it they are
  still resident in the same slot with one more reference than before, and releasing them
  succeeds and gives every one of them its old reference count back.
\<close>

theorem retained_survive_store:
  assumes "mgr_reach m" and "retain keys m = (kept, m1)"
    and "\<forall>k b. status_of m k = Some b \<longrightarrow> cs_ref_cnt b < 2 ^ 31 - 1"
    and "distinct keys'" and "prepare_store keys' m1 = Inr (out, m2)"
  shows "(\<forall>k \<in> set kept. status_of m2 k = map_option incr (status_of m k)) \<and>
    (\<exists>m3. release kept m2 = Inr m3 \<and> mgr_reach m3 \<and> (\<forall>k \<in> set kept. status_of m3 k = status_of m k)
       \<and> (\<forall>k. k \<notin> set kept \<longrightarrow> status_of m3 k = status_of m2 k))"
proof -
  note r = retain_spec[OF mgr_reach_inv[OF assms(1)] assms(2)]
  have k2: "\<exists>b. status_of m k = Some b \<and> 0 \<le> cs_ref_cnt b \<and> cs_ref_cnt b < 2 ^ 31 - 1 \<and> status_of m2 k = Some (incr b)"
    if k: "k \<in> set kept" for k
  proof -
    obtain b where b: "status_of m k = Some b" "is_ready b" "k \<in> set keys"
      using k r(2) by (auto simp: ready_key_def split: option.splits)
    then have c: "0 \<le> cs_ref_cnt b" "cs_ref_cnt b < 2 ^ 31 - 1" using assms(3) by (auto simp: is_ready_def)
    have "status_of m1 k = Some (incr b)" using r(3) b by (simp add: ready_key_def)
    then have "status_of m2 k = Some (incr b)"
      using prepare_store_keeps[OF r(1) assms(4,5)] decr_incr(2)[OF c] by (metis less_irrefl)
    then show ?thesis using b c by blast
  qed
  have d: "distinct kept" using r(2) by simp
  have reach: "mgr_reach m2" using assms mgr_reach.retain mgr_reach.store by blast
  obtain m3 where m3: "release kept m2 = Inr m3"
    "status_of m3 = (\<lambda>k. if k \<in> set kept then map_option decr (status_of m2 k) else status_of m2 k)"
    using release_retained[OF mgr_reach_inv[OF reach] d] k2 by blast
  have "\<forall>k \<in> set kept. status_of m3 k = status_of m k"
  proof
    fix k assume k: "k \<in> set kept"
    obtain b where b: "status_of m k = Some b" "0 \<le> cs_ref_cnt b" "cs_ref_cnt b < 2 ^ 31 - 1" "status_of m2 k = Some (incr b)"
      using k2[OF k] by blast
    show "status_of m3 k = status_of m k" using b k decr_incr(1)[OF b(2,3)] by (simp add: m3(2))
  qed
  moreover have "\<forall>k \<in> set kept. status_of m2 k = map_option incr (status_of m k)" using k2 by fastforce
  ultimately show ?thesis using m3 mgr_reach.release[OF reach m3(1)] by auto
qed

lemmas mgr_eval = prepare_store_def store_blocks_def allocate_blocks_def cpu_num_free_blocks_def complete_store_def
  get_load_store_spec_def emit_def arc_insert_def arc_get_def arc_evict_def arc_candidate_def arc_apply_def arc_trim_def
  evictable_def upd_status_def arc_write_def BlockStatus_def set_ref_cnt_def is_ready_def c_int32_def c_int64_def
  free_block_def has_key_def cpu_touch_def arc_touch_def arc_touch_one_def move_to_end_def retain_def py_int_def
  make_policy_def CPUOffloadingManager_def ARCCachePolicy_def

definition demo_ready :: cpu_manager where
  "demo_ready = \<lparr>m_num_blocks = 2, m_num_allocated = 1, m_free_list = [],
     m_events = Some [\<lparr>oe_keys = [[1]], oe_medium = ''CPU'', oe_removed = False\<rparr>],
     m_policy = Arc \<lparr>cache_capacity = 2, target_t1_size = 0, arc_t1 = [([1], \<lparr>cs_ref_cnt = 0, cs_block_id = 0\<rparr>)],
       arc_t2 = [], arc_b1 = [], arc_b2 = []\<rparr>,
     m_store_threshold = 0, m_max_tracker_size = 64, m_counts = None\<rparr>"

lemma demo_ready_run:
  "rbind (prepare_store [[1]] demo_manager) (\<lambda>(out, m). complete_store [[1]] True m) = Inr demo_ready"
  by (simp add: demo_manager_def demo_ready_def mgr_eval)

lemma demo_ready_reach: "mgr_reach demo_ready"
proof -
  obtain out m where m: "prepare_store [[1]] demo_manager = Inr (out, m)" "complete_store [[1]] True m = Inr demo_ready"
    using demo_ready_run by (auto simp: rbind_eq_Inr)
  have "mgr_reach m" by (rule mgr_reach.store[OF demo_manager_reach _ m(1)]) simp
  then show ?thesis using m(2) by (rule mgr_reach.stored)
qed

theorem cpu_slots_exclusive_witness:
  "slot_inj (status_of demo_ready) \<and> ids_of (status_of demo_ready) \<subseteq> {0..<2} \<and> card (dom (status_of demo_ready)) \<le> 2"
proof -
  have "m_num_blocks demo_ready = 2" by (simp add: demo_ready_def)
  then show ?thesis using cpu_slots_exclusive[OF demo_ready_reach] by simp
qed


theorem retained_survive_store_witness:
  "\<exists>m1 m2 m3. retain [[1], [2]] demo_ready = ([[1]], m1) \<and> prepare_store [[2], [3]] m1 = Inr (None, m2)
     \<and> release [[1]] m2 = Inr m3 \<and> status_of m3 [1] = Some \<lparr>cs_ref_cnt = 0, cs_block_id = 0\<rparr>"
proof -
  obtain m1 where m1: "retain [[1], [2]] demo_ready = ([[1]], m1)" by (simp add: demo_ready_def mgr_eval)
  moreover have m2: "prepare_store [[2], [3]] m1 = Inr (None, m1)" using m1 by (auto simp: demo_ready_def mgr_eval)
  moreover have st: "status_of demo_ready k = Some b \<longleftrightarrow> k = [1] \<and> b = \<lparr>cs_ref_cnt = 0, cs_block_id = 0\<rparr>" for k b
    by (auto simp: demo_ready_def mgr_eval)
  moreover have "\<forall>k b. status_of demo_ready k = Some b \<longrightarrow> cs_ref_cnt b < 2 ^ 31 - 1" using st by auto
  moreover have "status_of demo_ready [1] = Some \<lparr>cs_ref_cnt = 0, cs_block_id = 0\<rparr>" using st by blast
  ultimately show ?thesis
    using retained_survive_store[OF demo_ready_reach m1 _ _ m2] by auto
qed

text \<open>The configuration of a manager, which no operation on stores changes.\<close>

definition same_config :: "cpu_manager \<Rightarrow> cpu_manager \<Rightarrow> bool" where
  "same_config m m' \<longleftrightarrow> m_num_blocks m' = m_num_blocks m \<and> m_max_tracker_size m' = m_max_tracker_size m"

lemma same_config_simps [simp]:
  "same_config m m" "same_config m (m'\<lparr>m_policy := p\<rparr>) = same_config m m'"
  "same_config m (m'\<lparr>m_free_list := fl\<rparr>) = same_config m m'"
  "same_config m (m'\<lparr>m_num_allocated := na\<rparr>) = same_config m m'"
  "same_config (m\<lparr>m_policy := p\<rparr>) m' = same_config m m'"
  "same_config m (emit ks r m') = same_config m m'"
  by (simp_all add: same_config_def emit_def split: option.splits)

lemma alloc_fresh_config: "same_config m m0 \<Longrightarrow> same_config m (snd (alloc_fresh n m0 bs))"
  by (induction n arbitrary: m0 bs) simp_all

lemma alloc_reused_config: "same_config m m0 \<Longrightarrow> alloc_reused n m0 bs = Inr (bs', m') \<Longrightarrow> same_config m m'"
proof (induction n arbitrary: m0 bs)
  case (Suc n)
  show ?case
    using Suc.IH[of "m0\<lparr>m_free_list := butlast (m_free_list m0)\<rparr>"] Suc.prems by (auto split: if_splits)
qed simp

lemma store_blocks_config:
  assumes "same_config m m0" and "store_blocks ks ev m0 = Inr (out, m')"
  shows "same_config m m'"
proof -
  let ?m = "emit (map fst ev) True (fold (\<lambda>kb. free_block (snd kb)) ev m0)"
  have c: "same_config m ?m" using assms(1) by (simp add: fold_free_block)
  have al: "same_config m m2" if "same_config m m1" "allocate_blocks ks m1 = Inr (bs, m2)" for m1 bs m2
    using that alloc_fresh_config[OF that(1)] alloc_reused_config
    by (auto simp: allocate_blocks_def Let_def rbind_eq_Inr split: prod.splits if_splits) (metis snd_conv)+
  obtain bs m2 where "allocate_blocks ks ?m = Inr (bs, m2)"
    "m' = m2\<lparr>m_policy := fold (\<lambda>(k, b). pol_insert k b) (zip ks bs) (m_policy m2)\<rparr>"
    using assms(2) by (auto simp: store_blocks_def Let_def rbind_eq_Inr)
  then show ?thesis using al[OF c] by simp
qed

lemma prepare_store_config: "prepare_store ks m = Inr (out, m') \<Longrightarrow> same_config m m'"
  using store_blocks_config[of m m] store_blocks_config[of m "m\<lparr>m_policy := p\<rparr>" for p]
  by (auto simp: prepare_store_def Let_def split: if_splits option.splits)

lemma store_ok_loop_config: "same_config m m0 \<Longrightarrow> same_config m (snd (store_ok_loop ks m0 acc))"
  by (induction ks arbitrary: m0 acc) (auto simp: upd_status_def split: option.splits)

lemma store_fail_config:
  assumes "same_config m m0" and "rfold store_fail_one ks m0 = Inr m'"
  shows "same_config m m'"
proof -
  have "same_config m m2" if "same_config m m1" "store_fail_one k m1 = Inr m2" for m1 k m2
    using that by (auto simp: store_fail_one_def free_block_def rbind_eq_Inr split: option.splits if_splits)
  then show ?thesis using assms by (blast intro: rfold_invariant)
qed

lemma store_fail_all:
  assumes "mgr_inv m"
  shows "\<exists>m'. rfold store_fail_one ks m = Inr m' \<and> mgr_inv m' \<and> status_of m' =
    (\<lambda>k. if k \<in> set ks \<and> (\<exists>b. status_of m k = Some b \<and> \<not> is_ready b) then None else status_of m k)"
  using assms
proof (induction ks arbitrary: m)
  case Nil
  then show ?case by simp
next
  case (Cons k ks)
  obtain m1 where m1: "store_fail_one k m = Inr m1" "mgr_inv m1"
    "status_of m1 = (\<lambda>x. if x = k \<and> (\<exists>b. status_of m x = Some b \<and> \<not> is_ready b) then None else status_of m x)"
    using store_fail_one_spec[OF Cons.prems] by blast
  show ?case using Cons.IH[OF m1(2)] m1(1) by (auto simp: m1(3) fun_eq_iff)
qed

text \<open>
  \<^bold>\<open>C24\<close> The life of a stored block: while the store is in flight a lookup of the key says to retry;
  completing the store makes the lookup hit; completing it as failed makes the lookup miss and
  gives the slot back.
\<close>

theorem store_lifecycle:
  assumes "mgr_reach m" and "1 \<le> m_max_tracker_size m" and "distinct keys"
    and "prepare_store keys m = Inr (Some out, m1)" and "k \<in> set (keys_to_store out)"
  shows "(\<exists>m2. cpu_lookup k m1 = Inr (None, m2)) \<and>
    (\<exists>m2 m3. complete_store (keys_to_store out) True m1 = Inr m2 \<and> cpu_lookup k m2 = Inr (Some True, m3)) \<and>
    (\<exists>m2 m3. complete_store (keys_to_store out) False m1 = Inr m2 \<and> cpu_lookup k m2 = Inr (Some False, m3)
       \<and> cpu_num_free_blocks m2 = cpu_num_free_blocks m1 + int (length (keys_to_store out)))"
proof -
  note inv = mgr_reach_inv[OF assms(1)]
  let ?ks = "keys_to_store out"
  have inv1: "mgr_inv m1" and ok: "stored_ok (wanted keys m) m out m1"
    and ks: "?ks = filter (\<lambda>k. status_of m k = None) (wanted keys m)"
    using prepare_store_spec[OF inv assms(3)] assms(4) by auto
  have mx: "1 \<le> m_max_tracker_size m'" if "same_config m m'" for m' using that assms(2) by (simp add: same_config_def)
  note c1 = prepare_store_config[OF assms(4)]
  have fresh: "\<exists>i. status_of m1 x = Some (BlockStatus i)" if "x \<in> set ?ks" for x using ok that by (simp add: stored_ok_def)
  obtain i where i: "status_of m1 k = Some (BlockStatus i)" using fresh[OF assms(5)] by blast
  obtain r2 m2 where l1: "cpu_lookup k m1 = Inr (r2, m2)" using cpu_lookup_returns[OF mx[OF c1]] by force
  have "r2 = None" using cpu_lookup_spec[OF inv1 l1] i by simp
  moreover have "\<exists>m2 m3. complete_store ?ks True m1 = Inr m2 \<and> cpu_lookup k m2 = Inr (Some True, m3)"
  proof -
    let ?m2 = "snd (store_ok_loop ?ks m1 [])" and ?e = "fst (store_ok_loop ?ks m1 [])"
    note s = store_ok_loop_spec[OF inv1, of ?ks "[]"]
    have c: "same_config m (emit ?e False ?m2)" using store_ok_loop_config[OF c1] by simp
    obtain r m3 where l: "cpu_lookup k (emit ?e False ?m2) = Inr (r, m3)"
      using cpu_lookup_returns[OF mx[OF c]] by force
    have "status_of ?m2 k = Some (set_ref_cnt 0 (BlockStatus i))" using s i assms(5) by simp
    then have "r = Some True"
      using cpu_lookup_spec[OF _ l] s by (simp add: is_ready_def set_ref_cnt_def c_int32_def)
    then show ?thesis using l by (simp add: complete_store_def split_beta)
  qed
  moreover have "\<exists>m2 m3. complete_store ?ks False m1 = Inr m2 \<and> cpu_lookup k m2 = Inr (Some False, m3)
       \<and> cpu_num_free_blocks m2 = cpu_num_free_blocks m1 + int (length ?ks)"
  proof -
    obtain m2 where m2: "rfold store_fail_one ?ks m1 = Inr m2" "mgr_inv m2" "status_of m2 =
      (\<lambda>k. if k \<in> set ?ks \<and> (\<exists>b. status_of m1 k = Some b \<and> \<not> is_ready b) then None else status_of m1 k)"
      using store_fail_all[OF inv1] by blast
    note c2 = store_fail_config[OF c1 m2(1)]
    obtain r m3 where l: "cpu_lookup k m2 = Inr (r, m3)" using cpu_lookup_returns[OF mx[OF c2]] by force
    have "status_of m2 k = None" using m2(3) i assms(5) by simp
    then have r: "r = Some False" using cpu_lookup_spec[OF m2(2) l] by simp
    have dm: "dom (status_of m2) = dom (status_of m1) - set ?ks" "set ?ks \<subseteq> dom (status_of m1)"
      using m2(3) fresh by (force split: if_splits)+
    have "distinct ?ks" using assms(3) by (simp add: ks wanted_def split: option.splits)
    then have "card (dom (status_of m1)) = card (dom (status_of m2)) + length ?ks"
      using dm pol.finite_dom[OF mgr_invD(1)[OF inv1]]
      by (metis card_Diff_subset card_mono distinct_card finite_set le_add_diff_inverse2)
    moreover have "m_num_blocks m1 = m_num_blocks m2" using c1 c2 by (simp add: same_config_def)
    ultimately have "cpu_num_free_blocks m2 = cpu_num_free_blocks m1 + int (length ?ks)"
      using num_free_card[OF inv1] num_free_card[OF m2(2)] by simp
    then show ?thesis using l r m2(1) by (auto simp: complete_store_def)
  qed
  ultimately show ?thesis using l1 by blast
qed

theorem store_lifecycle_witness:
  "\<exists>m2 m3. complete_store [[1]] False (snd (projr (prepare_store [[1]] demo_manager))) = Inr m2
     \<and> cpu_lookup [1] m2 = Inr (Some False, m3)"
proof -
  obtain out m1 where m1: "prepare_store [[1]] demo_manager = Inr (Some out, m1)" "keys_to_store out = [[1]]"
    by (simp add: demo_manager_def mgr_eval)
  have "1 \<le> m_max_tracker_size demo_manager" by (simp add: demo_manager_def mgr_eval)
  then show ?thesis using store_lifecycle[OF demo_manager_reach _ _ m1(1), of "[1]"] m1 by auto
qed

text \<open>A run of the ARC policy after which two blocks no longer fit, though nothing is in use.\<close>

definition arc_run :: "cpu_manager res" where
  "arc_run = rbind (prepare_store [[1], [2]] demo_manager) (\<lambda>(_, m).
     rbind (complete_store [[1], [2]] True m) (\<lambda>m.
     rbind (prepare_store [[3]] m) (\<lambda>(_, m).
     rbind (complete_store [[3]] True m) (\<lambda>m.
     Inr (cpu_touch [[1]] (cpu_touch [[1]] m))))))"

lemma arc_run_reach:
  assumes "arc_run = Inr m"
  shows "mgr_reach m"
proof -
  obtain o1 m1 m2 o2 m3 m4 where
    m: "prepare_store [[1], [2]] demo_manager = Inr (o1, m1)" "complete_store [[1], [2]] True m1 = Inr m2"
      "prepare_store [[3]] m2 = Inr (o2, m3)" "complete_store [[3]] True m3 = Inr m4"
      "m = cpu_touch [[1]] (cpu_touch [[1]] m4)"
    using assms unfolding arc_run_def by (auto simp: rbind_eq_Inr)
  have "mgr_reach m1" by (rule mgr_reach.store[OF demo_manager_reach _ m(1)]) simp
  then have "mgr_reach m2" using m(2) by (rule mgr_reach.stored)
  then have "mgr_reach m3" by (rule mgr_reach.store[OF _ _ m(3)]) simp
  then have "mgr_reach m4" using m(4) by (rule mgr_reach.stored)
  then show ?thesis unfolding m(5) by (intro mgr_reach.touch)
qed

text \<open>
  \<^bold>\<open>C30\<close> Under the ARC policy there is a reachable state in which no resident block is referenced or
  asked for, and yet a store of as many keys as the buffer has blocks is refused: the policy stops
  taking blocks from T1 once the simulated size falls below the target, finds T2 empty and gives up,
  although T1 still holds blocks it could evict.
\<close>

theorem arc_refuses_although_evictable:
  "\<exists>m keys. mgr_reach m \<and> distinct keys \<and> int (length keys) \<le> m_num_blocks m
     \<and> cs_ref_cnt ` ran (status_of m) = {0} \<and> dom (status_of m) \<inter> set keys = {}
     \<and> prepare_store keys m = Inr (None, m)"
proof -
  define p where "p = \<lparr>cache_capacity = 2, target_t1_size = 2, arc_t1 =
    [([2], \<lparr>cs_ref_cnt = 0, cs_block_id = 1\<rparr>), ([3], \<lparr>cs_ref_cnt = 0, cs_block_id = 0\<rparr>)],
    arc_t2 = [], arc_b1 = [([1], ())], arc_b2 = []\<rparr>"
  obtain m where m: "arc_run = Inr m" and f: "m_num_blocks m = 2" "m_policy m = Arc p" "m_counts m = None"
      "m_num_allocated m = 2" "m_free_list m = []"
    by (simp add: p_def arc_run_def demo_manager_def mgr_eval Let_def numeral_2_eq_2)
  have "status_of m [3] = Some \<lparr>cs_ref_cnt = 0, cs_block_id = 0\<rparr>" by (simp add: f p_def arc_get_def)
  then have "0 \<in> cs_ref_cnt ` ran (status_of m)" by (metis block_status.select_convs(1) imageI ranI)
  moreover have "cs_ref_cnt ` ran (status_of m) \<subseteq> {0}" "dom (status_of m) \<inter> set [[4], [5]] = {}"
    by (auto simp: f p_def arc_get_def ran_def split: if_splits)
  ultimately have st: "cs_ref_cnt ` ran (status_of m) = {0}" "dom (status_of m) \<inter> set [[4], [5]] = {}" by blast+
  have "arc_evict (Suc (Suc 0)) [[4], [5]] p = None"
    by (simp add: p_def arc_evict_def arc_candidate_def evictable_def)
  moreover have "arc_get p [4] = None" "arc_get p [5] = None" by (simp_all add: p_def arc_get_def)
  ultimately have "prepare_store [[4], [5]] m = Inr (None, m)"
    by (simp add: prepare_store_def cpu_num_free_blocks_def f numeral_2_eq_2 Let_def)
  then show ?thesis using arc_run_reach[OF m] st f(1) by (intro exI[of _ m] exI[of _ "[[4], [5]]"]) simp
qed

end
