(* ===== verification/Protocol.thy ===== *)
theory Protocol
  imports Prelude
begin

unbundle bit_operations_syntax

text \<open>
  Request metadata (\<^verbatim>\<open>vllm/tokencake/protocol.py\<close>) and the lifecycle messages
  (\<^verbatim>\<open>vllm/tokencake/events.py\<close>, \<^verbatim>\<open>vllm/tokencake/api_router.py\<close>). Python's \<^verbatim>\<open>UUID(hex=...)\<close> is modelled
  from its documented algorithm. Pydantic is not part of the sources: how it reads a field of a given
  type from an input value, and how it dumps a model, are parameters (\<open>pydantic\<close>); the fields, defaults,
  bounds and validators are those of the class bodies.
\<close>

section \<open>Python values\<close>

datatype pyval =
    PNone
  | PBool bool
  | PInt int
  | PFloat real
  | PStr string
  | PList "pyval list"
  | PDict "(string \<times> pyval) list"

section \<open>UUID\<close>

definition hex_val :: "char \<Rightarrow> int option" where
  "hex_val c = (let n = int (of_char c) in
     if 48 \<le> n \<and> n \<le> 57 then Some (n - 48)
     else if 97 \<le> n \<and> n \<le> 102 then Some (n - 87)
     else if 65 \<le> n \<and> n \<le> 70 then Some (n - 55) else None)"

definition hex_digit :: "int \<Rightarrow> char" where
  "hex_digit d = ''0123456789abcdef'' ! nat d"

text \<open>\<^verbatim>\<open>s.replace(p, '')\<close> for a non-empty \<open>p\<close>.\<close>

function remove_sub :: "string \<Rightarrow> string \<Rightarrow> string" where
  "remove_sub p s = (case s of [] \<Rightarrow> []
     | c # cs \<Rightarrow> if p \<noteq> [] \<and> take (length p) s = p then remove_sub p (drop (length p) s) else c # remove_sub p cs)"
  by pat_completeness auto
termination by (relation "measure (length \<circ> snd)") auto

declare remove_sub.simps [simp del]

definition strip_chars :: "string \<Rightarrow> string \<Rightarrow> string" where
  "strip_chars cs s = rev (dropWhile (\<lambda>c. c \<in> set cs) (rev (dropWhile (\<lambda>c. c \<in> set cs) s)))"

text \<open>\<^verbatim>\<open>int(s, 16)\<close>: surrounding whitespace, a sign, a \<^verbatim>\<open>0x\<close> prefix and single underscores are allowed.\<close>

fun int16_digits :: "string \<Rightarrow> bool \<Rightarrow> int \<Rightarrow> int option" where
  "int16_digits [] after_digit acc = (if after_digit then Some acc else None)"
| "int16_digits (c # cs) after_digit acc =
     (if c = CHR ''_'' then (if after_digit then int16_digits cs False acc else None)
      else case hex_val c of None \<Rightarrow> None | Some d \<Rightarrow> int16_digits cs True (16 * acc + d))"

definition int16_unsigned :: "string \<Rightarrow> int option" where
  "int16_unsigned s =
     (if take 2 s = ''0x'' \<or> take 2 s = ''0X''
      then int16_digits (if take 1 (drop 2 s) = ''_'' then drop 3 s else drop 2 s) False 0
      else int16_digits s False 0)"

definition int16 :: "string \<Rightarrow> int option" where
  "int16 s =
     (let s = strip_chars [CHR '' '', CHR 0x09, CHR 0x0A, CHR 0x0B, CHR 0x0C, CHR 0x0D] s
      in if take 1 s = ''-'' then map_option uminus (int16_unsigned (drop 1 s))
         else if take 1 s = ''+'' then int16_unsigned (drop 1 s)
         else int16_unsigned s)"

definition UUID :: "string \<Rightarrow> int res" where
  "UUID value =
     (let h = remove_sub ''uuid:'' (remove_sub ''urn:'' value);
          h = remove_sub ''-'' (strip_chars ''{}'' h)
      in if length h \<noteq> 32 then Inl (ValueError ''badly formed hexadecimal UUID string'')
         else case int16 h of
                None \<Rightarrow> Inl (ValueError ''invalid literal for int() with base 16'')
              | Some n \<Rightarrow> if 0 \<le> n \<and> n < 2 ^ 128 then Inr n
                  else Inl (ValueError ''int is out of range (need a 128-bit value)''))"

text \<open>\<^verbatim>\<open>UUID.version\<close> is only defined for the RFC 4122 variant.\<close>

definition uuid_version :: "int \<Rightarrow> int option" where
  "uuid_version n =
     (if n AND push_bit 48 0x8000 \<noteq> 0 \<and> n AND push_bit 48 0x4000 = 0
      then Some (drop_bit 76 n AND 0xf) else None)"

text \<open>\<^verbatim>\<open>'%032x' % n\<close> of a number below \<open>2 ^ 128\<close>.\<close>

definition uuid_hex :: "int \<Rightarrow> string" where
  "uuid_hex n = map (\<lambda>i. hex_digit (n div 16 ^ (31 - i) mod 16)) [0..<32]"

definition validate_lifecycle_id :: "string \<Rightarrow> string res" where
  "validate_lifecycle_id value =
     (let message = ValueError ''TokenCake lifecycle_id must be tc- followed by canonical UUID4 hex''
      in if length value \<noteq> 35 \<or> take 3 value \<noteq> ''tc-'' then Inl message
         else case UUID (drop 3 value) of
                Inl _ \<Rightarrow> Inl message
              | Inr n \<Rightarrow> if uuid_version n \<noteq> Some 4 \<or> uuid_hex n \<noteq> drop 3 value then Inl message
                         else Inr value)"

section \<open>Metadata\<close>

record metadata =
  lifecycle_id :: string
  agent_type :: string
  agent_name :: string
  importance :: real
  depth :: int
  in_degree :: int
  out_degree :: int
  similarity :: real
  application_started_at_s :: real
  application_start_offset_s :: real
  application_elapsed_s :: real
  application_max_depth :: int
  remaining_depth :: int
  critical_path :: bool
  near_completion :: bool
  join_group :: string
  dependency_depth :: int
  fanout_width :: int
  memory_weight :: real
  offload_eligible :: bool
  reusable_prefix :: bool
  model_fields_set :: "string list"

record pydantic =
  pd_str :: "pyval \<Rightarrow> string option"
  pd_int :: "pyval \<Rightarrow> int option"
  pd_float :: "pyval \<Rightarrow> real option"
  pd_bool :: "pyval \<Rightarrow> bool option"
  pd_dump :: "metadata \<Rightarrow> (string, pyval) dict"

definition validation_error :: py_error where
  "validation_error = ValueError ''validation error for TokenCakeMetadata''"

text \<open>A field: its default when absent, else the typed value, which must satisfy the bound.\<close>

definition field_or :: "(pyval \<Rightarrow> 'a option) \<Rightarrow> ('a \<Rightarrow> bool) \<Rightarrow> 'a \<Rightarrow> (string, pyval) dict \<Rightarrow> string \<Rightarrow> 'a res" where
  "field_or typ bound dflt d name =
     (case map_of d name of
        None \<Rightarrow> Inr dflt
      | Some v \<Rightarrow> (case typ v of None \<Rightarrow> Inl validation_error
          | Some x \<Rightarrow> if bound x then Inr x else Inl validation_error))"

definition validate_depths :: "metadata \<Rightarrow> metadata res" where
  "validate_depths md =
     (if ''application_max_depth'' \<in> set (model_fields_set md)
      then if depth md > application_max_depth md then Inl (ValueError ''TokenCake depth exceeds application_max_depth'')
           else if remaining_depth md > application_max_depth md
           then Inl (ValueError ''TokenCake remaining_depth exceeds application_max_depth'')
           else Inr md
      else Inr md)"

definition model_validate :: "pydantic \<Rightarrow> (string, pyval) dict \<Rightarrow> metadata res" where
  "model_validate pd d =
     rbind (case map_of d ''lifecycle_id'' of None \<Rightarrow> Inl validation_error
            | Some v \<Rightarrow> (case pd_str pd v of None \<Rightarrow> Inl validation_error | Some s \<Rightarrow> validate_lifecycle_id s)) (\<lambda>lid.
     rbind (field_or (pd_str pd) (\<lambda>_. True) '''' d ''agent_type'') (\<lambda>atype.
     rbind (field_or (pd_str pd) (\<lambda>_. True) '''' d ''agent_name'') (\<lambda>aname.
     rbind (field_or (pd_float pd) (\<lambda>x. x \<ge> 0) 0 d ''importance'') (\<lambda>imp.
     rbind (field_or (pd_int pd) (\<lambda>x. x \<ge> 0) 0 d ''depth'') (\<lambda>dep.
     rbind (field_or (pd_int pd) (\<lambda>x. x \<ge> 0) 0 d ''in_degree'') (\<lambda>ind.
     rbind (field_or (pd_int pd) (\<lambda>x. x \<ge> 0) 0 d ''out_degree'') (\<lambda>outd.
     rbind (field_or (pd_float pd) (\<lambda>x. x \<ge> 0 \<and> x \<le> 1) 0 d ''similarity'') (\<lambda>sim.
     rbind (field_or (pd_float pd) (\<lambda>x. x \<ge> 0) 0 d ''application_started_at_s'') (\<lambda>started.
     rbind (field_or (pd_float pd) (\<lambda>x. x \<ge> 0) 0 d ''application_start_offset_s'') (\<lambda>offset.
     rbind (field_or (pd_float pd) (\<lambda>x. x \<ge> 0) 0 d ''application_elapsed_s'') (\<lambda>elapsed.
     rbind (field_or (pd_int pd) (\<lambda>x. x \<ge> 0) 0 d ''application_max_depth'') (\<lambda>maxd.
     rbind (field_or (pd_int pd) (\<lambda>x. x \<ge> 0) 0 d ''remaining_depth'') (\<lambda>remd.
     rbind (field_or (pd_bool pd) (\<lambda>_. True) False d ''critical_path'') (\<lambda>crit.
     rbind (field_or (pd_bool pd) (\<lambda>_. True) False d ''near_completion'') (\<lambda>near.
     rbind (field_or (pd_str pd) (\<lambda>_. True) '''' d ''join_group'') (\<lambda>join.
     rbind (field_or (pd_int pd) (\<lambda>x. x \<ge> 0) 0 d ''dependency_depth'') (\<lambda>depd.
     rbind (field_or (pd_int pd) (\<lambda>x. x \<ge> 1) 1 d ''fanout_width'') (\<lambda>fanout.
     rbind (field_or (pd_float pd) (\<lambda>x. x \<ge> 0) 1 d ''memory_weight'') (\<lambda>weight.
     rbind (field_or (pd_bool pd) (\<lambda>_. True) False d ''offload_eligible'') (\<lambda>elig.
     rbind (field_or (pd_bool pd) (\<lambda>_. True) False d ''reusable_prefix'') (\<lambda>reus.
     validate_depths
       \<lparr>lifecycle_id = lid, agent_type = atype, agent_name = aname, importance = imp, depth = dep, in_degree = ind,
        out_degree = outd, similarity = sim, application_started_at_s = started, application_start_offset_s = offset,
        application_elapsed_s = elapsed, application_max_depth = maxd, remaining_depth = remd, critical_path = crit,
        near_completion = near, join_group = join, dependency_depth = depd, fanout_width = fanout,
        memory_weight = weight, offload_eligible = elig, reusable_prefix = reus,
        model_fields_set = map fst d\<rparr>)))))))))))))))))))))"

definition metadata_from_extra_args :: "pydantic \<Rightarrow> (string, pyval) dict option \<Rightarrow> metadata option res" where
  "metadata_from_extra_args pd extra_args =
     (case extra_args of
        None \<Rightarrow> Inr None
      | Some args \<Rightarrow>
          (case map_of args ''tokencake'' of
             None \<Rightarrow> Inr None
           | Some (PDict value) \<Rightarrow> rbind (model_validate pd value) (\<lambda>md. Inr (Some md))
           | Some _ \<Rightarrow> Inl (ValueError ''vllm_xargs['tokencake'] must be an object'')))"

text \<open>The result is the dictionary after the call, which the code updates in place.\<close>

definition validate_request_metadata :: "pydantic \<Rightarrow> (string, pyval) dict option \<Rightarrow> string \<Rightarrow> int option \<Rightarrow> bool
    \<Rightarrow> (string, pyval) dict option res" where
  "validate_request_metadata pd extra_args request_id n use_beam_search =
     rbind (metadata_from_extra_args pd extra_args) (\<lambda>md.
       case md of
         None \<Rightarrow> Inr extra_args
       | Some md \<Rightarrow>
           if lifecycle_id md \<noteq> request_id
           then Inl (ValueError ''TokenCake lifecycle_id must match the top-level request_id'')
           else if n \<notin> {None, Some 1} \<or> use_beam_search
           then Inl (ValueError ''TokenCake metadata requires exactly one EngineCore generation'')
           else (case extra_args of
                   None \<Rightarrow> Inl AssertionError
                 | Some args \<Rightarrow> Inr (Some (dict_set ''tokencake'' (PDict (pd_dump pd md)) args))))"

definition validate_generation_count :: "(string, pyval) dict option \<Rightarrow> int \<Rightarrow> bool \<Rightarrow> unit res" where
  "validate_generation_count extra_args cnt builtin_tools =
     (case extra_args of
        None \<Rightarrow> Inr ()
      | Some args \<Rightarrow> if has_key args ''tokencake'' \<and> (cnt \<noteq> 1 \<or> builtin_tools)
          then Inl (ValueError ''TokenCake metadata requires exactly one EngineCore generation'')
          else Inr ())"

section \<open>Lifecycle messages\<close>

datatype event_name = StallStartedEvent | StallFinishedEvent

fun event_str :: "event_name \<Rightarrow> string" where
  "event_str StallStartedEvent = ''stall_started''"
| "event_str StallFinishedEvent = ''stall_finished''"

datatype disposition = Applied | Duplicate | LateFinish | Unknown | Conflict | Unavailable

fun disposition_str :: "disposition \<Rightarrow> string" where
  "disposition_str Applied = ''applied''"
| "disposition_str Duplicate = ''duplicate''"
| "disposition_str LateFinish = ''late_finish''"
| "disposition_str Unknown = ''unknown''"
| "disposition_str Conflict = ''conflict''"
| "disposition_str Unavailable = ''unavailable''"

datatype event_body =
    StallStarted string string "real option"
  | StallFinished string

record lifecycle_event =
  le_event :: event_name
  le_lifecycle_id :: string
  le_kind :: string
  le_estimated_duration_s :: "real option"

record lifecycle_event_result =
  ler_lifecycle_id :: string
  ler_event :: event_name
  ler_state :: string
  ler_disposition :: disposition
  ler_status_code :: int

definition required_id :: "pydantic \<Rightarrow> (string, pyval) dict \<Rightarrow> string res" where
  "required_id pd d = (case map_of d ''lifecycle_id'' of
     None \<Rightarrow> Inl validation_error
   | Some v \<Rightarrow> (case pd_str pd v of None \<Rightarrow> Inl validation_error | Some s \<Rightarrow> validate_lifecycle_id s))"

text \<open>\<^verbatim>\<open>reject_null_estimate\<close> runs before the type check, and only on a supplied value.\<close>

definition stall_started :: "pydantic \<Rightarrow> (string, pyval) dict \<Rightarrow> event_body res" where
  "stall_started pd d =
     (if \<not> set (map fst d) \<subseteq> {''event'', ''lifecycle_id'', ''kind'', ''estimated_duration_s''} then Inl validation_error
      else rbind (required_id pd d) (\<lambda>lid.
           rbind (field_or (pd_str pd) (\<lambda>s. length s \<ge> 1) ''stall'' d ''kind'') (\<lambda>kind.
           if map_of d ''estimated_duration_s'' = Some PNone
           then Inl (ValueError ''estimated_duration_s must be a positive number'')
           else rbind (field_or (map_option Some \<circ> pd_float pd) (\<lambda>x. case x of None \<Rightarrow> True | Some x \<Rightarrow> x > 0)
                         None d ''estimated_duration_s'')
             (\<lambda>est. Inr (StallStarted lid kind est)))))"

definition stall_finished :: "pydantic \<Rightarrow> (string, pyval) dict \<Rightarrow> event_body res" where
  "stall_finished pd d =
     (if \<not> set (map fst d) \<subseteq> {''event'', ''lifecycle_id''} then Inl validation_error
      else rbind (required_id pd d) (\<lambda>lid. Inr (StallFinished lid)))"

text \<open>The handler of \<^verbatim>\<open>POST /v1/tokencake/events\<close>: what the engine client does with the message is a parameter.\<close>

datatype engine_reply =
    EngineResult lifecycle_event_result
  | EngineDead
  | EngineTimeout
  | EngineNotImplemented
  | EngineFailure

datatype http_reply =
    HttpError int string
  | HttpJson int "(string, string) dict"

definition event_message :: "event_body \<Rightarrow> lifecycle_event" where
  "event_message b = (case b of
     StallStarted lid kind est \<Rightarrow> \<lparr>le_event = StallStartedEvent, le_lifecycle_id = lid, le_kind = kind,
       le_estimated_duration_s = est\<rparr>
   | StallFinished lid \<Rightarrow> \<lparr>le_event = StallFinishedEvent, le_lifecycle_id = lid, le_kind = ''stall'',
       le_estimated_duration_s = None\<rparr>)"

definition tokencake_event :: "(lifecycle_event \<Rightarrow> engine_reply) option \<Rightarrow> bool option \<Rightarrow> event_body \<Rightarrow> http_reply" where
  "tokencake_event client offload_enabled body =
     (case (client, offload_enabled) of
        (Some send, Some True) \<Rightarrow>
          (case send (event_message body) of
             EngineResult r \<Rightarrow> HttpJson (ler_status_code r)
               [(''lifecycle_id'', ler_lifecycle_id r), (''event'', event_str (ler_event r)), (''state'', ler_state r),
                (''disposition'', disposition_str (ler_disposition r))]
           | EngineFailure \<Rightarrow> HttpError 500 ''TokenCake event execution failed''
           | _ \<Rightarrow> HttpError 503 ''TokenCake offload is unavailable'')
      | _ \<Rightarrow> HttpError 503 ''TokenCake offload is unavailable'')"

section \<open>Canonical identifiers\<close>

definition lower_hex :: "char \<Rightarrow> bool" where
  "lower_hex c \<longleftrightarrow> c \<in> set ''0123456789abcdef''"

definition canonical_id :: "string \<Rightarrow> bool" where
  "canonical_id v \<longleftrightarrow> length v = 35 \<and> take 3 v = ''tc-'' \<and> list_all lower_hex (drop 3 v)
     \<and> v ! 15 = CHR ''4'' \<and> v ! 19 \<in> set ''89ab''"

lemma lower_hex_val:
  assumes "lower_hex c"
  shows "\<exists>d. hex_val c = Some d \<and> 0 \<le> d \<and> d < 16 \<and> hex_digit d = c"
  using assms by (auto simp: lower_hex_def hex_val_def hex_digit_def)

lemma lower_hex_digit: "0 \<le> d \<Longrightarrow> d < 16 \<Longrightarrow> lower_hex (hex_digit d)"
  unfolding lower_hex_def hex_digit_def by (rule nth_mem) simp

definition hexval :: "string \<Rightarrow> int" where
  "hexval = foldl (\<lambda>a c. 16 * a + the (hex_val c)) 0"

lemma hexval_snoc [simp]: "hexval (h @ [c]) = 16 * hexval h + the (hex_val c)" "hexval [] = 0"
  by (simp_all add: hexval_def)

lemma int16_digits_lower:
  "list_all lower_hex h \<Longrightarrow> h \<noteq> [] \<or> b \<Longrightarrow>
     int16_digits h b a = Some (foldl (\<lambda>a c. 16 * a + the (hex_val c)) a h)"
proof (induction h arbitrary: b a)
  case (Cons c h)
  obtain d where "hex_val c = Some d" using lower_hex_val Cons.prems by auto
  moreover have "c \<noteq> CHR ''_''" using Cons.prems by (auto simp: lower_hex_def)
  ultimately show ?case using Cons by simp
qed simp

lemma hexval_bounds: "list_all lower_hex h \<Longrightarrow> 0 \<le> hexval h \<and> hexval h < 16 ^ length h"
proof (induction h rule: rev_induct)
  case (snoc c h)
  then obtain d where "hex_val c = Some d" "0 \<le> d" "d < 16" using lower_hex_val by force
  then show ?case using snoc by simp
qed simp

lemma hexval_digits:
  assumes "list_all lower_hex h" and "i < length h"
  shows "hex_digit (hexval h div 16 ^ (length h - 1 - i) mod 16) = h ! i"
  using assms
proof (induction h arbitrary: i rule: rev_induct)
  case (snoc c h)
  then obtain d where d: "hex_val c = Some d" "0 \<le> d" "d < 16" "hex_digit d = c" using lower_hex_val by force
  show ?case
  proof (cases "i = length h")
    case True
    then show ?thesis using d by simp
  next
    case False
    then have i: "i < length h" using snoc.prems by simp
    then have "length (h @ [c]) - 1 - i = Suc (length h - 1 - i)" by simp
    moreover have "(16 * hexval h + d) div (16 * 16 ^ (length h - 1 - i)) = hexval h div 16 ^ (length h - 1 - i)"
      using d by (simp add: zdiv_zmult2_eq)
    ultimately show ?thesis using snoc i d by (simp add: nth_append)
  qed
qed simp

lemma uuid_hex_hexval:
  assumes "list_all lower_hex h" and "length h = 32"
  shows "uuid_hex (hexval h) = h"
  using hexval_digits[OF assms(1)] assms(2) by (intro nth_equalityI) (simp_all add: uuid_hex_def)

lemma uuid_hex_lower: "list_all lower_hex (uuid_hex n)" "length (uuid_hex n) = 32"
  by (simp_all add: uuid_hex_def list_all_iff lower_hex_digit)

lemma uuid_hex_nth: "i < 32 \<Longrightarrow> uuid_hex n ! i = hex_digit (n div 16 ^ (31 - i) mod 16)"
  by (simp add: uuid_hex_def)

lemma take_foreign: "c \<in> set p \<Longrightarrow> c \<notin> set s \<Longrightarrow> take n s \<noteq> p"
  by (metis in_set_takeD)

lemma remove_sub_id:
  assumes "c \<in> set p" and "c \<notin> set s"
  shows "remove_sub p s = s"
  using assms(2)
proof (induction s)
  case Nil
  then show ?case by (simp add: remove_sub.simps)
next
  case (Cons x s)
  have "take (length p) (x # s) \<noteq> p" using assms(1) Cons.prems by (rule take_foreign)
  then show ?case using Cons by (subst remove_sub.simps) simp
qed

lemma strip_chars_id:
  assumes "set cs \<inter> set s = {}"
  shows "strip_chars cs s = s"
proof -
  have "dropWhile (\<lambda>c. c \<in> set cs) t = t" if "set t = set s" for t
    using that assms by (cases t) auto
  then show ?thesis by (simp add: strip_chars_def)
qed

lemma int16_lower:
  assumes l: "list_all lower_hex h" and n: "h \<noteq> []"
  shows "int16 h = Some (hexval h)"
proof -
  have no: "c \<notin> set h" if "\<not> lower_hex c" for c using l that by (auto simp: list_all_iff)
  have "strip_chars [CHR '' '', CHR 0x09, CHR 0x0A, CHR 0x0B, CHR 0x0C, CHR 0x0D] h = h"
    by (rule strip_chars_id) (auto simp: no lower_hex_def)
  moreover have "take 1 h \<noteq> ''-''" by (rule take_foreign[of "CHR ''-''"]) (simp_all add: no lower_hex_def)
  moreover have "take 1 h \<noteq> ''+''" by (rule take_foreign[of "CHR ''+''"]) (simp_all add: no lower_hex_def)
  moreover have "take 2 h \<noteq> ''0x''" by (rule take_foreign[of "CHR ''x''"]) (simp_all add: no lower_hex_def)
  moreover have "take 2 h \<noteq> ''0X''" by (rule take_foreign[of "CHR ''X''"]) (simp_all add: no lower_hex_def)
  ultimately show ?thesis
    using int16_digits_lower[OF l, of False 0] n by (simp add: int16_def int16_unsigned_def hexval_def)
qed

lemma UUID_lower:
  assumes l: "list_all lower_hex h" and n: "length h = 32"
  shows "UUID h = Inr (hexval h)"
proof -
  have no: "c \<notin> set h" if "\<not> lower_hex c" for c using l that by (auto simp: list_all_iff)
  have c: "CHR '':'' \<notin> set h" "CHR ''-'' \<notin> set h" "CHR ''{'' \<notin> set h" "CHR ''}'' \<notin> set h"
    by (rule no; simp add: lower_hex_def)+
  have "remove_sub ''urn:'' h = h" "remove_sub ''uuid:'' h = h" "remove_sub ''-'' h = h"
    using c remove_sub_id[of "CHR '':''" _ h] remove_sub_id[of "CHR ''-''" _ h] by simp_all
  moreover have "strip_chars ''{}'' h = h" by (rule strip_chars_id) (use c in auto)
  moreover have "int16 h = Some (hexval h)" using int16_lower[OF l] n by force
  ultimately show ?thesis using n hexval_bounds[OF l] by (simp add: UUID_def)
qed

lemma odd_even_nibble: "odd ((d::int) div 8) \<and> even (d div 4) \<longleftrightarrow> d mod 16 \<in> {8..11}"
proof -
  define k where "k = d div 16"
  define r where "r = d mod 16"
  have d: "d = 8 * (2 * k) + r" "d = 4 * (4 * k) + r" by (simp_all add: k_def r_def)
  have "d div 8 = 2 * k + r div 8" "d div 4 = 4 * k + r div 4" by (subst d(1), simp) (subst d(2), simp)
  then have "odd (d div 8) \<longleftrightarrow> odd (r div 8)" "even (d div 4) \<longleftrightarrow> even (r div 4)" by simp_all
  moreover have "r \<in> set [0..15]" by (simp add: r_def)
  then have "odd (r div 8) \<and> even (r div 4) \<longleftrightarrow> r \<in> {8..11}" by (auto simp: upto_rec1)
  ultimately show ?thesis unfolding r_def by blast
qed

lemma uuid_version_eq:
  "uuid_version n = (if n div 16 ^ 15 mod 16 \<in> {8..11} then Some (n div 16 ^ 19 mod 16) else None)"
proof -
  define d where "d = n div 2 ^ 60"
  have p: "push_bit 48 (0x8000::int) = 2 ^ 63" "push_bit 48 (0x4000::int) = 2 ^ 62"
    by (simp_all add: push_bit_eq_mult)
  have "n div 2 ^ 63 = d div 8" "n div 2 ^ 62 = d div 4"
    using zdiv_zmult2_eq[of 8 n "2 ^ 60"] zdiv_zmult2_eq[of 4 n "2 ^ 60"] by (simp_all add: d_def)
  then have b: "n AND push_bit 48 0x8000 \<noteq> 0 \<longleftrightarrow> odd (d div 8)" "n AND push_bit 48 0x4000 = 0 \<longleftrightarrow> even (d div 4)"
    unfolding p and_exp_eq_0_iff_not_bit bit_iff_odd by simp_all
  have m: "(15::int) = mask 4" by (simp add: mask_eq_exp_minus_1)
  have "drop_bit 76 n AND 0xf = n div 2 ^ 76 mod 16"
    unfolding m by (simp only: take_bit_eq_mask[symmetric] take_bit_eq_mod drop_bit_eq_div) simp
  moreover have "(16::int) ^ 15 = 2 ^ 60" "(16::int) ^ 19 = 2 ^ 76" by simp_all
  ultimately show ?thesis unfolding uuid_version_def b odd_even_nibble d_def by (simp only:)
qed

lemma nibble_cases:
  assumes "0 \<le> (d::int)" and "d < 16"
  shows "d \<in> {0,1,2,3,4,5,6,7,8,9,10,11,12,13,14,15}"
proof -
  have "d \<in> set [0..15]" using assms by simp
  then show ?thesis by (simp add: upto_rec1)
qed

lemma digit_four: "0 \<le> d \<Longrightarrow> d < 16 \<Longrightarrow> hex_digit d = CHR ''4'' \<longleftrightarrow> d = 4"
  by (drule (1) nibble_cases) (auto simp: hex_digit_def)

lemma digit_variant: "0 \<le> d \<Longrightarrow> d < 16 \<Longrightarrow> hex_digit d \<in> set ''89ab'' \<longleftrightarrow> d \<in> {8..11}"
  by (drule (1) nibble_cases) (auto simp: hex_digit_def)

lemma validate_lifecycle_id_eq:
  "validate_lifecycle_id v = (if canonical_id v then Inr v
     else Inl (ValueError ''TokenCake lifecycle_id must be tc- followed by canonical UUID4 hex''))"
proof (cases "length v = 35 \<and> take 3 v = ''tc-'' \<and> list_all lower_hex (drop 3 v)")
  case True
  let ?h = "drop 3 v" and ?n = "hexval (drop 3 v)"
  have h: "list_all lower_hex ?h" "length ?h = 32" using True by simp_all
  have hx: "uuid_hex ?n = ?h" using h by (rule uuid_hex_hexval)
  have "?h ! 12 = hex_digit (?n div 16 ^ 19 mod 16)" "?h ! 16 = hex_digit (?n div 16 ^ 15 mod 16)"
    using uuid_hex_nth[of 12 ?n] uuid_hex_nth[of 16 ?n] unfolding hx by simp_all
  then have "uuid_version ?n = Some 4 \<longleftrightarrow> v ! 15 = CHR ''4'' \<and> v ! 19 \<in> set ''89ab''"
    unfolding uuid_version_eq using digit_four digit_variant True by (simp del: set_simps) 
  then show ?thesis
    using True UUID_lower[OF h] hx by (simp add: validate_lifecycle_id_def canonical_id_def Let_def)
next
  case False
  then show ?thesis
    by (auto simp: validate_lifecycle_id_def canonical_id_def Let_def split: sum.splits) (metis uuid_hex_lower(1))
qed

section \<open>Properties\<close>

text \<open>
  \<^bold>\<open>C32\<close> A lifecycle id is accepted exactly when it is \<^verbatim>\<open>tc-\<close> followed by 32 lower-case hexadecimal
  digits with version digit 4 and an RFC 4122 variant digit; anything else, however Python's
  permissive UUID parser would read it, is refused with the same message.
\<close>

theorem lifecycle_id_canonical:
  "validate_lifecycle_id v = (if canonical_id v then Inr v
     else Inl (ValueError ''TokenCake lifecycle_id must be tc- followed by canonical UUID4 hex''))"
  by (rule validate_lifecycle_id_eq)

definition metadata_ok :: "metadata \<Rightarrow> bool" where
  "metadata_ok md \<longleftrightarrow> canonical_id (lifecycle_id md) \<and> 0 \<le> importance md \<and> 0 \<le> depth md \<and> 0 \<le> in_degree md
     \<and> 0 \<le> out_degree md \<and> 0 \<le> similarity md \<and> similarity md \<le> 1 \<and> 0 \<le> application_started_at_s md
     \<and> 0 \<le> application_start_offset_s md \<and> 0 \<le> application_elapsed_s md \<and> 0 \<le> application_max_depth md
     \<and> 0 \<le> remaining_depth md \<and> 0 \<le> dependency_depth md \<and> 1 \<le> fanout_width md \<and> 0 \<le> memory_weight md
     \<and> (''application_max_depth'' \<in> set (model_fields_set md) \<longrightarrow>
          depth md \<le> application_max_depth md \<and> remaining_depth md \<le> application_max_depth md)"

lemma field_or_Inr: "field_or typ bound dflt d name = Inr x \<Longrightarrow> bound dflt \<Longrightarrow> bound x"
  by (auto simp: field_or_def split: option.splits if_splits)

lemma validate_depths_Inr:
  "validate_depths md = Inr md' \<longleftrightarrow> md' = md \<and> (''application_max_depth'' \<in> set (model_fields_set md) \<longrightarrow>
     depth md \<le> application_max_depth md \<and> remaining_depth md \<le> application_max_depth md)"
  by (auto simp: validate_depths_def)

lemma model_validate_ok:
  assumes "model_validate pd d = Inr md"
  shows "metadata_ok md"
  using assms unfolding model_validate_def rbind_eq_Inr validate_depths_Inr
  apply (elim exE conjE)
  apply (drule field_or_Inr, simp)+
  apply (simp add: metadata_ok_def validate_lifecycle_id_eq split: option.splits if_splits)
  done

text \<open>The strict readers of the documentation: no conversion but from int to float.\<close>

definition strict_pydantic :: pydantic where
  "strict_pydantic = \<lparr>pd_str = (\<lambda>v. case v of PStr s \<Rightarrow> Some s | _ \<Rightarrow> None),
     pd_int = (\<lambda>v. case v of PInt n \<Rightarrow> Some n | _ \<Rightarrow> None),
     pd_float = (\<lambda>v. case v of PFloat x \<Rightarrow> Some x | PInt n \<Rightarrow> Some (real_of_int n) | _ \<Rightarrow> None),
     pd_bool = (\<lambda>v. case v of PBool b \<Rightarrow> Some b | _ \<Rightarrow> None),
     pd_dump = (\<lambda>md. [(''lifecycle_id'', PStr (lifecycle_id md))])\<rparr>"

text \<open>
  \<^bold>\<open>C33\<close> A request that carries TokenCake metadata passes validation exactly when the metadata is an
  object that validates, its lifecycle id is the request id, and one generation without beam search
  is asked for; what the rest of the system then reads satisfies every declared bound, and only the
  metadata entry of the arguments has been rewritten.
\<close>

theorem request_metadata_accepted:
  assumes "has_key args ''tokencake''"
  shows "validate_request_metadata pd (Some args) request_id n beam = Inr args' \<longleftrightarrow>
    (\<exists>d md. map_of args ''tokencake'' = Some (PDict d) \<and> model_validate pd d = Inr md \<and> metadata_ok md
       \<and> lifecycle_id md = request_id \<and> n \<in> {None, Some 1} \<and> \<not> beam
       \<and> args' = Some (dict_set ''tokencake'' (PDict (pd_dump pd md)) args))"
proof -
  obtain v where v: "map_of args ''tokencake'' = Some v" using assms by (auto simp: has_key_def)
  have "validate_request_metadata pd (Some args) request_id n beam = Inr args' \<longleftrightarrow>
    (\<exists>d md. v = PDict d \<and> model_validate pd d = Inr md
       \<and> lifecycle_id md = request_id \<and> n \<in> {None, Some 1} \<and> \<not> beam
       \<and> args' = Some (dict_set ''tokencake'' (PDict (pd_dump pd md)) args))"
  proof (cases "\<exists>d. v = PDict d")
    case True
    then obtain d where d: "v = PDict d" by blast
    show ?thesis
      using v d by (cases "model_validate pd d") (auto simp: validate_request_metadata_def metadata_from_extra_args_def)
  next
    case False
    then show ?thesis using v
      by (simp add: validate_request_metadata_def metadata_from_extra_args_def split: pyval.splits)
  qed
  then show ?thesis unfolding v option.inject by (blast dest: model_validate_ok)
qed

theorem request_metadata_accepted_witness:
  "has_key [(''tokencake'', PDict [(''lifecycle_id'', PStr ''tc-00000000000040008000000000000000''), (''depth'', PInt 2)])] ''tokencake''
   \<and> (\<exists>args'. validate_request_metadata strict_pydantic
        (Some [(''tokencake'', PDict [(''lifecycle_id'', PStr ''tc-00000000000040008000000000000000''), (''depth'', PInt 2)])])
        ''tc-00000000000040008000000000000000'' (Some 1) False = Inr args')"
proof -
  let ?d = "[(''lifecycle_id'', PStr ''tc-00000000000040008000000000000000''), (''depth'', PInt 2)]"
  have "canonical_id ''tc-00000000000040008000000000000000''" by (simp add: canonical_id_def lower_hex_def)
  then have "\<exists>md. model_validate strict_pydantic ?d = Inr md \<and> lifecycle_id md = ''tc-00000000000040008000000000000000''"
    by (simp add: model_validate_def strict_pydantic_def validate_lifecycle_id_eq field_or_def validate_depths_def)
  then obtain md where md: "model_validate strict_pydantic ?d = Inr md" "lifecycle_id md = ''tc-00000000000040008000000000000000''"
    by blast
  have k: "has_key [(''tokencake'', PDict ?d)] ''tokencake''" by (simp add: has_key_def)
  show ?thesis
    using request_metadata_accepted[OF k, of strict_pydantic "''tc-00000000000040008000000000000000''" "Some 1" False] md
      model_validate_ok[OF md(1)] k by simp
qed

end
