(* ===== verification/Config.thy ===== *)
theory Config
  imports Protocol
begin

text \<open>
  The settings of \<^verbatim>\<open>vllm/tokencake/config.py\<close>: the four configuration classes with their defaults, bounds
  and validators, the parser of the \<^verbatim>\<open>additional_config\<close> namespace and the check of the engine
  configuration. How pydantic reads a typed field is the parameter \<open>pydantic\<close> of theory \<open>Protocol\<close>;
  an unknown field is refused, as \<^verbatim>\<open>vllm.config.utils.config\<close> sets up.
\<close>

section \<open>Definitions\<close>

record scheduling_config =
  s_enabled :: bool
  reserve_generation_tokens :: bool
  generation_reserve_mode :: string
  decode_prefill_token_budget :: int
  cache_affinity_score_band :: int
  inherit_join_priority :: bool
  priority_borrow_score_margin :: int
  s_temporal_selection :: string
  critical_ratio :: real
  reserve_ratio_min :: real
  reserve_ratio_max :: real
  gpu_usage_low :: real
  gpu_usage_high :: real
  reserve_adjustment_step :: real

definition s_validate_bounds :: "scheduling_config \<Rightarrow> scheduling_config res" where
  "s_validate_bounds c =
     (if reserve_ratio_min c > reserve_ratio_max c
      then Inl (ValueError ''tokencake reserve_ratio_min must not exceed reserve_ratio_max'')
      else if gpu_usage_low c \<ge> gpu_usage_high c
      then Inl (ValueError ''tokencake gpu_usage_low must be below gpu_usage_high'')
      else Inr c)"

abbreviation is_ratio :: "real \<Rightarrow> bool" where
  "is_ratio x \<equiv> 0 \<le> x \<and> x \<le> 1"

abbreviation is_positive_ratio :: "real \<Rightarrow> bool" where
  "is_positive_ratio x \<equiv> 0 < x \<and> x \<le> 1"

definition SchedulingConfig :: "pydantic \<Rightarrow> (string, pyval) dict \<Rightarrow> scheduling_config res" where
  "SchedulingConfig pd d =
     (if \<not> set (map fst d) \<subseteq> {''enabled'', ''reserve_generation_tokens'', ''generation_reserve_mode'',
         ''decode_prefill_token_budget'', ''cache_affinity_score_band'', ''inherit_join_priority'',
         ''priority_borrow_score_margin'', ''temporal_selection'', ''critical_ratio'', ''reserve_ratio_min'',
         ''reserve_ratio_max'', ''gpu_usage_low'', ''gpu_usage_high'', ''reserve_adjustment_step''}
      then Inl validation_error
      else
     rbind (field_or (pd_bool pd) (\<lambda>_. True) True d ''enabled'') (\<lambda>en.
     rbind (field_or (pd_bool pd) (\<lambda>_. True) True d ''reserve_generation_tokens'') (\<lambda>rgt.
     rbind (field_or (pd_str pd) (\<lambda>s. s \<in> {''all'', ''progress'', ''reclaim''}) ''all'' d ''generation_reserve_mode'') (\<lambda>mode.
     rbind (field_or (pd_int pd) (\<lambda>n. n \<ge> 0) 0 d ''decode_prefill_token_budget'') (\<lambda>budget.
     rbind (field_or (pd_int pd) (\<lambda>n. n \<ge> 0) 500 d ''cache_affinity_score_band'') (\<lambda>band.
     rbind (field_or (pd_bool pd) (\<lambda>_. True) True d ''inherit_join_priority'') (\<lambda>inh.
     rbind (field_or (pd_int pd) (\<lambda>n. n \<ge> 0) 500 d ''priority_borrow_score_margin'') (\<lambda>margin.
     rbind (field_or (pd_str pd) (\<lambda>s. s \<in> {''first_fit'', ''best_fit'', ''priority_first''}) ''first_fit'' d ''temporal_selection'') (\<lambda>sel.
     rbind (field_or (pd_float pd) is_positive_ratio (75/100) d ''critical_ratio'') (\<lambda>crit.
     rbind (field_or (pd_float pd) is_ratio (5/100) d ''reserve_ratio_min'') (\<lambda>rmin.
     rbind (field_or (pd_float pd) is_ratio (30/100) d ''reserve_ratio_max'') (\<lambda>rmax.
     rbind (field_or (pd_float pd) is_ratio (40/100) d ''gpu_usage_low'') (\<lambda>low.
     rbind (field_or (pd_float pd) is_ratio (75/100) d ''gpu_usage_high'') (\<lambda>high.
     rbind (field_or (pd_float pd) is_positive_ratio (5/100) d ''reserve_adjustment_step'') (\<lambda>step.
       s_validate_bounds \<lparr>s_enabled = en, reserve_generation_tokens = rgt, generation_reserve_mode = mode,
         decode_prefill_token_budget = budget, cache_affinity_score_band = band, inherit_join_priority = inh,
         priority_borrow_score_margin = margin, s_temporal_selection = sel, critical_ratio = crit,
         reserve_ratio_min = rmin, reserve_ratio_max = rmax, gpu_usage_low = low, gpu_usage_high = high,
         reserve_adjustment_step = step\<rparr>)))))))))))))))"

record transfer_config =
  d2h_bandwidth_gbps :: real
  h2d_bandwidth_gbps :: real
  d2h_base_time_s :: real
  h2d_base_time_s :: real
  submission_time_per_run_s :: real

definition TransferConfig :: "pydantic \<Rightarrow> (string, pyval) dict \<Rightarrow> transfer_config res" where
  "TransferConfig pd d =
     (if \<not> set (map fst d) \<subseteq> {''d2h_bandwidth_gbps'', ''h2d_bandwidth_gbps'', ''d2h_base_time_s'',
         ''h2d_base_time_s'', ''submission_time_per_run_s''}
      then Inl validation_error
      else
     rbind (field_or (pd_float pd) (\<lambda>x. x > 0) 12 d ''d2h_bandwidth_gbps'') (\<lambda>db.
     rbind (field_or (pd_float pd) (\<lambda>x. x > 0) 12 d ''h2d_bandwidth_gbps'') (\<lambda>hb.
     rbind (field_or (pd_float pd) (\<lambda>x. x \<ge> 0) 0 d ''d2h_base_time_s'') (\<lambda>dt.
     rbind (field_or (pd_float pd) (\<lambda>x. x \<ge> 0) 0 d ''h2d_base_time_s'') (\<lambda>ht.
     rbind (field_or (pd_float pd) (\<lambda>x. x \<ge> 0) (3/1000000) d ''submission_time_per_run_s'') (\<lambda>sub.
       Inr \<lparr>d2h_bandwidth_gbps = db, h2d_bandwidth_gbps = hb, d2h_base_time_s = dt, h2d_base_time_s = ht,
            submission_time_per_run_s = sub\<rparr>))))))"

record offload_config =
  o_enabled :: bool
  min_gpu_usage :: real
  high_pressure_gpu_usage :: real
  score_threshold :: real
  backoff_steps :: int
  eviction_window_blocks :: int
  max_relief_blocks :: int
  default_stall_s :: real
  release_lead_s :: real
  ewma_alpha :: real
  transfer :: transfer_config

definition o_validate_bounds :: "offload_config \<Rightarrow> offload_config res" where
  "o_validate_bounds c =
     (if min_gpu_usage c \<ge> high_pressure_gpu_usage c
      then Inl (ValueError ''tokencake min_gpu_usage must be below high_pressure_gpu_usage'')
      else Inr c)"

text \<open>A nested section: absent means all defaults, otherwise it must be an object.\<close>

definition section_of :: "((string, pyval) dict \<Rightarrow> 'a res) \<Rightarrow> (string, pyval) dict \<Rightarrow> string \<Rightarrow> 'a res" where
  "section_of mk d name = (case map_of d name of
     None \<Rightarrow> mk [] | Some (PDict v) \<Rightarrow> mk v | Some _ \<Rightarrow> Inl validation_error)"

definition OffloadConfig :: "pydantic \<Rightarrow> (string, pyval) dict \<Rightarrow> offload_config res" where
  "OffloadConfig pd d =
     (if \<not> set (map fst d) \<subseteq> {''enabled'', ''min_gpu_usage'', ''high_pressure_gpu_usage'', ''score_threshold'',
         ''backoff_steps'', ''eviction_window_blocks'', ''max_relief_blocks'', ''default_stall_s'',
         ''release_lead_s'', ''ewma_alpha'', ''transfer''}
      then Inl validation_error
      else
     rbind (field_or (pd_bool pd) (\<lambda>_. True) True d ''enabled'') (\<lambda>en.
     rbind (field_or (pd_float pd) is_ratio (60/100) d ''min_gpu_usage'') (\<lambda>ming.
     rbind (field_or (pd_float pd) is_ratio (85/100) d ''high_pressure_gpu_usage'') (\<lambda>high.
     rbind (field_or (pd_float pd) (\<lambda>x. x \<ge> 0) 1 d ''score_threshold'') (\<lambda>thr.
     rbind (field_or (pd_int pd) (\<lambda>n. n \<ge> 0) 8 d ''backoff_steps'') (\<lambda>back.
     rbind (field_or (pd_int pd) (\<lambda>n. n > 0) 128 d ''eviction_window_blocks'') (\<lambda>win.
     rbind (field_or (pd_int pd) (\<lambda>n. n \<ge> 0) 0 d ''max_relief_blocks'') (\<lambda>relief.
     rbind (field_or (pd_float pd) (\<lambda>x. x > 0) 1 d ''default_stall_s'') (\<lambda>stall.
     rbind (field_or (pd_float pd) (\<lambda>x. x \<ge> 0) (10/100) d ''release_lead_s'') (\<lambda>lead.
     rbind (field_or (pd_float pd) is_positive_ratio (50/100) d ''ewma_alpha'') (\<lambda>alpha.
     rbind (section_of (TransferConfig pd) d ''transfer'') (\<lambda>tr.
       o_validate_bounds \<lparr>o_enabled = en, min_gpu_usage = ming, high_pressure_gpu_usage = high, score_threshold = thr,
         backoff_steps = back, eviction_window_blocks = win, max_relief_blocks = relief, default_stall_s = stall,
         release_lead_s = lead, ewma_alpha = alpha, transfer = tr\<rparr>))))))))))))"

record tokencake_config =
  scheduling :: scheduling_config
  offload :: offload_config

definition temporal_selection :: "tokencake_config \<Rightarrow> string" where
  "temporal_selection c = (if s_enabled (scheduling c) then s_temporal_selection (scheduling c) else ''first_fit'')"

definition TokenCakeConfig :: "pydantic \<Rightarrow> (string, pyval) dict \<Rightarrow> tokencake_config res" where
  "TokenCakeConfig pd d =
     (if \<not> set (map fst d) \<subseteq> {''scheduling'', ''offload''} then Inl validation_error
      else rbind (section_of (SchedulingConfig pd) d ''scheduling'') (\<lambda>s.
           rbind (section_of (OffloadConfig pd) d ''offload'') (\<lambda>off. Inr \<lparr>scheduling = s, offload = off\<rparr>)))"

definition disabled_with_tuning :: "pyval option \<Rightarrow> bool" where
  "disabled_with_tuning sec = (case sec of
     Some (PDict s) \<Rightarrow> map_of s ''enabled'' = Some (PBool False) \<and> (\<exists>k \<in> set (map fst s). k \<noteq> ''enabled'')
   | _ \<Rightarrow> False)"

definition parse_tokencake_config :: "pydantic \<Rightarrow> pyval \<Rightarrow> tokencake_config option res" where
  "parse_tokencake_config pd additional_config =
     (case additional_config of
        PDict args \<Rightarrow>
          (case map_of args ''tokencake'' of
             None \<Rightarrow> Inr None
           | Some (PDict value) \<Rightarrow>
               if \<exists>name \<in> set [''scheduling'', ''offload'']. disabled_with_tuning (map_of value name)
               then Inl (ValueError ''tokencake section is disabled but supplies tuning fields'')
               else rbind (TokenCakeConfig pd value) (\<lambda>c. Inr (Some c))
           | Some _ \<Rightarrow> Inl (ValueError ''additional_config['tokencake'] must be an object''))
      | _ \<Rightarrow> Inr None)"

datatype py_float = Finite real | NonFinite

record kv_transfer_config =
  kv_connector :: "string option"
  kv_connector_module_path :: "string option"
  kv_connector_extra_config :: "(string, pyval) dict"

record vllm_config =
  data_parallel_size :: int
  kv_offloading_size :: "py_float option"
  kv_offloading_backend :: string
  use_simple_kv_offload :: bool
  kv_transfer :: "kv_transfer_config option"

definition finite_positive :: "py_float option \<Rightarrow> bool" where
  "finite_positive c = (case c of Some (Finite x) \<Rightarrow> x > 0 | _ \<Rightarrow> False)"

definition validate_transfer :: "kv_transfer_config \<Rightarrow> unit res" where
  "validate_transfer t =
     (if kv_connector t \<notin> {None, Some ''OffloadingConnector'', Some ''TokenCakeConnector''}
      then Inl (ValueError ''TokenCake offload is incompatible with the configured connector'')
      else if kv_connector_module_path t \<noteq> None
      then Inl (ValueError ''TokenCake offload requires the registered native connector'')
      else if dict_get (kv_connector_extra_config t) ''spec_name'' (PStr ''CPUOffloadingSpec'') \<noteq> PStr ''CPUOffloadingSpec''
      then Inl (ValueError ''TokenCake offload requires the native CPUOffloadingSpec manager'')
      else Inr ())"

definition validate_prerequisites :: "vllm_config \<Rightarrow> tokencake_config \<Rightarrow> unit res" where
  "validate_prerequisites v c =
     (if \<not> (s_enabled (scheduling c) \<or> o_enabled (offload c)) then Inr ()
      else if data_parallel_size v > 1 then Inl (ValueError ''TokenCake requires data_parallel_size=1'')
      else if \<not> o_enabled (offload c) then Inr ()
      else if \<not> finite_positive (kv_offloading_size v)
      then Inl (ValueError ''TokenCake offload requires positive kv_offloading_size in GiB'')
      else if kv_offloading_backend v \<noteq> ''native''
      then Inl (ValueError ''TokenCake offload requires kv_offloading_backend native'')
      else if use_simple_kv_offload v
      then Inl (ValueError ''TokenCake requires OffloadingConnector; set VLLM_USE_SIMPLE_KV_OFFLOAD=0'')
      else case kv_transfer v of None \<Rightarrow> Inr () | Some t \<Rightarrow> validate_transfer t)"

section \<open>What a parsed configuration satisfies\<close>

definition scheduling_ok :: "scheduling_config \<Rightarrow> bool" where
  "scheduling_ok c \<longleftrightarrow> generation_reserve_mode c \<in> {''all'', ''progress'', ''reclaim''} \<and> 0 \<le> decode_prefill_token_budget c
     \<and> 0 \<le> cache_affinity_score_band c \<and> 0 \<le> priority_borrow_score_margin c
     \<and> s_temporal_selection c \<in> {''first_fit'', ''best_fit'', ''priority_first''}
     \<and> is_positive_ratio (critical_ratio c) \<and> 0 \<le> reserve_ratio_min c \<and> reserve_ratio_min c \<le> reserve_ratio_max c
     \<and> reserve_ratio_max c \<le> 1 \<and> 0 \<le> gpu_usage_low c \<and> gpu_usage_low c < gpu_usage_high c \<and> gpu_usage_high c \<le> 1
     \<and> is_positive_ratio (reserve_adjustment_step c)"

definition transfer_ok :: "transfer_config \<Rightarrow> bool" where
  "transfer_ok c \<longleftrightarrow> 0 < d2h_bandwidth_gbps c \<and> 0 < h2d_bandwidth_gbps c \<and> 0 \<le> d2h_base_time_s c
     \<and> 0 \<le> h2d_base_time_s c \<and> 0 \<le> submission_time_per_run_s c"

definition offload_ok :: "offload_config \<Rightarrow> bool" where
  "offload_ok c \<longleftrightarrow> 0 \<le> min_gpu_usage c \<and> min_gpu_usage c < high_pressure_gpu_usage c \<and> high_pressure_gpu_usage c \<le> 1
     \<and> 0 \<le> score_threshold c \<and> 0 \<le> backoff_steps c \<and> 0 < eviction_window_blocks c \<and> 0 \<le> max_relief_blocks c
     \<and> 0 < default_stall_s c \<and> 0 \<le> release_lead_s c \<and> is_positive_ratio (ewma_alpha c) \<and> transfer_ok (transfer c)"

lemma guard_Inr: "(if \<not> A then Inl e else x) = Inr y \<longleftrightarrow> A \<and> x = Inr y"
  by simp

lemma s_validate_bounds_Inr:
  "s_validate_bounds c = Inr c' \<longleftrightarrow> c' = c \<and> reserve_ratio_min c \<le> reserve_ratio_max c \<and> gpu_usage_low c < gpu_usage_high c"
  by (auto simp: s_validate_bounds_def)

lemma o_validate_bounds_Inr:
  "o_validate_bounds c = Inr c' \<longleftrightarrow> c' = c \<and> min_gpu_usage c < high_pressure_gpu_usage c"
  by (auto simp: o_validate_bounds_def)

lemma SchedulingConfig_ok:
  assumes "SchedulingConfig pd d = Inr c"
  shows "scheduling_ok c"
  using assms unfolding SchedulingConfig_def guard_Inr rbind_eq_Inr s_validate_bounds_Inr
  apply (elim exE conjE)
  apply (drule field_or_Inr, simp)+
  apply (simp add: scheduling_ok_def)
  done

lemma TransferConfig_ok:
  assumes "TransferConfig pd d = Inr c"
  shows "transfer_ok c"
  using assms unfolding TransferConfig_def guard_Inr rbind_eq_Inr sum.inject
  apply (elim exE conjE)
  apply (drule field_or_Inr, simp)+
  apply (auto simp: transfer_ok_def)
  done

lemma section_of_Inr: "section_of mk d name = Inr c \<Longrightarrow> \<exists>v. mk v = Inr c"
  by (auto simp: section_of_def split: option.splits pyval.splits)

lemma OffloadConfig_ok:
  assumes "OffloadConfig pd d = Inr c"
  shows "offload_ok c"
  using assms unfolding OffloadConfig_def guard_Inr rbind_eq_Inr o_validate_bounds_Inr
  apply (elim exE conjE)
  apply (drule field_or_Inr, simp)+
  apply (drule section_of_Inr, erule exE, drule TransferConfig_ok)
  apply (simp add: offload_ok_def)
  done

section \<open>Properties\<close>



end
