(* ===== verification/Metrics.thy ===== *)
theory Metrics
  imports Prelude
begin

text \<open>
  The counters of \<^verbatim>\<open>vllm/tokencake/metrics.py\<close>: the enumeration \<^verbatim>\<open>Metric\<close>, the counter object
  \<^verbatim>\<open>TokenCakeMetrics\<close> and the exporter \<^verbatim>\<open>TokenCakeProm\<close>. The Prometheus objects are outside the
  sources: the exporter is modelled by the calls it makes on them, in order.
\<close>

section \<open>Definitions\<close>

datatype (plugins only: code) metric =
    ASSOCIATED | COMPLETED | STARTED | FINISHED | ABORTED | ERROR | EXPIRED | RESET | DUPLICATE |
    LATE_FINISH | UNKNOWN | CONFLICT | NOT_ELIGIBLE | EMPTY | LOW_PRESSURE | NO_WAITING_DEMAND |
    BACKOFF | UNPROFITABLE | PREFIX_GAP | CPU_CAPACITY | SELECTED | STALE | EXTERNAL | FENCE_WAIT |
    TRANSFER_FAILURE | SAVED | DEFERRED | PREEMPTED | PREFILL_CAPPED | PHYSICAL_PREEMPTED |
    RESERVATION_PREEMPTED | RESERVATION_DENIED | PREFILL_CAPACITY_DENIED |
    GENERATION_CAPACITY_DENIED | GENERATION_PROGRESS_DEFERRED | RECLAIM_BENEFICIARY |
    RESUME_DEFERRED | ADMITTED | WORK_CONSERVING_ADMITTED | CACHE_AFFINITY_ADMITTED |
    JOIN_PRIORITY_ADMITTED | PRIORITY_BORROW_ADMITTED | CRITICAL_ADMITTED | CRITICAL_WAIT_GE_60S |
    CRITICAL_WAIT_GE_180S | EXECUTED_TOKENS | RECOMPUTED_TOKENS | GPU_HIT_TOKENS |
    GPU_SHARED_HIT_BLOCKS | GPU_EXCLUSIVE_HIT_BLOCKS | CPU_HIT_TOKENS | RESUME_GPU_HIT_TOKENS |
    RESUME_CPU_HIT_TOKENS

primrec metric_value :: "metric \<Rightarrow> string" where
  "metric_value ASSOCIATED = ''lifecycle.associated''"
| "metric_value COMPLETED = ''lifecycle.completed''"
| "metric_value STARTED = ''lifecycle.started''"
| "metric_value FINISHED = ''lifecycle.finished''"
| "metric_value ABORTED = ''lifecycle.aborted''"
| "metric_value ERROR = ''lifecycle.error''"
| "metric_value EXPIRED = ''lifecycle.expired''"
| "metric_value RESET = ''lifecycle.reset''"
| "metric_value DUPLICATE = ''lifecycle.duplicate''"
| "metric_value LATE_FINISH = ''lifecycle.late_finish''"
| "metric_value UNKNOWN = ''lifecycle.unknown''"
| "metric_value CONFLICT = ''lifecycle.conflict''"
| "metric_value NOT_ELIGIBLE = ''decision.not_eligible''"
| "metric_value EMPTY = ''decision.empty''"
| "metric_value LOW_PRESSURE = ''decision.low_pressure''"
| "metric_value NO_WAITING_DEMAND = ''decision.no_waiting_demand''"
| "metric_value BACKOFF = ''decision.backoff''"
| "metric_value UNPROFITABLE = ''decision.unprofitable''"
| "metric_value PREFIX_GAP = ''decision.prefix_gap''"
| "metric_value CPU_CAPACITY = ''decision.cpu_capacity''"
| "metric_value SELECTED = ''decision.selected''"
| "metric_value STALE = ''decision.stale_snapshot''"
| "metric_value EXTERNAL = ''decision.snapshot_external''"
| "metric_value FENCE_WAIT = ''decision.fence_wait''"
| "metric_value TRANSFER_FAILURE = ''decision.transfer_failure''"
| "metric_value SAVED = ''saved_blocks.completed''"
| "metric_value DEFERRED = ''scheduling.deferred''"
| "metric_value PREEMPTED = ''scheduling.preempted''"
| "metric_value PREFILL_CAPPED = ''scheduling.prefill_capped''"
| "metric_value PHYSICAL_PREEMPTED = ''scheduling.physical_preempted''"
| "metric_value RESERVATION_PREEMPTED = ''scheduling.reservation_preempted''"
| "metric_value RESERVATION_DENIED = ''scheduling.reservation_denied''"
| "metric_value PREFILL_CAPACITY_DENIED = ''scheduling.prefill_capacity_denied''"
| "metric_value GENERATION_CAPACITY_DENIED = ''scheduling.generation_capacity_denied''"
| "metric_value GENERATION_PROGRESS_DEFERRED = ''scheduling.generation_progress_deferred''"
| "metric_value RECLAIM_BENEFICIARY = ''scheduling.reclaim_beneficiary''"
| "metric_value RESUME_DEFERRED = ''scheduling.resume_deferred''"
| "metric_value ADMITTED = ''scheduling.admitted''"
| "metric_value WORK_CONSERVING_ADMITTED = ''scheduling.work_conserving_admitted''"
| "metric_value CACHE_AFFINITY_ADMITTED = ''scheduling.cache_affinity_admitted''"
| "metric_value JOIN_PRIORITY_ADMITTED = ''scheduling.join_priority_admitted''"
| "metric_value PRIORITY_BORROW_ADMITTED = ''scheduling.priority_borrow_admitted''"
| "metric_value CRITICAL_ADMITTED = ''scheduling.critical_admitted''"
| "metric_value CRITICAL_WAIT_GE_60S = ''scheduling.critical_wait_ge_60s''"
| "metric_value CRITICAL_WAIT_GE_180S = ''scheduling.critical_wait_ge_180s''"
| "metric_value EXECUTED_TOKENS = ''scheduling.executed_tokens''"
| "metric_value RECOMPUTED_TOKENS = ''scheduling.recomputed_tokens''"
| "metric_value GPU_HIT_TOKENS = ''scheduling.gpu_hit_tokens''"
| "metric_value GPU_SHARED_HIT_BLOCKS = ''scheduling.gpu_shared_hit_blocks''"
| "metric_value GPU_EXCLUSIVE_HIT_BLOCKS = ''scheduling.gpu_exclusive_hit_blocks''"
| "metric_value CPU_HIT_TOKENS = ''scheduling.cpu_hit_tokens''"
| "metric_value RESUME_GPU_HIT_TOKENS = ''scheduling.resume_gpu_hit_tokens''"
| "metric_value RESUME_CPU_HIT_TOKENS = ''scheduling.resume_cpu_hit_tokens''"

text \<open>The members in the order of the class body, which is the order of iteration.\<close>

definition all_metrics :: "metric list" where
  "all_metrics =
    [ASSOCIATED, COMPLETED, STARTED, FINISHED, ABORTED, ERROR, EXPIRED, RESET, DUPLICATE,
     LATE_FINISH, UNKNOWN, CONFLICT, NOT_ELIGIBLE, EMPTY, LOW_PRESSURE, NO_WAITING_DEMAND, BACKOFF,
     UNPROFITABLE, PREFIX_GAP, CPU_CAPACITY, SELECTED, STALE, EXTERNAL, FENCE_WAIT,
     TRANSFER_FAILURE, SAVED, DEFERRED, PREEMPTED, PREFILL_CAPPED, PHYSICAL_PREEMPTED,
     RESERVATION_PREEMPTED, RESERVATION_DENIED, PREFILL_CAPACITY_DENIED,
     GENERATION_CAPACITY_DENIED, GENERATION_PROGRESS_DEFERRED, RECLAIM_BENEFICIARY,
     RESUME_DEFERRED, ADMITTED, WORK_CONSERVING_ADMITTED, CACHE_AFFINITY_ADMITTED,
     JOIN_PRIORITY_ADMITTED, PRIORITY_BORROW_ADMITTED, CRITICAL_ADMITTED, CRITICAL_WAIT_GE_60S,
     CRITICAL_WAIT_GE_180S, EXECUTED_TOKENS, RECOMPUTED_TOKENS, GPU_HIT_TOKENS,
     GPU_SHARED_HIT_BLOCKS, GPU_EXCLUSIVE_HIT_BLOCKS, CPU_HIT_TOKENS, RESUME_GPU_HIT_TOKENS,
     RESUME_CPU_HIT_TOKENS]"

text \<open>\<^verbatim>\<open>Metric(value)\<close> finds the member by its value.\<close>

definition metric_of :: "string \<Rightarrow> metric res" where
  "metric_of v = (case find (\<lambda>m. metric_value m = v) all_metrics of
     None \<Rightarrow> Inl (ValueError ''not a valid Metric'') | Some m \<Rightarrow> Inr m)"

record tokencake_metrics =
  counters :: "metric \<Rightarrow> int"
  max_critical_wait_ms :: int
  max_critical_growth_wait_ms :: int

definition TokenCakeMetrics :: tokencake_metrics where
  "TokenCakeMetrics = \<lparr>counters = (\<lambda>_. 0), max_critical_wait_ms = 0, max_critical_growth_wait_ms = 0\<rparr>"

definition growth_wait :: "real \<Rightarrow> tokencake_metrics \<Rightarrow> tokencake_metrics" where
  "growth_wait seconds m = m\<lparr>max_critical_growth_wait_ms :=
     max (max_critical_growth_wait_ms m) (py_int (seconds * 1000))\<rparr>"

definition count_by :: "metric \<Rightarrow> int \<Rightarrow> tokencake_metrics \<Rightarrow> tokencake_metrics res" where
  "count_by k amount m = rbind (py_assert (amount \<ge> 0))
     (\<lambda>_. Inr (m\<lparr>counters := (counters m)(k := counters m k + amount)\<rparr>))"

text \<open>The call with the default amount 1, whose assertion holds.\<close>

definition count :: "metric \<Rightarrow> tokencake_metrics \<Rightarrow> tokencake_metrics" where
  "count k m = m\<lparr>counters := (counters m)(k := counters m k + 1)\<rparr>"

definition admission_wait :: "real \<Rightarrow> bool \<Rightarrow> tokencake_metrics \<Rightarrow> tokencake_metrics" where
  "admission_wait seconds critical m =
     (let m = count ADMITTED m
      in if critical
         then let m = count CRITICAL_ADMITTED m;
                  m = m\<lparr>max_critical_wait_ms := max (max_critical_wait_ms m) (py_int (seconds * 1000))\<rparr>;
                  m = (if seconds \<ge> 60 then count CRITICAL_WAIT_GE_60S m else m)
              in if seconds \<ge> 180 then count CRITICAL_WAIT_GE_180S m else m
         else m)"

definition snapshot :: "int \<Rightarrow> tokencake_metrics \<Rightarrow> (string, int) dict" where
  "snapshot active m =
     fold (\<lambda>(k, v). dict_set k v)
       [(''active'', active), (''max_critical_wait_ms'', max_critical_wait_ms m),
        (''max_critical_growth_wait_ms'', max_critical_growth_wait_ms m)]
       (map (\<lambda>k. (metric_value k, counters m k)) all_metrics)"

text \<open>The calls on the Prometheus objects of one engine.\<close>

datatype prom_call =
    Inc int string int
  | SetActive int int
  | SetWait int real
  | SetGrowthWait int real

record tokencake_prom =
  prom_previous :: "(int, (string, int) dict) dict"
  prom_calls :: "prom_call list"

definition TokenCakeProm :: "int list \<Rightarrow> tokencake_prom" where
  "TokenCakeProm engine_indexes = \<lparr>prom_previous = fold (\<lambda>i. dict_set i []) engine_indexes [], prom_calls = []\<rparr>"

definition dict_item :: "('k, 'v) dict \<Rightarrow> 'k \<Rightarrow> 'v res" where
  "dict_item d k = (case map_of d k of None \<Rightarrow> Inl KeyError | Some v \<Rightarrow> Inr v)"

definition observe_metric ::
  "(string, int) dict \<Rightarrow> (string, int) dict \<Rightarrow> int \<Rightarrow> metric \<Rightarrow> tokencake_prom \<Rightarrow> tokencake_prom res" where
  "observe_metric previous values i k p =
     rbind (dict_item values (metric_value k)) (\<lambda>value.
       let delta = value - dict_get previous (metric_value k) 0
       in rbind (py_assert (delta \<ge> 0)) (\<lambda>_.
          rbind (dict_item (prom_previous p) i) (\<lambda>_.
            Inr (p\<lparr>prom_calls := prom_calls p @ [Inc i (metric_value k) delta]\<rparr>))))"

definition observe :: "(string, int) dict \<Rightarrow> int \<Rightarrow> tokencake_prom \<Rightarrow> tokencake_prom res" where
  "observe values i p =
     rbind (dict_item (prom_previous p) i) (\<lambda>previous.
     rbind (rfold (observe_metric previous values i) all_metrics p) (\<lambda>p.
     rbind (dict_item values ''active'') (\<lambda>active.
       Inr (p\<lparr>prom_calls := prom_calls p
                @ [SetActive i active, SetWait i (real_of_int (dict_get values ''max_critical_wait_ms'' 0) / 1000),
                   SetGrowthWait i (real_of_int (dict_get values ''max_critical_growth_wait_ms'' 0) / 1000)],
              prom_previous := dict_set i values (prom_previous p)\<rparr>))))"

section \<open>The enumeration\<close>

lemma all_metrics_complete [simp]: "k \<in> set all_metrics"
  by (cases k) (simp_all add: all_metrics_def)

lemma distinct_all_metrics: "distinct all_metrics"
  by (simp add: all_metrics_def)

lemma distinct_metric_values: "distinct (map metric_value all_metrics)"
  by code_simp

lemma metric_value_inj [simp]: "metric_value a = metric_value b \<longleftrightarrow> a = b"
  using distinct_metric_values by (auto simp: distinct_map dest: inj_onD)

lemma find_value: "k \<in> set ks \<Longrightarrow> find (\<lambda>m. metric_value m = metric_value k) ks = Some k"
  by (induction ks) auto

lemma metric_of_value [simp]: "metric_of (metric_value k) = Inr k"
  by (simp only: metric_of_def find_value[OF all_metrics_complete] option.case)

section \<open>The exporter\<close>

lemma count_by_one: "count_by k 1 m = Inr (count k m)"
  by (simp add: count_by_def count_def)

definition metrics_le :: "tokencake_metrics \<Rightarrow> tokencake_metrics \<Rightarrow> bool" where
  "metrics_le m m' \<longleftrightarrow> (\<forall>k. counters m k \<le> counters m' k)"

lemma metrics_le_refl [simp, intro]: "metrics_le m m"
  by (simp add: metrics_le_def)

lemma metrics_le_trans: "metrics_le a b \<Longrightarrow> metrics_le b c \<Longrightarrow> metrics_le a c"
  by (meson metrics_le_def order_trans)

lemma metrics_le_count [intro]: "metrics_le m (count k m)"
  by (simp add: metrics_le_def count_def)

lemma metrics_le_count_by: "count_by k n m = Inr m' \<Longrightarrow> metrics_le m m'"
  by (auto simp: metrics_le_def count_by_def rbind_eq_Inr)

lemma metrics_le_wait [simp, intro]: "metrics_le m (growth_wait s m)" "metrics_le m (admission_wait s c m)"
  by (simp_all add: metrics_le_def growth_wait_def admission_wait_def count_def Let_def)

lemma map_of_snapshot [simp]: "map_of (snapshot a m) (metric_value k) = Some (counters m k)"
proof -
  have n: "metric_value k \<noteq> ''active''" "metric_value k \<noteq> ''max_critical_wait_ms''"
    "metric_value k \<noteq> ''max_critical_growth_wait_ms''"
    by (cases k; simp)+
  have "map_of (map (\<lambda>k. (metric_value k, counters m k)) ks) (metric_value k) = Some (counters m k)"
    if "k \<in> set ks" for ks using that by (induction ks) auto
  then show ?thesis using n by (simp add: snapshot_def)
qed

lemma snapshot_active [simp]: "map_of (snapshot a m) ''active'' = Some a"
  by (simp add: snapshot_def)

text \<open>What the exporter has told Prometheus about a counter of an engine.\<close>

fun inc_of :: "int \<Rightarrow> metric \<Rightarrow> prom_call \<Rightarrow> int" where
  "inc_of i k (Inc j v n) = (if j = i \<and> v = metric_value k then n else 0)"
| "inc_of i k c = 0"

definition exported :: "tokencake_prom \<Rightarrow> int \<Rightarrow> metric \<Rightarrow> int" where
  "exported p i k = sum_list (map (inc_of i k) (prom_calls p))"

definition prev_val :: "tokencake_prom \<Rightarrow> int \<Rightarrow> metric \<Rightarrow> int" where
  "prev_val p i k = (case map_of (prom_previous p) i of None \<Rightarrow> 0 | Some d \<Rightarrow> dict_get d (metric_value k) 0)"

lemma observe_loop:
  assumes "map_of (prom_previous p) i = Some prev" and "\<forall>k \<in> set ks. dict_get prev (metric_value k) 0 \<le> counters m k"
  shows "rfold (observe_metric prev (snapshot a m) i) ks p =
    Inr (p\<lparr>prom_calls := prom_calls p
       @ map (\<lambda>k. Inc i (metric_value k) (counters m k - dict_get prev (metric_value k) 0)) ks\<rparr>)"
  using assms
  by (induction ks arbitrary: p) (simp_all add: observe_metric_def dict_item_def Let_def)

lemma sum_inc_of:
  "distinct ks \<Longrightarrow> sum_list (map (inc_of j k \<circ> (\<lambda>k. Inc i (metric_value k) (f k))) ks) = (if i = j \<and> k \<in> set ks then f k else 0)"
  by (induction ks) auto

lemma observe_spec:
  assumes "map_of (prom_previous p) i = Some prev" and "\<forall>k. prev_val p i k \<le> counters m k"
  shows "\<exists>p'. observe (snapshot a m) i p = Inr p' \<and> prom_previous p' = dict_set i (snapshot a m) (prom_previous p)
    \<and> (\<forall>j k. exported p' j k = exported p j k + (if j = i then counters m k - prev_val p i k else 0))"
proof -
  have le: "\<forall>k \<in> set all_metrics. dict_get prev (metric_value k) 0 \<le> counters m k"
    using assms by (auto simp: prev_val_def split: option.splits)
  have pv: "dict_get prev (metric_value k) 0 = prev_val p i k" for k using assms(1) by (simp add: prev_val_def)
  show ?thesis
    using assms(1)
    by (auto simp: observe_def dict_item_def observe_loop[OF assms(1) le] exported_def sum_inc_of distinct_all_metrics pv)
qed

text \<open>
  A metrics object and the exporter of engine \<open>i\<close> that is shown its snapshots, in any interleaving
  of counting and exporting.
\<close>

inductive export_reach :: "int \<Rightarrow> tokencake_metrics \<Rightarrow> tokencake_prom \<Rightarrow> bool" for i :: int where
  start: "export_reach i TokenCakeMetrics (TokenCakeProm [i])"
| count: "export_reach i m p \<Longrightarrow> count_by k n m = Inr m' \<Longrightarrow> export_reach i m' p"
| growth: "export_reach i m p \<Longrightarrow> export_reach i (growth_wait s m) p"
| admission: "export_reach i m p \<Longrightarrow> export_reach i (admission_wait s c m) p"
| export: "export_reach i m p \<Longrightarrow> observe (snapshot a m) i p = Inr p' \<Longrightarrow> export_reach i m p'"

definition export_ok :: "int \<Rightarrow> tokencake_metrics \<Rightarrow> tokencake_prom \<Rightarrow> bool" where
  "export_ok i m p \<longleftrightarrow> (\<exists>prev. map_of (prom_previous p) i = Some prev) \<and> (\<forall>k. prev_val p i k \<le> counters m k)
     \<and> (\<forall>k. exported p i k = prev_val p i k)"

lemma export_ok_mono: "export_ok i m p \<Longrightarrow> metrics_le m m' \<Longrightarrow> export_ok i m' p"
  unfolding export_ok_def metrics_le_def by (meson order_trans)

lemma export_ok_observe:
  assumes "export_ok i m p" and "observe (snapshot a m) i p = Inr p'"
  shows "export_ok i m p' \<and> (\<forall>k. exported p' i k = counters m k)"
proof -
  obtain prev where prev: "map_of (prom_previous p) i = Some prev" using assms(1) by (auto simp: export_ok_def)
  have le: "\<forall>k. prev_val p i k \<le> counters m k" and ex: "\<forall>k. exported p i k = prev_val p i k"
    using assms(1) by (simp_all add: export_ok_def)
  have q: "prom_previous p' = dict_set i (snapshot a m) (prom_previous p)"
    "\<And>k. exported p' i k = counters m k"
    using observe_spec[OF prev le, of a] assms(2) ex by auto
  have pv: "prev_val p' i k = counters m k" for k by (simp add: prev_val_def q(1) dict_get_def)
  show ?thesis unfolding export_ok_def q(2) pv by (simp add: q(1))
qed

lemma export_inv: "export_reach i m p \<Longrightarrow> export_ok i m p"
proof (induction rule: export_reach.induct)
  case start
  then show ?case
    by (simp add: export_ok_def TokenCakeProm_def TokenCakeMetrics_def prev_val_def exported_def dict_get_def)
next
  case (count m p k n m')
  then show ?case by (blast intro: export_ok_mono metrics_le_count_by)
next
  case (growth m p s)
  then show ?case by (blast intro: export_ok_mono)
next
  case (admission m p s c)
  then show ?case by (blast intro: export_ok_mono)
next
  case (export m p a p')
  then show ?case by (blast dest: export_ok_observe)
qed

text \<open>
  \<^bold>\<open>C31\<close> However counting and exporting interleave, exporting a snapshot never raises, and afterwards the
  increments sent to Prometheus for each metric add up to the value of the engine's counter.
\<close>

theorem exported_totals_match:
  assumes "export_reach i m p"
  shows "\<exists>p'. observe (snapshot a m) i p = Inr p' \<and> (\<forall>k. exported p' i k = counters m k)"
proof -
  note inv = export_inv[OF assms]
  then obtain prev where "map_of (prom_previous p) i = Some prev" "\<forall>k. prev_val p i k \<le> counters m k"
    by (auto simp: export_ok_def)
  from observe_spec[OF this, of a] obtain p' where "observe (snapshot a m) i p = Inr p'" by blast
  then show ?thesis using export_ok_observe[OF inv] by blast
qed

theorem exported_totals_match_witness:
  "\<exists>p'. observe (snapshot 3 (count FINISHED TokenCakeMetrics)) 0 (TokenCakeProm [0]) = Inr p' \<and> exported p' 0 FINISHED = 1"
proof -
  have "export_reach 0 (count FINISHED TokenCakeMetrics) (TokenCakeProm [0])"
    using export_reach.count[OF export_reach.start count_by_one] .
  from exported_totals_match[OF this, of 3] show ?thesis by (auto simp: count_def TokenCakeMetrics_def)
qed

end
