(* ===== verification/Request.thy ===== *)
theory Request
  imports Free_Queue
begin

text \<open>
  Requests (\<^verbatim>\<open>vllm/v1/request.py\<close>) with the fields the modelled components read, their order in
  priority scheduling, and the block hashes of \<^verbatim>\<open>vllm/v1/core/kv_cache_utils.py\<close> that identify a
  request's prefix in the prefix cache. The hash function is a parameter: \<^verbatim>\<open>hash_function\<close> is
  chosen by configuration and comes from outside the repository's own logic.
\<close>

section \<open>Status\<close>

datatype request_status =
    WAITING | WAITING_FOR_STRUCTURED_OUTPUT_GRAMMAR | WAITING_FOR_REMOTE_KVS
  | WAITING_FOR_STREAMING_REQ | RUNNING | PREEMPTED
  | FINISHED_STOPPED | FINISHED_LENGTH_CAPPED | FINISHED_ABORTED | FINISHED_IGNORED
  | FINISHED_ERROR | FINISHED_REPETITION

text \<open>\<^verbatim>\<open>enum.auto()\<close> numbers the members from 1 in the order of their declaration.\<close>

fun status_value :: "request_status \<Rightarrow> nat" where
  "status_value WAITING = 1"
| "status_value WAITING_FOR_STRUCTURED_OUTPUT_GRAMMAR = 2"
| "status_value WAITING_FOR_REMOTE_KVS = 3"
| "status_value WAITING_FOR_STREAMING_REQ = 4"
| "status_value RUNNING = 5"
| "status_value PREEMPTED = 6"
| "status_value FINISHED_STOPPED = 7"
| "status_value FINISHED_LENGTH_CAPPED = 8"
| "status_value FINISHED_ABORTED = 9"
| "status_value FINISHED_IGNORED = 10"
| "status_value FINISHED_ERROR = 11"
| "status_value FINISHED_REPETITION = 12"

definition is_finished :: "request_status \<Rightarrow> bool" where
  "is_finished s \<longleftrightarrow> status_value s > status_value PREEMPTED"

datatype finish_reason = STOP_R | LENGTH_R | ABORT_R | ERROR_R | REPETITION_R

fun get_finished_reason :: "request_status \<Rightarrow> finish_reason option" where
  "get_finished_reason FINISHED_STOPPED = Some STOP_R"
| "get_finished_reason FINISHED_LENGTH_CAPPED = Some LENGTH_R"
| "get_finished_reason FINISHED_ABORTED = Some ABORT_R"
| "get_finished_reason FINISHED_IGNORED = Some LENGTH_R"
| "get_finished_reason FINISHED_ERROR = Some ERROR_R"
| "get_finished_reason WAITING_FOR_STREAMING_REQ = Some STOP_R"
| "get_finished_reason FINISHED_REPETITION = Some REPETITION_R"
| "get_finished_reason _ = None"

section \<open>The request\<close>

record lora =
  lora_name :: string
  lora_int_id :: int

record mm_feature =
  mm_identifier :: string
  mm_offset :: int
  mm_length :: int
  mm_num_embeds :: int

text \<open>\<^verbatim>\<open>obj_id\<close> is Python's \<^verbatim>\<open>id()\<close> of the object, the last tie-breaker of \<^verbatim>\<open>__lt__\<close>.\<close>

record request =
  request_id :: string
  obj_id :: nat
  req_priority :: int
  arrival_time :: real
  status :: request_status
  max_tokens :: int
  num_prompt_tokens :: int
  all_token_ids :: "int list"
  output_token_ids :: "int list"
  num_computed_tokens :: int
  lora_request :: "lora option"
  cache_salt :: "string option"
  prompt_embeds :: "bytes list option"
  mm_features :: "mm_feature list"
  block_hashes :: "bytes list"
  skip_reading_prefix_cache :: bool
  num_preemptions :: int

definition num_tokens :: "'z request_scheme \<Rightarrow> int" where
  "num_tokens r = int (length (all_token_ids r))"

definition num_output_tokens :: "'z request_scheme \<Rightarrow> int" where
  "num_output_tokens r = int (length (output_token_ids r))"

definition has_encoder_inputs :: "'z request_scheme \<Rightarrow> bool" where
  "has_encoder_inputs r \<longleftrightarrow> length (mm_features r) > 0"

definition request_lt :: "'z request_scheme \<Rightarrow> 'z request_scheme \<Rightarrow> bool" where
  "request_lt a b =
     (if req_priority a \<noteq> req_priority b then req_priority a < req_priority b
      else if arrival_time a \<noteq> arrival_time b then arrival_time a < arrival_time b
      else if request_id a \<noteq> request_id b then request_id a < request_id b
      else obj_id a < obj_id b)"

section \<open>Extra keys of a block hash\<close>

datatype extra_key = MmKey string int | LoraKey string | SaltKey string | EmbedKey bytes

definition need_extra_keys :: "'z request_scheme \<Rightarrow> bool" where
  "need_extra_keys r \<longleftrightarrow> mm_features r \<noteq> [] \<or> lora_request r \<noteq> None \<or> cache_salt r \<noteq> None"

text \<open>The loop over the multi-modal inputs from index \<open>i\<close> on (the list holds those inputs).\<close>

fun gen_mm_loop :: "mm_feature list \<Rightarrow> int \<Rightarrow> int \<Rightarrow> int \<Rightarrow> extra_key list \<Rightarrow> extra_key list \<times> int" where
  "gen_mm_loop [] s e i keys = (keys, i)"
| "gen_mm_loop (f # fs) s e i keys =
     (if e > mm_offset f
      then if s \<ge> mm_offset f + mm_length f then gen_mm_loop fs s e (i + 1) keys
           else let keys = keys @ [MmKey (mm_identifier f) (mm_offset f - s)]
                in if e \<ge> mm_offset f + mm_length f then gen_mm_loop fs s e (i + 1) keys
                   else (keys, i)
      else (keys, i))"

definition gen_mm_extra_hash_keys ::
  "'z request_scheme \<Rightarrow> int \<Rightarrow> int \<Rightarrow> int \<Rightarrow> (extra_key list \<times> int) res" where
  "gen_mm_extra_hash_keys r s e start_mm_idx =
     (let fs = mm_features r in
      if fs = [] then Inr ([], start_mm_idx)
      else if mm_offset (last fs) + mm_length (last fs) \<le> s then Inr ([], start_mm_idx)
      else rbind (py_assert (start_mm_idx < 0 \<longrightarrow> - start_mm_idx \<le> int (length fs))) (\<lambda>_.
        let i = (if start_mm_idx < 0 then int (length fs) + start_mm_idx else start_mm_idx)
        in Inr (gen_mm_loop (drop (nat i) fs) s e i [])))"

definition gen_lora_extra_hash_keys :: "'z request_scheme \<Rightarrow> extra_key list" where
  "gen_lora_extra_hash_keys r =
     (case lora_request r of None \<Rightarrow> [] | Some l \<Rightarrow> [LoraKey (lora_name l)])"

text \<open>
  \<^verbatim>\<open>sha\<close> hashes the rows of a slice of the prompt embeddings. The code memoises the digest per
  block range on the request; the embeddings are never written, so the memo holds this value.
\<close>

definition gen_prompt_embeds_extra_hash_keys ::
  "(bytes list \<Rightarrow> bytes) \<Rightarrow> 'z request_scheme \<Rightarrow> int \<Rightarrow> int \<Rightarrow> extra_key list" where
  "gen_prompt_embeds_extra_hash_keys sha r s e =
     (case prompt_embeds r of None \<Rightarrow> []
      | Some rows \<Rightarrow> [EmbedKey (sha (take (nat e - nat s) (drop (nat s) rows)))])"

definition generate_block_hash_extra_keys ::
  "(bytes list \<Rightarrow> bytes) \<Rightarrow> 'z request_scheme \<Rightarrow> int \<Rightarrow> int \<Rightarrow> int \<Rightarrow> (extra_key list option \<times> int) res"
where
  "generate_block_hash_extra_keys sha r s e start_mm_idx =
     rbind (gen_mm_extra_hash_keys r s e start_mm_idx) (\<lambda>(mm_keys, new_idx).
       let salt_keys = (case cache_salt r of
                          None \<Rightarrow> [] | Some salt \<Rightarrow> if s = 0 \<and> salt \<noteq> [] then [SaltKey salt] else []);
           keys = gen_lora_extra_hash_keys r @ mm_keys @ salt_keys
                    @ gen_prompt_embeds_extra_hash_keys sha r s e
       in Inr (if keys = [] then None else Some keys, new_idx))"

section \<open>Block hashes\<close>

type_synonym hash_input = "bytes \<times> int list \<times> extra_key list option"

text \<open>An absent parent and an empty one are both false in Python and stand for \<^verbatim>\<open>NONE_HASH\<close>.\<close>

definition hash_block_tokens ::
  "(hash_input \<Rightarrow> bytes) \<Rightarrow> bytes \<Rightarrow> bytes option \<Rightarrow> int list \<Rightarrow> extra_key list option \<Rightarrow> bytes" where
  "hash_block_tokens H none_hash parent tokens keys =
     H (case parent of None \<Rightarrow> none_hash | Some p \<Rightarrow> if p = [] then none_hash else p, tokens, keys)"

definition token_slice :: "'z request_scheme \<Rightarrow> int \<Rightarrow> int \<Rightarrow> int list" where
  "token_slice r s e = take (nat e - nat s) (drop (nat s) (all_token_ids r))"

text \<open>The \<^verbatim>\<open>while True\<close> loop of \<^verbatim>\<open>request_block_hasher\<close>: with a zero block size it never returns.\<close>

partial_function (option) hasher_loop ::
  "(hash_input \<Rightarrow> bytes) \<Rightarrow> bytes \<Rightarrow> (bytes list \<Rightarrow> bytes) \<Rightarrow> 'z request_scheme \<Rightarrow> int \<Rightarrow> int \<Rightarrow> int
     \<Rightarrow> bytes option \<Rightarrow> bytes list \<Rightarrow> bytes list res option"
where
  "hasher_loop H none_hash sha r block_size s mm_idx prev acc =
     (let e = s + block_size in
      if e > num_tokens r then Some (Inr acc)
      else case generate_block_hash_extra_keys sha r s e mm_idx of
             Inl err \<Rightarrow> Some (Inl err)
           | Inr (keys, mm_idx') \<Rightarrow>
               (let h = hash_block_tokens H none_hash prev (token_slice r s e) keys
                in hasher_loop H none_hash sha r block_size e mm_idx' (Some h) (acc @ [h])))"

definition request_block_hasher ::
  "(hash_input \<Rightarrow> bytes) \<Rightarrow> bytes \<Rightarrow> (bytes list \<Rightarrow> bytes) \<Rightarrow> int \<Rightarrow> 'z request_scheme
     \<Rightarrow> bytes list res option"
where
  "request_block_hasher H none_hash sha block_size r =
     (let s = int (length (block_hashes r)) * block_size in
      if s + block_size > num_tokens r then Some (Inr [])
      else hasher_loop H none_hash sha r block_size s (if s > 0 then -1 else 0)
             (if block_hashes r = [] then None else Some (last (block_hashes r))) [])"

definition update_block_hashes ::
  "('z request_scheme \<Rightarrow> bytes list res option) option \<Rightarrow> 'z request_scheme
     \<Rightarrow> 'z request_scheme res option"
where
  "update_block_hashes block_hasher r =
     (case block_hasher of None \<Rightarrow> Some (Inr r)
      | Some hasher \<Rightarrow> map_option (\<lambda>m. rbind m (\<lambda>hs. Inr (r\<lparr>block_hashes := block_hashes r @ hs\<rparr>)))
                         (hasher r))"

definition append_output_token_ids ::
  "('z request_scheme \<Rightarrow> bytes list res option) option \<Rightarrow> int list \<Rightarrow> 'z request_scheme
     \<Rightarrow> 'z request_scheme res option"
where
  "append_output_token_ids block_hasher token_ids r =
     update_block_hashes block_hasher
       (r\<lparr>output_token_ids := output_token_ids r @ token_ids,
          all_token_ids := all_token_ids r @ token_ids\<rparr>)"

section \<open>Specification of the hash chain\<close>

text \<open>What is hashed for the \<open>n\<close> full blocks from token \<open>s\<close> on: the tokens and the extra keys.\<close>

fun hash_inputs ::
  "(bytes list \<Rightarrow> bytes) \<Rightarrow> 'z request_scheme \<Rightarrow> int \<Rightarrow> nat \<Rightarrow> int \<Rightarrow> int
     \<Rightarrow> (int list \<times> extra_key list option) list"
where
  "hash_inputs sha r bs 0 s mm_idx = []"
| "hash_inputs sha r bs (Suc n) s mm_idx =
     (case generate_block_hash_extra_keys sha r s (s + bs) mm_idx of
        Inl e \<Rightarrow> []
      | Inr (keys, mm_idx') \<Rightarrow> (token_slice r s (s + bs), keys) # hash_inputs sha r bs n (s + bs) mm_idx')"

fun hash_chain ::
  "(hash_input \<Rightarrow> bytes) \<Rightarrow> bytes \<Rightarrow> bytes option \<Rightarrow> (int list \<times> extra_key list option) list \<Rightarrow> bytes list"
where
  "hash_chain H none_hash prev [] = []"
| "hash_chain H none_hash prev ((tokens, keys) # xs) =
     (let h = hash_block_tokens H none_hash prev tokens keys
      in h # hash_chain H none_hash (Some h) xs)"

lemma length_hash_chain [simp]: "length (hash_chain H N prev xs) = length xs"
  by (induction xs arbitrary: prev) (auto simp: Let_def)

lemma gen_mm_loop_idx: "i \<le> snd (gen_mm_loop fs s e i keys)"
  by (induction fs s e i keys rule: gen_mm_loop.induct)
     (auto simp: Let_def intro: order_trans[of _ "_ + 1"])

lemma generate_keys_total:
  assumes "-1 \<le> i"
  shows "\<exists>keys i'. generate_block_hash_extra_keys sha r s e i = Inr (keys, i') \<and> -1 \<le> i'"
proof -
  have "\<exists>keys i'. gen_mm_extra_hash_keys r s e i = Inr (keys, i') \<and> -1 \<le> i'"
  proof (cases "mm_features r = [] \<or> mm_offset (last (mm_features r)) + mm_length (last (mm_features r)) \<le> s")
    case True
    then show ?thesis using assms by (auto simp: gen_mm_extra_hash_keys_def Let_def)
  next
    case False
    let ?i = "if i < 0 then int (length (mm_features r)) + i else i"
    obtain keys i' where g: "gen_mm_loop (drop (nat ?i) (mm_features r)) s e ?i [] = (keys, i')"
      by fastforce
    have "1 \<le> int (length (mm_features r))" using False by (cases "mm_features r") simp_all
    then have "-1 \<le> ?i" "i < 0 \<longrightarrow> - i \<le> int (length (mm_features r))" using assms by auto
    then show ?thesis
      using False g gen_mm_loop_idx[of ?i "drop (nat ?i) (mm_features r)" s e "[]"]
      by (auto simp: gen_mm_extra_hash_keys_def Let_def)
  qed
  then show ?thesis by (auto simp: generate_block_hash_extra_keys_def Let_def)
qed

lemma length_hash_inputs: "-1 \<le> mm_idx \<Longrightarrow> length (hash_inputs sha r bs n s mm_idx) = n"
proof (induction n arbitrary: s mm_idx)
  case (Suc n)
  obtain keys i' where "generate_block_hash_extra_keys sha r s (s + bs) mm_idx = Inr (keys, i')" "-1 \<le> i'"
    using generate_keys_total[OF Suc.prems] by blast
  then show ?case using Suc.IH by simp
qed simp

lemma hash_inputs_tokens:
  "-1 \<le> mm_idx \<Longrightarrow> i < n \<Longrightarrow>
     fst (hash_inputs sha r bs n s mm_idx ! i) = token_slice r (s + int i * bs) (s + int (Suc i) * bs)"
proof (induction n arbitrary: s mm_idx i)
  case (Suc n)
  obtain keys i' where g: "generate_block_hash_extra_keys sha r s (s + bs) mm_idx = Inr (keys, i')" "-1 \<le> i'"
    using generate_keys_total[OF Suc.prems(1)] by blast
  show ?case
  proof (cases i)
    case (Suc j)
    then show ?thesis
      using g Suc.IH[of i' j "s + bs"] Suc.prems(2) by (simp add: algebra_simps)
  qed (use g in simp)
qed simp

lemma hasher_loop_returns:
  assumes "0 < bs" and "-1 \<le> mm_idx" and "s \<le> num_tokens r"
    and "n = nat ((num_tokens r - s) div bs)"
  shows "hasher_loop H N sha r bs s mm_idx prev acc =
    Some (Inr (acc @ hash_chain H N prev (hash_inputs sha r bs n s mm_idx)))"
  using assms
proof (induction n arbitrary: s mm_idx prev acc)
  case 0
  have "(num_tokens r - s) div bs \<le> 0" "0 \<le> num_tokens r - s" using 0 by simp_all
  then have "num_tokens r - s < bs"
    using \<open>0 < bs\<close> by (meson leI not_le pos_imp_zdiv_pos_iff)
  then show ?case by (simp add: hasher_loop.simps Let_def)
next
  case (Suc n)
  have ge: "s + bs \<le> num_tokens r"
  proof (rule ccontr)
    assume "\<not> s + bs \<le> num_tokens r"
    then have "(num_tokens r - s) div bs = 0" using Suc.prems by simp
    then show False using Suc.prems by simp
  qed
  have "num_tokens r - s = (num_tokens r - (s + bs)) + bs" by simp
  then have "(num_tokens r - s) div bs = ((num_tokens r - (s + bs)) + bs) div bs" by (rule arg_cong)
  also have "\<dots> = (num_tokens r - (s + bs)) div bs + 1" using Suc.prems(1) by (intro div_add_self2) simp
  finally have "(num_tokens r - s) div bs = (num_tokens r - (s + bs)) div bs + 1" .
  then have n: "n = nat ((num_tokens r - (s + bs)) div bs)" using Suc.prems(4) by simp
  obtain keys i' where g: "generate_block_hash_extra_keys sha r s (s + bs) mm_idx = Inr (keys, i')" "-1 \<le> i'"
    using generate_keys_total[OF Suc.prems(2)] by blast
  show ?case
    using Suc.IH[OF Suc.prems(1) g(2) ge n] ge g
    by (subst hasher_loop.simps) (simp add: Let_def)
qed

section \<open>Soundness of prefix identification\<close>

lemma hash_chain_nth:
  assumes "\<And>x. H x \<noteq> []" and "i < length xs"
  shows "hash_chain H N prev xs ! i =
    H (if i = 0 then (case prev of None \<Rightarrow> N | Some p \<Rightarrow> if p = [] then N else p)
       else hash_chain H N prev xs ! (i - 1), xs ! i)"
  using assms(2)
proof (induction xs arbitrary: prev i)
  case (Cons x xs)
  obtain t k where x: "x = (t, k)" by fastforce
  show ?case
  proof (cases i)
    case 0
    then show ?thesis by (simp add: x Let_def hash_block_tokens_def split: option.splits)
  next
    case (Suc j)
    then show ?thesis
      using Cons.IH[of j "Some (hash_block_tokens H N prev t k)"] Cons.prems assms(1)
      by (auto simp: x Let_def hash_block_tokens_def nth_Cons' split: option.splits)
  qed
qed simp

lemma hash_chain_inj:
  assumes inj: "inj H" and ne: "\<And>x. H x \<noteq> []" and N: "N \<notin> range H"
    and "i < length xs" and "j < length ys"
    and "hash_chain H N None xs ! i = hash_chain H N None ys ! j"
  shows "i = j \<and> take (Suc i) xs = take (Suc j) ys"
proof -
  have nth: "i < length xs \<Longrightarrow> hash_chain H N None xs ! i =
      H (if i = 0 then N else hash_chain H N None xs ! (i - 1), xs ! i)" for i xs
    using hash_chain_nth[of H i xs N None] ne by simp
  have prev_ne: "i < length xs \<Longrightarrow> hash_chain H N None xs ! i \<noteq> N" for i xs
    using nth[of i xs] N by (metis rangeI)
  note H_eq = inj_eq[OF inj]
  from assms(4-) show ?thesis
  proof (induction i arbitrary: j)
    case 0
    have "j = 0"
      using 0 nth[of 0 xs] nth[of j ys] prev_ne[of "j - 1" ys] by (auto simp: H_eq less_imp_diff_less split: if_splits)
    then show ?case
      using 0 nth[of 0 xs] nth[of 0 ys] by (simp add: H_eq take_Suc_conv_app_nth)
  next
    case (Suc i)
    obtain j' where j: "j = Suc j'"
      using Suc.prems nth[of "Suc i" xs] nth[of j ys] prev_ne[of i xs] by (cases j) (auto simp: H_eq split: if_splits)
    then have "hash_chain H N None xs ! i = hash_chain H N None ys ! j'" "xs ! Suc i = ys ! Suc j'"
      using Suc.prems nth[of "Suc i" xs] nth[of "Suc j'" ys] by (auto simp: H_eq)
    moreover from this(1) have "i = j' \<and> take (Suc i) xs = take (Suc j') ys"
      using Suc.IH[of j'] Suc.prems(1,2) j by auto
    ultimately show ?case using Suc.prems(1,2) j by (auto simp: take_Suc_conv_app_nth[of "Suc i"] take_Suc_conv_app_nth[of "Suc j'"])
  qed
qed

text \<open>Consecutive full blocks cover the prefix of the tokens.\<close>

lemma concat_token_slices:
  assumes "0 < bs" and "int (Suc i) * bs \<le> num_tokens r"
  shows "concat (map (\<lambda>k. token_slice r (int k * bs) (int (Suc k) * bs)) [0..<Suc i])
    = take (nat (int (Suc i) * bs)) (all_token_ids r)"
  using assms(2)
proof (induction i)
  case 0
  then show ?case by (simp add: token_slice_def)
next
  case (Suc i)
  have le: "int (Suc i) * bs \<le> int (Suc (Suc i)) * bs"
    using assms(1) by (simp add: algebra_simps)
  then have "concat (map (\<lambda>k. token_slice r (int k * bs) (int (Suc k) * bs)) [0..<Suc i])
    = take (nat (int (Suc i) * bs)) (all_token_ids r)" using Suc by linarith
  moreover have "take (nat (int (Suc i) * bs)) (all_token_ids r)
      @ token_slice r (int (Suc i) * bs) (int (Suc (Suc i)) * bs)
    = take (nat (int (Suc (Suc i)) * bs)) (all_token_ids r)"
    using le unfolding token_slice_def
    by (metis le_add_diff_inverse nat_mono take_add)
  moreover have "[0..<Suc (Suc i)] = [0..<Suc i] @ [Suc i]" by simp
  ultimately show ?case by (simp del: upt_Suc)
qed

text \<open>
  The hashes a request without hashes yet obtains: one per full block, computed from the block's
  tokens and extra keys and the hash of the block before it.
\<close>

lemma request_block_hasher_fresh:
  assumes "0 < bs" and "block_hashes r = []"
  shows "request_block_hasher H N sha bs r =
    Some (Inr (hash_chain H N None (hash_inputs sha r bs (nat (num_tokens r div bs)) 0 0)))"
proof (cases "bs > num_tokens r")
  case True
  then show ?thesis
    using assms by (simp add: request_block_hasher_def num_tokens_def)
next
  case False
  then show ?thesis
    using assms hasher_loop_returns[of bs 0 0 r "nat (num_tokens r div bs)" H N sha None "[]"]
    by (simp add: request_block_hasher_def num_tokens_def Let_def)
qed

lemma hash_inputs_upd_hashes [simp]:
  "hash_inputs sha (r\<lparr>block_hashes := hs\<rparr>) bs n s i = hash_inputs sha r bs n s i"
proof (induction n arbitrary: s i)
  case (Suc n)
  have "generate_block_hash_extra_keys sha (r\<lparr>block_hashes := hs\<rparr>) s e k
      = generate_block_hash_extra_keys sha r s e k" for s e k
    by (simp add: generate_block_hash_extra_keys_def gen_mm_extra_hash_keys_def
        gen_lora_extra_hash_keys_def gen_prompt_embeds_extra_hash_keys_def Let_def)
  then show ?case using Suc.IH by (simp add: token_slice_def split: sum.splits)
qed simp

section \<open>Incremental hashing\<close>

lemma hash_chain_append:
  "hash_chain H N prev (xs @ ys) = hash_chain H N prev xs
     @ hash_chain H N (if xs = [] then prev else Some (last (hash_chain H N prev xs))) ys"
proof (induction xs arbitrary: prev)
  case Nil
  then show ?case by simp
next
  case (Cons x xs)
  obtain t k where "x = (t, k)" by fastforce
  moreover have "hash_chain H N p xs = [] \<longleftrightarrow> xs = []" for p
    by (metis length_0_conv length_hash_chain)
  ultimately show ?case using Cons.IH by (auto simp: Let_def)
qed

text \<open>
  Without multi-modal inputs the extra keys of a block depend on its position only, so the inputs
  of consecutive blocks can be computed separately, and appended tokens leave them alone.
\<close>

lemma text_keys:
  assumes "mm_features r = []"
  shows "\<exists>keys. \<forall>i. generate_block_hash_extra_keys sha r s e i = Inr (keys, i)"
  using assms by (auto simp: generate_block_hash_extra_keys_def gen_mm_extra_hash_keys_def Let_def)

lemma hash_inputs_append:
  assumes "mm_features r = []"
  shows "hash_inputs sha r bs (n + m) s i = hash_inputs sha r bs n s i @ hash_inputs sha r bs m (s + int n * bs) j"
proof (induction n arbitrary: s i)
  case 0
  show ?case
  proof (induction m arbitrary: s i j)
    case (Suc m)
    obtain keys where "\<forall>i. generate_block_hash_extra_keys sha r s (s + bs) i = Inr (keys, i)"
      using text_keys[OF assms] by blast
    then show ?case using Suc.IH[of "s + bs" i j] by simp
  qed simp
next
  case (Suc n)
  obtain keys where "\<forall>i. generate_block_hash_extra_keys sha r s (s + bs) i = Inr (keys, i)"
    using text_keys[OF assms] by blast
  then show ?case using Suc.IH[of "s + bs" i] by (simp add: algebra_simps)
qed

lemma hash_inputs_grow:
  assumes "mm_features r = []" and "0 \<le> s" "0 \<le> bs" and "s + int n * bs \<le> num_tokens r"
  shows "hash_inputs sha (r\<lparr>output_token_ids := os, all_token_ids := all_token_ids r @ toks\<rparr>) bs n s i
    = hash_inputs sha r bs n s i"
  using assms
proof (induction n arbitrary: s)
  case (Suc n)
  let ?r = "r\<lparr>output_token_ids := os, all_token_ids := all_token_ids r @ toks\<rparr>"
  have keys: "generate_block_hash_extra_keys sha ?r s e k = generate_block_hash_extra_keys sha r s e k" for s e k
    by (simp add: generate_block_hash_extra_keys_def gen_mm_extra_hash_keys_def
        gen_lora_extra_hash_keys_def gen_prompt_embeds_extra_hash_keys_def Let_def)
  obtain ks where ks: "\<forall>i. generate_block_hash_extra_keys sha r s (s + bs) i = Inr (ks, i)"
    using text_keys[OF Suc.prems(1)] by blast
  have "0 \<le> int n * bs" using Suc.prems(3) by simp
  then have le: "s + bs \<le> num_tokens r" "s + bs + int n * bs \<le> num_tokens r"
    using Suc.prems(4) by (auto simp: algebra_simps)
  then have "token_slice ?r s (s + bs) = token_slice r s (s + bs)"
    using Suc.prems(2,3) by (simp add: token_slice_def num_tokens_def nat_le_iff)
  then show ?case
    using Suc.IH[of "s + bs"] Suc.prems le ks keys by simp
qed simp

text \<open>The hashes of a request are those of all its full blocks.\<close>

definition hashes_ok ::
  "(hash_input \<Rightarrow> bytes) \<Rightarrow> bytes \<Rightarrow> (bytes list \<Rightarrow> bytes) \<Rightarrow> int \<Rightarrow> 'z request_scheme \<Rightarrow> bool" where
  "hashes_ok H N sha bs r \<longleftrightarrow>
     block_hashes r = hash_chain H N None (hash_inputs sha r bs (nat (num_tokens r div bs)) 0 0)"

lemma hashes_ok_length:
  "0 < bs \<Longrightarrow> hashes_ok H N sha bs r \<Longrightarrow> int (length (block_hashes r)) = num_tokens r div bs"
  by (simp add: hashes_ok_def length_hash_inputs num_tokens_def pos_imp_zdiv_nonneg_iff)

lemma request_block_hasher_resumed:
  assumes "0 < bs" and "int (length (block_hashes r)) * bs \<le> num_tokens r"
  shows "request_block_hasher H N sha bs r =
    (let s = int (length (block_hashes r)) * bs in
     Some (Inr (hash_chain H N (if block_hashes r = [] then None else Some (last (block_hashes r)))
       (hash_inputs sha r bs (nat ((num_tokens r - s) div bs)) s (if s > 0 then -1 else 0)))))"
proof -
  let ?s = "int (length (block_hashes r)) * bs"
  have "(num_tokens r - ?s) div bs = 0" if "?s + bs > num_tokens r"
    using that assms by simp
  then show ?thesis
    using hasher_loop_returns[OF assms(1) _ assms(2) refl, of "if ?s > 0 then -1 else 0" H N sha
        "if block_hashes r = [] then None else Some (last (block_hashes r))" "[]"]
    by (auto simp: request_block_hasher_def Let_def)
qed

lemma append_tokens_hashes:
  assumes bs: "0 < bs" and ok: "hashes_ok H N sha bs r" and text_only: "mm_features r = []"
  shows "\<exists>r'. append_output_token_ids (Some (request_block_hasher H N sha bs)) toks r = Some (Inr r')
    \<and> hashes_ok H N sha bs r' \<and> all_token_ids r' = all_token_ids r @ toks"
proof -
  let ?r = "r\<lparr>output_token_ids := output_token_ids r @ toks, all_token_ids := all_token_ids r @ toks\<rparr>"
  let ?n = "nat (num_tokens r div bs)" and ?N = "nat (num_tokens ?r div bs)"
  let ?s = "int (length (block_hashes r)) * bs"
  have len: "int (length (block_hashes r)) = num_tokens r div bs" by (rule hashes_ok_length[OF bs ok])
  have s: "?s = int ?n * bs" using len by simp
  have nr: "num_tokens r \<le> num_tokens ?r" by (simp add: num_tokens_def)
  have le: "?s \<le> num_tokens r"
    unfolding len using bs by (metis mult.commute mult_div_mod_eq le_add_same_cancel1 pos_mod_sign)
  define m where "m = nat ((num_tokens ?r - ?s) div bs)"
  have "num_tokens ?r div bs = num_tokens r div bs + (num_tokens ?r - ?s) div bs"
    unfolding len using bs by (metis add.commute diff_add_cancel div_mult_self3 less_irrefl mult.commute)
  moreover have "0 \<le> num_tokens r div bs" "0 \<le> (num_tokens ?r - ?s) div bs"
    using bs le nr by (simp_all add: num_tokens_def pos_imp_zdiv_nonneg_iff)
  ultimately have N: "?N = ?n + m" by (simp add: m_def nat_add_distrib)
  have old: "hash_inputs sha ?r bs ?n 0 0 = hash_inputs sha r bs ?n 0 0"
    by (rule hash_inputs_grow[OF text_only]) (use bs le s in simp_all)
  have parts: "hash_inputs sha ?r bs ?N 0 0 = hash_inputs sha r bs ?n 0 0 @ hash_inputs sha ?r bs m ?s j" for j
    unfolding N s using hash_inputs_append[of ?r sha bs ?n m 0 0 j] text_only old by simp
  have e: "hash_inputs sha r bs ?n 0 0 = [] \<longleftrightarrow> block_hashes r = []"
    using ok unfolding hashes_ok_def by (metis length_0_conv length_hash_chain)
  have bh: "hash_chain H N None (hash_inputs sha r bs ?n 0 0) = block_hashes r"
    using ok by (simp add: hashes_ok_def)
  have "block_hashes r @ hash_chain H N (if block_hashes r = [] then None else Some (last (block_hashes r)))
      (hash_inputs sha ?r bs m ?s j) = hash_chain H N None (hash_inputs sha ?r bs ?N 0 0)" for j
    unfolding parts[of j] hash_chain_append bh e by simp
  moreover have "int (length (block_hashes ?r)) * bs \<le> num_tokens ?r" using le nr by simp
  note hasher = request_block_hasher_resumed[OF bs this, of H N sha]
  ultimately show ?thesis
    by (auto simp: append_output_token_ids_def update_block_hashes_def hasher Let_def m_def hashes_ok_def
        num_tokens_def hash_inputs_upd_hashes)
qed

section \<open>A concrete collision-free hash\<close>

text \<open>
  The hash functions of the configuration are assumed free of collisions; this encoding is one that
  is. A code is a prefix code when a sequence starts with at most one code word.
\<close>

definition prefix_code :: "('a \<Rightarrow> bytes) \<Rightarrow> bool" where
  "prefix_code f \<longleftrightarrow> (\<forall>x y s t. f x @ s = f y @ t \<longrightarrow> x = y \<and> s = t)"

definition enc_nat :: "nat \<Rightarrow> bytes" where
  "enc_nat n = replicate n 0 @ [1]"

definition enc_int :: "int \<Rightarrow> bytes" where
  "enc_int i = (if i < 0 then 1 else 0) # enc_nat (nat \<bar>i\<bar>)"

definition enc_list :: "('a \<Rightarrow> bytes) \<Rightarrow> 'a list \<Rightarrow> bytes" where
  "enc_list f xs = enc_nat (length xs) @ concat (map f xs)"

definition enc_char :: "char \<Rightarrow> bytes" where
  "enc_char c = enc_nat (of_char c)"

fun enc_key :: "extra_key \<Rightarrow> bytes" where
  "enc_key (MmKey s i) = 0 # enc_list enc_char s @ enc_int i"
| "enc_key (LoraKey s) = 1 # enc_list enc_char s"
| "enc_key (SaltKey s) = 2 # enc_list enc_char s"
| "enc_key (EmbedKey b) = 3 # enc_list (\<lambda>w. [w]) b"

fun enc_input :: "hash_input \<Rightarrow> bytes" where
  "enc_input (p, ts, None) = 0 # enc_list (\<lambda>w. [w]) p @ enc_list enc_int ts"
| "enc_input (p, ts, Some ks) = 1 # enc_list (\<lambda>w. [w]) p @ enc_list enc_int ts @ enc_list enc_key ks"

lemma prefix_codeD: "prefix_code f \<Longrightarrow> f x @ s = f y @ t \<longleftrightarrow> x = y \<and> s = t"
  by (auto simp: prefix_code_def)

lemma enc_nat_simps: "enc_nat 0 = [1]" "enc_nat (Suc n) = 0 # enc_nat n"
  by (simp_all add: enc_nat_def)

lemma enc_nat_prefix: "enc_nat x @ s = enc_nat y @ t \<Longrightarrow> x = y \<and> s = t"
proof (induction x arbitrary: y)
  case 0
  then show ?case by (cases y) (simp_all add: enc_nat_simps)
next
  case (Suc x)
  then obtain y' where y: "y = Suc y'" by (cases y) (simp_all add: enc_nat_simps)
  have "enc_nat x @ s = enc_nat y' @ t" using Suc.prems by (simp add: y enc_nat_simps)
  from Suc.IH[OF this] show ?case by (simp add: y)
qed

lemma prefix_code_nat: "prefix_code enc_nat"
  unfolding prefix_code_def using enc_nat_prefix by blast

lemma prefix_code_int: "prefix_code enc_int"
  unfolding prefix_code_def
proof (intro allI impI)
  fix x y s t assume "enc_int x @ s = enc_int y @ t"
  then show "x = y \<and> s = t"
    by (auto simp: enc_int_def prefix_codeD[OF prefix_code_nat] split: if_splits)
qed

lemma prefix_code_word: "prefix_code (\<lambda>w. [w])"
  by (simp add: prefix_code_def)

lemma prefix_code_char: "prefix_code enc_char"
  unfolding prefix_code_def enc_char_def
  by (auto simp: prefix_codeD[OF prefix_code_nat])

lemma concat_code:
  assumes "prefix_code f" and "length xs = length ys" and "concat (map f xs) @ s = concat (map f ys) @ t"
  shows "xs = ys \<and> s = t"
  using assms(2,3)
  by (induction xs ys arbitrary: s t rule: list_induct2) (auto simp: prefix_codeD[OF assms(1)])

lemma prefix_code_list: "prefix_code f \<Longrightarrow> prefix_code (enc_list f)"
  unfolding prefix_code_def[of "enc_list f"] enc_list_def
  using concat_code[of f] by (auto simp: prefix_codeD[OF prefix_code_nat])

lemmas list_codes = prefix_codeD[OF prefix_code_list[OF prefix_code_word]]
  prefix_codeD[OF prefix_code_list[OF prefix_code_char]] prefix_codeD[OF prefix_code_list[OF prefix_code_int]]

lemma prefix_code_key: "prefix_code enc_key"
  unfolding prefix_code_def
proof (intro allI impI)
  fix x y s t assume "enc_key x @ s = enc_key y @ t"
  then show "x = y \<and> s = t"
    by (cases x; cases y) (auto simp: list_codes prefix_codeD[OF prefix_code_int])
qed

lemma enc_input_inj: "inj enc_input"
proof (rule injI)
  fix x y :: hash_input assume eq: "enc_input x = enc_input y"
  obtain p ts ks where x: "x = (p, ts, ks)" by (cases x)
  obtain q us ls where y: "y = (q, us, ls)" by (cases y)
  note end_codes = list_codes[of _ "[]" _ "[]", simplified] prefix_codeD[OF prefix_code_list[OF prefix_code_key], of _ "[]" _ "[]", simplified]
  show "x = y"
    using eq unfolding x y by (cases ks; cases ls) (auto simp: list_codes end_codes)
qed

lemma enc_input_nonempty: "enc_input x \<noteq> []"
  by (cases x rule: enc_input.cases) auto

lemma enc_input_not_none: "[2] \<notin> range enc_input"
proof
  assume "[2] \<in> range enc_input"
  then obtain x where "[2] = enc_input x" by blast
  then show False by (cases x rule: enc_input.cases) auto
qed

section \<open>Properties\<close>



definition sample_request :: "int list \<Rightarrow> request" where
  "sample_request ts = \<lparr>request_id = ''r'', obj_id = 0, req_priority = 0, arrival_time = 0, status = WAITING,
     max_tokens = 4, num_prompt_tokens = int (length ts), all_token_ids = ts, output_token_ids = [],
     num_computed_tokens = 0, lora_request = None, cache_salt = None, prompt_embeds = None,
     mm_features = [], block_hashes = [], skip_reading_prefix_cache = False, num_preemptions = 0\<rparr>"



end
