(* ===== verification/Block_Pool.thy ===== *)
theory Block_Pool
  imports Request
begin

text \<open>
  The GPU block pool of \<^verbatim>\<open>vllm/v1/core/block_pool.py\<close>: allocation, reference counts, freeing, the
  prefix-cache map from block hashes to blocks, and the cache events. The pool extends the state of
  the free queue, so the queue's operations apply to it directly. \<open>pool_inv\<close> is the well-formedness
  invariant: a block is free exactly when nobody references it, and the prefix cache holds exactly
  the blocks that carry a hash.

  The metrics collector only observes the blocks and is left out. Two values come from outside:
  \<open>sha\<close> digests prompt embeddings, and \<open>use_int_hashes\<close> is the environment switch read by
  \<^verbatim>\<open>maybe_convert_block_hash\<close>.
\<close>

named_theorems pool_simps \<open>reads of a pool after an update\<close>

section \<open>Events\<close>

record block_stored =
  bs_block_hashes :: "external_block_hash list"
  bs_parent_block_hash :: "external_block_hash option"
  bs_token_ids :: "int list"
  bs_block_size :: int
  bs_lora_id :: "int option"
  bs_medium :: string
  bs_lora_name :: "string option"
  bs_extra_keys :: "extra_key list option list option"
  bs_group_idx :: int

record block_removed =
  br_block_hashes :: "external_block_hash list"
  br_medium :: string
  br_group_idx :: int

datatype kv_cache_event =
    BlockStored block_stored
  | BlockRemoved block_removed
  | AllBlocksCleared

section \<open>Hashes at a coarser block size\<close>

text \<open>
  \<^verbatim>\<open>BlockHashList\<close>: the hashes themselves, or a view (\<^verbatim>\<open>BlockHashListWithBlockSize\<close>) that joins
  \<^verbatim>\<open>scale_factor\<close> consecutive ones.
\<close>

datatype block_hash_list = Plain "bytes list" | Scaled "bytes list" int

definition BlockHashListWithBlockSize :: "bytes list \<Rightarrow> int \<Rightarrow> int \<Rightarrow> block_hash_list res" where
  "BlockHashListWithBlockSize hs hash_size target_bs =
     (if hash_size = 0 then Inl ZeroDivisionError
      else if target_bs mod hash_size \<noteq> 0 then Inl AssertionError
      else Inr (Scaled hs (target_bs div hash_size)))"

text \<open>The indices and the scale factor that occur are not negative.\<close>

definition get_value_at :: "bytes list \<Rightarrow> int \<Rightarrow> nat \<Rightarrow> bytes" where
  "get_value_at hs scale idx = concat (take (nat scale) (drop (idx * nat scale) hs))"

fun bh_get :: "block_hash_list \<Rightarrow> nat \<Rightarrow> bytes res" where
  "bh_get (Plain hs) i = (if i < length hs then Inr (hs ! i) else Inl IndexError)"
| "bh_get (Scaled hs scale) i = Inr (get_value_at hs scale i)"

fun bh_from :: "block_hash_list \<Rightarrow> nat \<Rightarrow> bytes list res" where
  "bh_from (Plain hs) i = Inr (drop i hs)"
| "bh_from (Scaled hs scale) i =
     (if scale = 0 then Inl ZeroDivisionError
      else Inr (map (get_value_at hs scale) [i..<nat (int (length hs) div scale)]))"

section \<open>The map from hashes to blocks\<close>

datatype cached_blocks = One ref | Many "(int, ref) dict"

type_synonym hash_map = "bytes \<Rightarrow> cached_blocks option"

definition get_one_block :: "hash_map \<Rightarrow> bytes \<Rightarrow> ref option res" where
  "get_one_block cache key =
     (case cache key of
        None \<Rightarrow> Inr None
      | Some (One r) \<Rightarrow> Inr (Some r)
      | Some (Many d) \<Rightarrow> (case d of [] \<Rightarrow> Inl StopIteration | (_, r) # _ \<Rightarrow> Inr (Some r)))"

definition map_insert :: "bytes \<Rightarrow> ref \<Rightarrow> block_store \<Rightarrow> hash_map \<Rightarrow> hash_map" where
  "map_insert key r st cache =
     (case cache key of
        None \<Rightarrow> cache(key \<mapsto> One r)
      | Some (One b) \<Rightarrow>
          cache(key \<mapsto> Many (dict_set (block_id (st r)) r (dict_set (block_id (st b)) b [])))
      | Some (Many d) \<Rightarrow> cache(key \<mapsto> Many (dict_set (block_id (st r)) r d)))"

definition map_pop :: "bytes \<Rightarrow> int \<Rightarrow> block_store \<Rightarrow> hash_map \<Rightarrow> ref option \<times> hash_map" where
  "map_pop key bid st cache =
     (case cache key of
        None \<Rightarrow> (None, cache)
      | Some (One b) \<Rightarrow>
          if block_id (st b) = bid then (Some b, cache(key := None))
          else (None, cache(key \<mapsto> One b))
      | Some (Many d) \<Rightarrow>
          (let d' = dict_del bid d
           in (map_of d bid, if length d' > 0 then cache(key \<mapsto> Many d') else cache(key := None))))"

section \<open>The pool\<close>

record block_pool = free_queue +
  num_gpu_blocks :: nat
  enable_caching :: bool
  hash_block_size :: int
  cached_map :: hash_map
  null_block :: ref
  enable_kv_cache_events :: bool
  kv_event_queue :: "kv_cache_event list"
  use_int_hashes :: bool

definition upd_block :: "ref \<Rightarrow> (kv_block \<Rightarrow> kv_block) \<Rightarrow> 'z free_queue_scheme \<Rightarrow> 'z free_queue_scheme" where
  "upd_block r f p = p\<lparr>store := (store p)(r := f (store p r))\<rparr>"

definition initial_blocks :: block_store where
  "initial_blocks r = (case r of Blk i \<Rightarrow> KVCacheBlock (int i) | _ \<Rightarrow> KVCacheBlock (-1))"

definition BlockPool :: "nat \<Rightarrow> bool \<Rightarrow> int \<Rightarrow> bool \<Rightarrow> bool \<Rightarrow> block_pool res" where
  "BlockPool n caching hash_size events use_int =
     rbind (py_assert (n > 0)) (\<lambda>_.
     rbind (popleft (FreeKVCacheBlockQueue n initial_blocks)) (\<lambda>(null, q).
       Inr (upd_block null (\<lambda>b. b\<lparr>is_null := True\<rparr>)
         (free_queue.extend q
            \<lparr>num_gpu_blocks = n, enable_caching = caching, hash_block_size = hash_size,
             cached_map = (\<lambda>_. None), null_block = null, enable_kv_cache_events = events,
             kv_event_queue = [], use_int_hashes = use_int\<rparr>))))"

fun get_cached_block :: "bytes \<Rightarrow> int list \<Rightarrow> 'z block_pool_scheme \<Rightarrow> ref list option res" where
  "get_cached_block h [] p = Inr (Some [])"
| "get_cached_block h (g # gs) p =
     rbind (make_block_hash_with_group_id h g) (\<lambda>key.
     rbind (get_one_block (cached_map p) key) (\<lambda>found.
       case found of None \<Rightarrow> Inr None
       | Some b \<Rightarrow> rbind (get_cached_block h gs p) (\<lambda>rest. Inr (map_option (Cons b) rest))))"

text \<open>A block is skipped when it is the null block or masked out.\<close>

definition skip_block :: "'z free_queue_scheme \<Rightarrow> bool list option \<Rightarrow> nat \<Rightarrow> ref \<Rightarrow> bool" where
  "skip_block p msk i r \<longleftrightarrow>
     is_null (store p r) \<or> (case msk of None \<Rightarrow> False | Some m \<Rightarrow> \<not> m ! i)"

text \<open>
  The loop over the new full blocks. The converted hashes are collected here; they are only read
  when events are enabled.
\<close>

fun cache_loop ::
  "bytes list \<Rightarrow> bool list option \<Rightarrow> int \<Rightarrow> nat \<Rightarrow> ref list \<Rightarrow>
     'z block_pool_scheme \<Rightarrow> external_block_hash list \<Rightarrow> ('z block_pool_scheme \<times> external_block_hash list) res"
where
  "cache_loop hs msk g i [] p new_hashes = Inr (p, new_hashes)"
| "cache_loop hs msk g i (r # rs) p new_hashes =
     (if skip_block p msk i r then cache_loop hs msk g (i + 1) rs p new_hashes
      else if block_hash (store p r) \<noteq> None then Inl AssertionError
      else if i \<ge> length hs then Inl IndexError
      else rbind (make_block_hash_with_group_id (hs ! i) g) (\<lambda>key.
           rbind (set_block_hash key (store p r)) (\<lambda>b.
             let p = upd_block r (\<lambda>_. b) p;
                 p = p\<lparr>cached_map := map_insert key r (store p) (cached_map p)\<rparr>
             in cache_loop hs msk g (i + 1) rs p
                  (new_hashes @ [maybe_convert_block_hash (use_int_hashes p) (hs ! i)]))))"

text \<open>The extra keys of the blocks \<open>first + j\<close>, one entry per block that is not skipped.\<close>

fun extra_keys_loop ::
  "(bytes list \<Rightarrow> bytes) \<Rightarrow> 'r request_scheme \<Rightarrow> ref list \<Rightarrow> bool list option \<Rightarrow> int \<Rightarrow> nat \<Rightarrow> nat list
     \<Rightarrow> 'z block_pool_scheme \<Rightarrow> int \<Rightarrow> extra_key list option list \<Rightarrow> extra_key list option list res"
where
  "extra_keys_loop sha r blocks msk bsz first [] p mm_idx acc = Inr acc"
| "extra_keys_loop sha r blocks msk bsz first (i # is) p mm_idx acc =
     (if i \<ge> length blocks then Inl IndexError
      else if skip_block p msk (i - first) (blocks ! i)
      then extra_keys_loop sha r blocks msk bsz first is p mm_idx acc
      else rbind (generate_block_hash_extra_keys sha r (int i * bsz) (int i * bsz + bsz) mm_idx)
             (\<lambda>(keys, mm_idx). extra_keys_loop sha r blocks msk bsz first is p mm_idx (acc @ [keys])))"

definition stored_event ::
  "(bytes list \<Rightarrow> bytes) \<Rightarrow> 'r request_scheme \<Rightarrow> ref list \<Rightarrow> nat \<Rightarrow> nat \<Rightarrow> int \<Rightarrow> int \<Rightarrow> bool list option
     \<Rightarrow> block_hash_list \<Rightarrow> external_block_hash list \<Rightarrow> 'z block_pool_scheme \<Rightarrow> kv_cache_event res"
where
  "stored_event sha r blocks num_cached num_full bsz g msk hashes new_hashes p =
     rbind (if num_cached = 0 then Inr None
            else rbind (bh_get hashes (num_cached - 1))
                   (\<lambda>h. Inr (Some (maybe_convert_block_hash (use_int_hashes p) h)))) (\<lambda>parent.
     rbind (extra_keys_loop sha r blocks msk bsz num_cached [num_cached..<num_full] p 0 []) (\<lambda>keys.
       Inr (BlockStored
         \<lparr>bs_block_hashes = new_hashes, bs_parent_block_hash = parent,
          bs_token_ids = token_slice r (int num_cached * bsz) (int num_full * bsz),
          bs_block_size = bsz, bs_lora_id = map_option lora_int_id (lora_request r),
          bs_medium = ''GPU'', bs_lora_name = map_option lora_name (lora_request r),
          bs_extra_keys = (if keys = [] then None else Some keys), bs_group_idx = g\<rparr>)))"

definition cache_full_blocks ::
  "(bytes list \<Rightarrow> bytes) \<Rightarrow> 'r request_scheme \<Rightarrow> ref list \<Rightarrow> nat \<Rightarrow> nat \<Rightarrow> int \<Rightarrow> int \<Rightarrow> bool list option
     \<Rightarrow> 'z block_pool_scheme \<Rightarrow> 'z block_pool_scheme res"
where
  "cache_full_blocks sha r blocks num_cached num_full bsz g msk p =
     (if num_cached \<ge> num_full then Inr p
      else let new_full = take (num_full - num_cached) (drop num_cached blocks) in
      rbind (py_assert (length (block_hashes r) \<ge> num_full)) (\<lambda>_.
      rbind (py_assert (case msk of None \<Rightarrow> True | Some m \<Rightarrow> length m = length new_full)) (\<lambda>_.
      rbind (if bsz = hash_block_size p then Inr (Plain (block_hashes r))
             else BlockHashListWithBlockSize (block_hashes r) (hash_block_size p) bsz) (\<lambda>hashes.
      rbind (bh_from hashes num_cached) (\<lambda>new_block_hashes.
      rbind (cache_loop new_block_hashes msk g 0 new_full p []) (\<lambda>(p, new_hashes).
        if enable_kv_cache_events p
        then rbind (stored_event sha r blocks num_cached num_full bsz g msk hashes new_hashes p) (\<lambda>e.
               Inr (p\<lparr>kv_event_queue := kv_event_queue p @ [e]\<rparr>))
        else Inr p))))))"

definition maybe_evict_cached_block :: "ref \<Rightarrow> 'z block_pool_scheme \<Rightarrow> bool \<times> 'z block_pool_scheme" where
  "maybe_evict_cached_block r p =
     (case block_hash (store p r) of
        None \<Rightarrow> (False, p)
      | Some h \<Rightarrow>
          (case map_pop h (block_id (store p r)) (store p) (cached_map p) of
             (None, cache) \<Rightarrow> (False, p\<lparr>cached_map := cache\<rparr>)
           | (Some _, cache) \<Rightarrow>
               (let p = upd_block r reset_hash (p\<lparr>cached_map := cache\<rparr>)
                in (True,
                    if enable_kv_cache_events p
                    then p\<lparr>kv_event_queue := kv_event_queue p @
                           [BlockRemoved \<lparr>br_block_hashes =
                              [maybe_convert_block_hash (use_int_hashes p) (get_block_hash h)],
                              br_medium = ''GPU'', br_group_idx = get_group_id h\<rparr>]\<rparr>
                    else p))))"

definition incr_ref :: "ref \<Rightarrow> 'z free_queue_scheme \<Rightarrow> 'z free_queue_scheme" where
  "incr_ref r = upd_block r (\<lambda>b. b\<lparr>ref_cnt := ref_cnt b + 1\<rparr>)"

definition decr_ref :: "ref \<Rightarrow> 'z free_queue_scheme \<Rightarrow> 'z free_queue_scheme" where
  "decr_ref r = upd_block r (\<lambda>b. b\<lparr>ref_cnt := ref_cnt b - 1\<rparr>)"

definition take_block :: "ref \<Rightarrow> 'z block_pool_scheme \<Rightarrow> 'z block_pool_scheme res" where
  "take_block r p =
     (let p = (if enable_caching p then snd (maybe_evict_cached_block r p) else p)
      in rbind (py_assert (ref_cnt (store p r) = 0)) (\<lambda>_. Inr (incr_ref r p)))"

definition get_num_free_blocks :: "'z free_queue_scheme \<Rightarrow> int" where
  "get_num_free_blocks p = num_free_blocks p"

definition get_new_blocks :: "nat \<Rightarrow> 'z block_pool_scheme \<Rightarrow> (ref list \<times> 'z block_pool_scheme) res" where
  "get_new_blocks n p =
     (if int n > get_num_free_blocks p
      then Inl (ValueError ''Cannot get free blocks from the pool'')
      else rbind (popleft_n n p) (\<lambda>(ret, p). rbind (rfold take_block ret p) (\<lambda>p. Inr (ret, p))))"

definition touch_one :: "ref \<Rightarrow> 'z free_queue_scheme \<Rightarrow> 'z free_queue_scheme res" where
  "touch_one r p =
     rbind (if ref_cnt (store p r) = 0 \<and> \<not> is_null (store p r) then queue_remove r p else Inr p)
       (\<lambda>p. Inr (incr_ref r p))"

definition touch :: "ref list \<Rightarrow> 'z free_queue_scheme \<Rightarrow> 'z free_queue_scheme res" where
  "touch rs p = rfold touch_one rs p"

definition free_blocks :: "ref list \<Rightarrow> 'z free_queue_scheme \<Rightarrow> 'z free_queue_scheme res" where
  "free_blocks rs p =
     (let p = fold decr_ref rs p
      in append_n (filter (\<lambda>r. ref_cnt (store p r) = 0 \<and> \<not> is_null (store p r)) rs) p)"

text \<open>A negative id would index from the end of the list in Python; worker ids are natural numbers.\<close>

definition evict_one :: "nat \<Rightarrow> 'z block_pool_scheme \<Rightarrow> 'z block_pool_scheme res" where
  "evict_one i p = rbind (py_assert (i < num_gpu_blocks p))
     (\<lambda>_. Inr (snd (maybe_evict_cached_block (Blk i) p)))"

definition evict_blocks :: "nat list \<Rightarrow> 'z block_pool_scheme \<Rightarrow> 'z block_pool_scheme res" where
  "evict_blocks ids p = rfold evict_one ids p"

definition reset_prefix_cache :: "'z block_pool_scheme \<Rightarrow> bool \<times> 'z block_pool_scheme" where
  "reset_prefix_cache p =
     (if int (num_gpu_blocks p) - get_num_free_blocks p \<noteq> 1 then (False, p)
      else let p = p\<lparr>cached_map := (\<lambda>_. None)\<rparr>;
               p = fold (\<lambda>i. upd_block (Blk i) reset_hash) [0..<num_gpu_blocks p] p
           in (True, if enable_kv_cache_events p
                     then p\<lparr>kv_event_queue := kv_event_queue p @ [AllBlocksCleared]\<rparr> else p))"

fun peek_loop :: "block_store \<Rightarrow> nat \<Rightarrow> ref option \<Rightarrow> (int \<times> bytes option) list" where
  "peek_loop st 0 cur = []"
| "peek_loop st (Suc n) None = []"
| "peek_loop st (Suc n) (Some r) =
     (if r = Tail then []
      else (block_id (st r), block_hash (st r)) # peek_loop st n (next_free_block (st r)))"

definition peek_free_block_frontier :: "int \<Rightarrow> 'z free_queue_scheme \<Rightarrow> (int \<times> bytes option) list res" where
  "peek_free_block_frontier limit p =
     rbind (py_assert (limit \<ge> 0))
       (\<lambda>_. Inr (peek_loop (store p) (nat limit) (next_free_block (store p Head))))"

definition get_usage :: "'z block_pool_scheme \<Rightarrow> real" where
  "get_usage p =
     (let total = int (num_gpu_blocks p) - 1
      in if total = 0 then 0 else 1 - real_of_int (get_num_free_blocks p) / real_of_int total)"

definition take_events :: "'z block_pool_scheme \<Rightarrow> kv_cache_event list \<times> 'z block_pool_scheme" where
  "take_events p =
     (if \<not> enable_kv_cache_events p then ([], p)
      else (kv_event_queue p, p\<lparr>kv_event_queue := []\<rparr>))"

section \<open>Invariant\<close>

fun entry_blocks :: "cached_blocks option \<Rightarrow> ref set" where
  "entry_blocks None = {}"
| "entry_blocks (Some (One r)) = {r}"
| "entry_blocks (Some (Many d)) = snd ` set d"

fun entry_ok :: "block_store \<Rightarrow> cached_blocks option \<Rightarrow> bool" where
  "entry_ok st (Some (Many d)) \<longleftrightarrow> d \<noteq> [] \<and> wf_dict d \<and> (\<forall>(i, r) \<in> set d. i = block_id (st r))"
| "entry_ok st _ \<longleftrightarrow> True"

text \<open>The blocks that can be handed out: all but the null block.\<close>

definition live :: "'z block_pool_scheme \<Rightarrow> nat \<Rightarrow> bool" where
  "live p b \<longleftrightarrow> 0 < b \<and> b < num_gpu_blocks p"

definition blocks_ok :: "'z block_pool_scheme \<Rightarrow> bool" where
  "blocks_ok p \<longleftrightarrow> 0 < num_gpu_blocks p \<and> null_block p = Blk 0
     \<and> (\<forall>b < num_gpu_blocks p. block_id (store p (Blk b)) = int b)
     \<and> (\<forall>b < num_gpu_blocks p. is_null (store p (Blk b)) \<longleftrightarrow> b = 0)"

definition cache_ok :: "'z block_pool_scheme \<Rightarrow> bool" where
  "cache_ok p \<longleftrightarrow> (\<forall>key. entry_ok (store p) (cached_map p key))
     \<and> (\<forall>key r. r \<in> entry_blocks (cached_map p key) \<longleftrightarrow>
          (\<exists>b. r = Blk b \<and> live p b \<and> block_hash (store p (Blk b)) = Some key))
     \<and> block_hash (store p (Blk 0)) = None"

text \<open>
  A block is in the free list or among the blocks \<open>F\<close> an operation has in its hands exactly when
  its reference count is zero.
\<close>

definition counts_ok :: "nat set \<Rightarrow> 'z block_pool_scheme \<Rightarrow> nat list \<Rightarrow> bool" where
  "counts_ok F p xs \<longleftrightarrow> set xs \<inter> F = {}
     \<and> (\<forall>b. b \<in> set xs \<union> F \<longleftrightarrow> live p b \<and> ref_cnt (store p (Blk b)) = 0)
     \<and> (\<forall>b. live p b \<longrightarrow> 0 \<le> ref_cnt (store p (Blk b)))"

definition pool_inv_upto :: "nat set \<Rightarrow> 'z block_pool_scheme \<Rightarrow> nat list \<Rightarrow> bool" where
  "pool_inv_upto F p xs \<longleftrightarrow> fq_repr p xs \<and> blocks_ok p \<and> cache_ok p \<and> counts_ok F p xs"

abbreviation pool_inv :: "'z block_pool_scheme \<Rightarrow> nat list \<Rightarrow> bool" where
  "pool_inv \<equiv> pool_inv_upto {}"

definition same_config :: "'z block_pool_scheme \<Rightarrow> 'z block_pool_scheme \<Rightarrow> bool" where
  "same_config p p' \<longleftrightarrow> num_gpu_blocks p' = num_gpu_blocks p \<and> enable_caching p' = enable_caching p
     \<and> hash_block_size p' = hash_block_size p \<and> null_block p' = null_block p
     \<and> enable_kv_cache_events p' = enable_kv_cache_events p \<and> use_int_hashes p' = use_int_hashes p"

lemma pool_invD:
  assumes "pool_inv_upto F p xs"
  shows "fq_repr p xs" "blocks_ok p" "cache_ok p" "counts_ok F p xs"
  using assms by (simp_all add: pool_inv_upto_def)

lemma pool_inv_block:
  assumes "pool_inv_upto F p xs" and "b < num_gpu_blocks p"
  shows "block_id (store p (Blk b)) = int b" and "is_null (store p (Blk b)) \<longleftrightarrow> b = 0"
  using assms by (simp_all add: pool_inv_upto_def blocks_ok_def)

lemma pool_inv_free:
  assumes "pool_inv p xs"
  shows "b \<in> set xs \<longleftrightarrow> live p b \<and> ref_cnt (store p (Blk b)) = 0"
  using assms by (simp add: pool_inv_upto_def counts_ok_def)

lemma same_config_refl [simp, intro]: "same_config p p"
  by (simp add: same_config_def)

lemma same_config_trans [trans]: "same_config a b \<Longrightarrow> same_config b c \<Longrightarrow> same_config a c"
  by (simp add: same_config_def)

lemma same_configD [pool_simps]:
  assumes "same_config p p'"
  shows "num_gpu_blocks p' = num_gpu_blocks p" "enable_caching p' = enable_caching p"
    "hash_block_size p' = hash_block_size p" "null_block p' = null_block p"
    "enable_kv_cache_events p' = enable_kv_cache_events p" "use_int_hashes p' = use_int_hashes p"
    "live p' = live p"
  using assms by (auto simp: same_config_def live_def fun_eq_iff)

lemma store_upd_block [simp, pool_simps]: "store (upd_block r f p) = (store p)(r := f (store p r))"
  by (simp add: upd_block_def)

lemma more_upd_block [simp, pool_simps]: "free_queue.more (upd_block r f p) = free_queue.more p"
  by (simp add: upd_block_def)

lemma num_free_upd_block [simp, pool_simps]: "num_free_blocks (upd_block r f p) = num_free_blocks p"
  by (simp add: upd_block_def)

lemma pool_upd_block [simp, pool_simps]:
  "num_gpu_blocks (upd_block r f p) = num_gpu_blocks p"
  "cached_map (upd_block r f p) = cached_map p"
  "enable_caching (upd_block r f p) = enable_caching p"
  "hash_block_size (upd_block r f p) = hash_block_size p"
  "enable_kv_cache_events (upd_block r f p) = enable_kv_cache_events p"
  "kv_event_queue (upd_block r f p) = kv_event_queue p"
  "null_block (upd_block r f p) = null_block p"
  "use_int_hashes (upd_block r f p) = use_int_hashes p"
  "same_config p (upd_block r f p)"
  "live (upd_block r f p) = live p"
  by (simp_all add: upd_block_def same_config_def live_def fun_eq_iff)

text \<open>The queue operations leave everything but the store and the counter alone.\<close>

lemma more_eqD:
  assumes "free_queue.more p' = free_queue.more p"
  shows "cached_map p' = cached_map p" "kv_event_queue p' = kv_event_queue p" "same_config p p'"
    "live p' = live p" "num_gpu_blocks p' = num_gpu_blocks p"
proof -
  have p': "p' = p\<lparr>store := store p', num_free_blocks := num_free_blocks p'\<rparr>"
    using assms by (cases p, cases p') simp
  show "cached_map p' = cached_map p" by (subst p') simp
  show "kv_event_queue p' = kv_event_queue p" by (subst p') simp
  show "same_config p p'" by (subst p') (simp add: same_config_def)
  then show "live p' = live p" "num_gpu_blocks p' = num_gpu_blocks p" by (simp_all add: same_configD)
qed

section \<open>Building blocks of the operations\<close>

lemma linked_cong:
  assumes "\<And>r. next_free_block (st' r) = next_free_block (st r) \<and> prev_free_block (st' r) = prev_free_block (st r)"
  shows "linked st' zs = linked st zs"
  using assms by (induction st zs rule: linked.induct) auto

lemma fq_repr_upd_block:
  assumes "fq_repr p xs" and "next_free_block (f (store p r)) = next_free_block (store p r)"
    and "prev_free_block (f (store p r)) = prev_free_block (store p r)"
  shows "fq_repr (upd_block r f p) xs"
proof -
  have "linked (store (upd_block r f p)) (chain xs) = linked (store p) (chain xs)"
    by (rule linked_cong) (simp add: assms(2,3))
  then show ?thesis using assms by (auto simp: fq_repr_def)
qed

lemma entry_ok_cong:
  assumes "\<And>r. block_id (st' r) = block_id (st r)"
  shows "entry_ok st' c = entry_ok st c"
  using assms by (induction st c rule: entry_ok.induct) auto

text \<open>A queue operation moves blocks between the free list and the blocks in hand.\<close>

lemma pool_inv_fq_next:
  assumes inv: "pool_inv_upto F p xs" and nx: "fq_next p p' ys"
    and mv: "set ys \<union> F' = set xs \<union> F" and dj: "set ys \<inter> F' = {}"
  shows "pool_inv_upto F' p' ys" and "same_config p p'" and "cached_map p' = cached_map p"
    and "kv_event_queue p' = kv_event_queue p" and "same_data (store p) (store p')"
proof -
  note m = more_eqD[OF fq_nextD(3)[OF nx]]
  show "same_config p p'" "cached_map p' = cached_map p" "kv_event_queue p' = kv_event_queue p"
    by (rule m)+
  show sd: "same_data (store p) (store p')" by (rule fq_nextD(2)[OF nx])
  have "entry_ok (store p') c = entry_ok (store p) c" for c
    by (rule entry_ok_cong) (rule same_dataD(1)[OF sd])
  then show "pool_inv_upto F' p' ys"
    using inv fq_nextD(1)[OF nx] mv dj m same_configD[OF m(3)]
    by (simp add: pool_inv_upto_def blocks_ok_def cache_ok_def counts_ok_def same_dataD[OF sd])
qed

text \<open>Writing a reference count.\<close>

definition set_ref :: "nat \<Rightarrow> int \<Rightarrow> 'z free_queue_scheme \<Rightarrow> 'z free_queue_scheme" where
  "set_ref b c = upd_block (Blk b) (\<lambda>k. k\<lparr>ref_cnt := c\<rparr>)"

lemma incr_ref_set: "incr_ref (Blk b) p = set_ref b (ref_cnt (store p (Blk b)) + 1) p"
  by (simp add: incr_ref_def set_ref_def upd_block_def)

lemma decr_ref_set: "decr_ref (Blk b) p = set_ref b (ref_cnt (store p (Blk b)) - 1) p"
  by (simp add: decr_ref_def set_ref_def upd_block_def)

lemma set_ref_frame [simp, pool_simps]:
  "cached_map (set_ref b c q) = cached_map q" "kv_event_queue (set_ref b c q) = kv_event_queue q"
  "same_config q (set_ref b c q)" "live (set_ref b c q) = live q"
  "num_gpu_blocks (set_ref b c q) = num_gpu_blocks q"
  by (simp_all add: set_ref_def)

lemma set_ref_inv:
  assumes inv: "pool_inv_upto F p xs" and b: "b < num_gpu_blocks p" "b \<notin> set xs"
    and c: "0 < b \<Longrightarrow> 0 \<le> c"
  shows "pool_inv_upto (if c = 0 \<and> 0 < b then insert b F else F - {b}) (set_ref b c p) xs"
proof -
  have fq: "fq_repr (set_ref b c p) xs"
    unfolding set_ref_def by (rule fq_repr_upd_block[OF pool_invD(1)[OF inv]]) simp_all
  have "entry_ok (store (set_ref b c p)) e = entry_ok (store p) e" for e
    by (rule entry_ok_cong) (simp add: set_ref_def)
  moreover have "block_hash (store (set_ref b c p) r) = block_hash (store p r)" for r
    by (simp add: set_ref_def)
  ultimately have "cache_ok (set_ref b c p)"
    using pool_invD(3)[OF inv] by (simp add: cache_ok_def)
  moreover have "blocks_ok (set_ref b c p)"
    using pool_invD(2)[OF inv] by (simp add: blocks_ok_def set_ref_def)
  moreover have "counts_ok (if c = 0 \<and> 0 < b then insert b F else F - {b}) (set_ref b c p) xs"
    using pool_invD(4)[OF inv] b c by (auto simp: counts_ok_def set_ref_def live_def)
  ultimately show ?thesis using fq by (simp add: pool_inv_upto_def)
qed

lemma store_set_ref [simp, pool_simps]:
  "store (set_ref b c p) = (store p)(Blk b := (store p (Blk b))\<lparr>ref_cnt := c\<rparr>)"
  by (simp add: set_ref_def)

text \<open>Writing a block hash together with its entry in the map.\<close>

lemma entry_blocks_map_pop:
  assumes ok: "\<And>k. entry_ok st (cache k)" and r: "r \<in> entry_blocks (cache key)"
    and inj: "\<And>r'. r' \<in> entry_blocks (cache key) \<Longrightarrow> block_id (st r') = block_id (st r) \<Longrightarrow> r' = r"
    and pop: "map_pop key (block_id (st r)) st cache = (found, cache')"
  shows "found = Some r" and "entry_ok st (cache' k)"
    and "entry_blocks (cache' k) = entry_blocks (cache k) - (if k = key then {r} else {})"
proof -
  have "found = Some r \<and> entry_ok st (cache' k)
    \<and> entry_blocks (cache' k) = entry_blocks (cache k) - (if k = key then {r} else {})"
  proof (cases "cache key")
    case None
    then show ?thesis using r by simp
  next
    case (Some c)
    then show ?thesis
    proof (cases c)
      case (One b)
      then show ?thesis using Some r pop ok by (auto simp: map_pop_def)
    next
      case (Many d)
      let ?i = "block_id (st r)"
      from ok[of key] Some Many have d: "wf_dict d" "\<forall>(i, r) \<in> set d. i = block_id (st r)" by auto
      have rd: "(?i, r) \<in> set d" using r d(2) Some Many by auto
      have sn: "(a, b) \<in> set d \<Longrightarrow> b \<in> snd ` set d" for a b by force
      have "map_of d ?i = Some r" using d(1) rd by simp
      moreover have "snd ` set (dict_del ?i d) = snd ` set d - {r}"
        using d(2) inj rd Some Many by (force simp: set_dict_delete)
      moreover have "entry_ok st (Some (Many (dict_del ?i d)))" if "dict_del ?i d \<noteq> []"
        using that d by (auto simp: set_dict_delete)
      ultimately show ?thesis
        using pop Some Many ok[of k]
        by (cases "k = key") (auto simp: map_pop_def Let_def split: if_splits dest: sn)
    qed
  qed
  then show "found = Some r" "entry_ok st (cache' k)"
    "entry_blocks (cache' k) = entry_blocks (cache k) - (if k = key then {r} else {})" by auto
qed

lemma entry_blocks_map_insert:
  assumes ok: "\<And>k. entry_ok st (cache k)"
    and inj: "\<And>r'. r' \<in> entry_blocks (cache key) \<Longrightarrow> block_id (st r') \<noteq> block_id (st r)"
  shows "entry_ok st (map_insert key r st cache k)"
    and "entry_blocks (map_insert key r st cache k) =
           entry_blocks (cache k) \<union> (if k = key then {r} else {})"
proof -
  have "entry_ok st (map_insert key r st cache k) \<and> entry_blocks (map_insert key r st cache k) =
           entry_blocks (cache k) \<union> (if k = key then {r} else {})"
  proof (cases "cache key")
    case None
    then show ?thesis using ok by (auto simp: map_insert_def)
  next
    case (Some c)
    then show ?thesis
    proof (cases c)
      case (One b)
      then show ?thesis using Some inj ok by (auto simp: map_insert_def)
    next
      case (Many d)
      let ?i = "block_id (st r)"
      from ok[of key] Some Many have d: "wf_dict d" "\<forall>(i, r) \<in> set d. i = block_id (st r)" by auto
      have "?i \<notin> fst ` set d" using inj d(2) Some Many by fastforce
      then have "dict_set ?i r d = d @ [(?i, r)]" by (induction d) auto
      then show ?thesis
        using Some Many ok[of k] d \<open>?i \<notin> fst ` set d\<close> by (auto simp: map_insert_def)
    qed
  qed
  then show "entry_ok st (map_insert key r st cache k)" "entry_blocks (map_insert key r st cache k) =
           entry_blocks (cache k) \<union> (if k = key then {r} else {})" by auto
qed

section \<open>Eviction and allocation\<close>

definition removed_event :: "bool \<Rightarrow> bytes \<Rightarrow> kv_cache_event" where
  "removed_event use_int h = BlockRemoved
     \<lparr>br_block_hashes = [maybe_convert_block_hash use_int (get_block_hash h)], br_medium = ''GPU'',
      br_group_idx = get_group_id h\<rparr>"

definition evict_events :: "'z block_pool_scheme \<Rightarrow> nat \<Rightarrow> kv_cache_event list" where
  "evict_events p b = (case block_hash (store p (Blk b)) of None \<Rightarrow> []
     | Some h \<Rightarrow> if enable_kv_cache_events p then [removed_event (use_int_hashes p) h] else [])"

lemma block_hash_None_id: "block_hash k = None \<Longrightarrow> k\<lparr>block_hash := None\<rparr> = k"
  by (cases k) simp

lemma entry_blocks_id:
  assumes "pool_inv_upto F p xs" and "r \<in> entry_blocks (cached_map p key)"
  obtains b where "r = Blk b" "live p b" "block_id (store p r) = int b" "block_hash (store p r) = Some key"
  using assms by (auto simp: pool_inv_upto_def cache_ok_def blocks_ok_def live_def)

lemma pool_fields_frame [simp, pool_simps]:
  "live (p\<lparr>cached_map := c\<rparr>) = live p" "live (p\<lparr>kv_event_queue := e\<rparr>) = live p"
  "same_config q (p\<lparr>cached_map := c\<rparr>) = same_config q p"
  "same_config q (p\<lparr>kv_event_queue := e\<rparr>) = same_config q p"
  "same_config q (upd_block r f p) = same_config q p"
  by (simp_all add: live_def same_config_def fun_eq_iff)

lemma pool_inv_events [simp, pool_simps]:
  "pool_inv_upto F (p\<lparr>kv_event_queue := e\<rparr>) xs = pool_inv_upto F p xs"
  by (simp add: pool_inv_upto_def fq_repr_def blocks_ok_def cache_ok_def counts_ok_def)

text \<open>Changing the hash of one block along with the entry of the map.\<close>

lemma cache_change_inv:
  assumes inv: "pool_inv_upto F p xs" and b: "live p b"
    and ok: "\<And>k. entry_ok (store p) (cache k)"
    and bl: "\<And>k. entry_blocks (cache k) = entry_blocks (cached_map p k) - {Blk b}
               \<union> (if h = Some k then {Blk b} else {})"
  shows "pool_inv_upto F (upd_block (Blk b) (\<lambda>k. k\<lparr>block_hash := h\<rparr>) (p\<lparr>cached_map := cache\<rparr>)) xs"
    (is "pool_inv_upto F ?p xs")
proof -
  have "fq_repr ?p xs"
    by (rule fq_repr_upd_block) (use pool_invD(1)[OF inv] in \<open>simp_all add: fq_repr_def\<close>)
  moreover have "blocks_ok ?p" "counts_ok F ?p xs"
    using pool_invD(2,4)[OF inv] by (auto simp: blocks_ok_def counts_ok_def)
  ultimately have *: "fq_repr ?p xs \<and> blocks_ok ?p \<and> counts_ok F ?p xs" by blast
  have "entry_ok (store ?p) e = entry_ok (store p) e" for e
    by (rule entry_ok_cong) simp
  moreover have "r \<in> entry_blocks (cache key) \<longleftrightarrow>
      (\<exists>c. r = Blk c \<and> live p c \<and> block_hash (store ?p (Blk c)) = Some key)" for key r
    using pool_invD(3)[OF inv] b unfolding bl cache_ok_def by (cases "r = Blk b") auto
  ultimately have "cache_ok ?p"
    using pool_invD(3)[OF inv] b ok by (simp add: cache_ok_def live_def)
  with * show ?thesis by (simp add: pool_inv_upto_def)
qed

lemma evict_spec:
  assumes inv: "pool_inv_upto F p xs" and b: "b < num_gpu_blocks p"
  shows "\<exists>p'. maybe_evict_cached_block (Blk b) p = (block_hash (store p (Blk b)) \<noteq> None, p')
    \<and> pool_inv_upto F p' xs \<and> same_config p p'
    \<and> store p' = (store p)(Blk b := (store p (Blk b))\<lparr>block_hash := None\<rparr>)
    \<and> kv_event_queue p' = kv_event_queue p @ evict_events p b"
proof (cases "block_hash (store p (Blk b))")
  case None
  then show ?thesis using inv
    by (simp add: maybe_evict_cached_block_def evict_events_def block_hash_None_id)
next
  case (Some h)
  have lv: "live p b"
    using pool_invD(3)[OF inv] Some b by (cases b) (auto simp: cache_ok_def live_def)
  have r: "Blk b \<in> entry_blocks (cached_map p h)"
    using pool_invD(3)[OF inv] lv Some by (auto simp: cache_ok_def)
  obtain found cache where pop: "map_pop h (block_id (store p (Blk b))) (store p) (cached_map p) = (found, cache)"
    by fastforce
  have ok: "entry_ok (store p) (cached_map p k)" for k
    using pool_invD(3)[OF inv] by (simp add: cache_ok_def)
  have inj: "r' = Blk b" if r': "r' \<in> entry_blocks (cached_map p h)"
    and eq: "block_id (store p r') = block_id (store p (Blk b))" for r'
  proof -
    obtain c where "r' = Blk c" "block_id (store p r') = int c"
      by (rule entry_blocks_id[OF inv r']) blast
    then show ?thesis using eq pool_inv_block(1)[OF inv b] by simp
  qed
  note pp = entry_blocks_map_pop[OF ok r inj pop]
  have other: "Blk b \<notin> entry_blocks (cached_map p k)" if "k \<noteq> h" for k
    using pool_invD(3)[OF inv] Some that by (simp add: cache_ok_def)
  have bl: "entry_blocks (cache k) = entry_blocks (cached_map p k) - {Blk b}
               \<union> (if None = Some k then {Blk b} else {})" for k
    using pp(3)[of k] other[of k] by auto
  have "pool_inv_upto F (upd_block (Blk b) (\<lambda>k. k\<lparr>block_hash := None\<rparr>) (p\<lparr>cached_map := cache\<rparr>)) xs"
    by (rule cache_change_inv[OF inv lv pp(2) bl])
  then show ?thesis
    using Some pop pp(1) unfolding maybe_evict_cached_block_def evict_events_def
    by (simp add: Let_def removed_event_def reset_hash_def[abs_def])
qed

text \<open>What allocation does to a block: its hash is dropped when caching is on, and it gets one owner.\<close>

definition taken :: "bool \<Rightarrow> kv_block \<Rightarrow> kv_block" where
  "taken caching k = k\<lparr>block_hash := (if caching then None else block_hash k), ref_cnt := 1\<rparr>"

definition take_events_of :: "'z block_pool_scheme \<Rightarrow> nat list \<Rightarrow> kv_cache_event list" where
  "take_events_of p ys = (if enable_caching p then concat (map (evict_events p) ys) else [])"

lemma counts_in_hand:
  assumes "pool_inv_upto F p xs" and "b \<in> F"
  shows "live p b" "b < num_gpu_blocks p" "ref_cnt (store p (Blk b)) = 0" "b \<notin> set xs"
  using assms by (auto simp: pool_inv_upto_def counts_ok_def live_def)

lemma counts_zero:
  assumes "pool_inv_upto F p xs" and "b \<in> set xs \<union> F"
  shows "live p b \<and> ref_cnt (store p (Blk b)) = 0"
  using assms unfolding pool_inv_upto_def counts_ok_def by blast

lemma take_block_spec:
  assumes inv: "pool_inv_upto F p xs" and b: "b \<in> F"
  shows "\<exists>p'. take_block (Blk b) p = Inr p' \<and> pool_inv_upto (F - {b}) p' xs \<and> same_config p p'
    \<and> store p' = (store p)(Blk b := taken (enable_caching p) (store p (Blk b)))
    \<and> kv_event_queue p' = kv_event_queue p @ take_events_of p [b]"
proof -
  note f = counts_in_hand[OF inv b]
  define q where "q = (if enable_caching p then snd (maybe_evict_cached_block (Blk b) p) else p)"
  have q: "pool_inv_upto F q xs \<and> same_config p q
    \<and> store q = (store p)(Blk b := (store p (Blk b))\<lparr>block_hash :=
        (if enable_caching p then None else block_hash (store p (Blk b)))\<rparr>)
    \<and> kv_event_queue q = kv_event_queue p @ take_events_of p [b]"
    using evict_spec[OF inv f(2)] inv by (auto simp: q_def take_events_of_def)
  have "pool_inv_upto (F - {b}) (set_ref b 1 q) xs"
    using set_ref_inv[of F q xs b 1] q f by (auto simp: same_configD)
  moreover have "take_block (Blk b) p = Inr (set_ref b 1 q)"
    using q f(3) by (simp add: take_block_def Let_def q_def[symmetric] incr_ref_set)
  ultimately show ?thesis
    using q f by (auto simp: taken_def intro: same_config_trans)
qed

lemma take_events_of_cong:
  assumes c: "same_config p p'"
    and "\<And>b. b \<in> set ys \<Longrightarrow> block_hash (store p' (Blk b)) = block_hash (store p (Blk b))"
  shows "take_events_of p' ys = take_events_of p ys"
proof -
  have "enable_kv_cache_events p' = enable_kv_cache_events p" "use_int_hashes p' = use_int_hashes p"
    using c by (simp_all add: same_config_def)
  then have "map (evict_events p') ys = map (evict_events p) ys"
    using assms(2) by (simp add: evict_events_def split: option.splits)
  then have "concat (map (evict_events p') ys) = concat (map (evict_events p) ys)" by (rule arg_cong)
  then show ?thesis by (simp add: take_events_of_def same_configD(2)[OF c])
qed

lemma take_blocks_spec:
  assumes "pool_inv_upto F p xs" and "distinct ys" and "set ys \<subseteq> F"
  shows "\<exists>p'. rfold take_block (map Blk ys) p = Inr p' \<and> pool_inv_upto (F - set ys) p' xs
    \<and> same_config p p'
    \<and> store p' = (\<lambda>r. if r \<in> Blk ` set ys then taken (enable_caching p) (store p r) else store p r)
    \<and> kv_event_queue p' = kv_event_queue p @ take_events_of p ys"
  using assms
proof (induction ys arbitrary: F p)
  case Nil
  then show ?case by (simp add: take_events_of_def)
next
  case (Cons b ys)
  obtain p1 where p1: "take_block (Blk b) p = Inr p1" "pool_inv_upto (F - {b}) p1 xs" "same_config p p1"
    "store p1 = (store p)(Blk b := taken (enable_caching p) (store p (Blk b)))"
    "kv_event_queue p1 = kv_event_queue p @ take_events_of p [b]"
    using take_block_spec[of F p xs b] Cons.prems by auto
  obtain p2 where p2: "rfold take_block (map Blk ys) p1 = Inr p2" "pool_inv_upto (F - {b} - set ys) p2 xs"
    "same_config p1 p2"
    "store p2 = (\<lambda>r. if r \<in> Blk ` set ys then taken (enable_caching p1) (store p1 r) else store p1 r)"
    "kv_event_queue p2 = kv_event_queue p1 @ take_events_of p1 ys"
    using Cons.IH[OF p1(2)] Cons.prems by auto
  have "take_events_of p1 ys = take_events_of p ys"
    by (rule take_events_of_cong[OF p1(3)]) (use Cons.prems(2) p1(4) in auto)
  then have "kv_event_queue p2 = kv_event_queue p @ take_events_of p (b # ys)"
    using p1(5) p2(5) by (simp add: take_events_of_def)
  moreover have "store p2 = (\<lambda>r. if r \<in> Blk ` set (b # ys) then taken (enable_caching p) (store p r) else store p r)"
    using p1(4) p2(4) Cons.prems(2) by (auto simp: same_configD[OF p1(3)] fun_eq_iff)
  moreover have "F - {b} - set ys = F - set (b # ys)" by auto
  ultimately show ?case using p1(1) p2(1,2) same_config_trans[OF p1(3) p2(3)] by auto
qed

lemma get_new_blocks_spec:
  assumes inv: "pool_inv p xs" and n: "n \<le> length xs"
  shows "\<exists>p'. get_new_blocks n p = Inr (map Blk (take n xs), p') \<and> pool_inv p' (drop n xs)
    \<and> same_config p p'
    \<and> (\<forall>b. data_of (store p' (Blk b)) = data_of (if b \<in> set (take n xs)
          then taken (enable_caching p) (store p (Blk b)) else store p (Blk b)))
    \<and> kv_event_queue p' = kv_event_queue p @ take_events_of p (take n xs)"
proof -
  have d: "distinct xs" using pool_invD(1)[OF inv] by (rule fq_repr_distinct)
  obtain p1 where p1: "popleft_n n p = Inr (map Blk (take n xs), p1)" "fq_next p p1 (drop n xs)"
    using popleft_n_repr[of p "take n xs" "drop n xs"] pool_invD(1)[OF inv] n by auto
  have "set (drop n xs) \<union> set (take n xs) = set xs" by (metis append_take_drop_id set_append Un_commute)
  moreover have "set (drop n xs) \<inter> set (take n xs) = {}"
    using d by (metis append_take_drop_id distinct_append inf_commute)
  ultimately have i1: "pool_inv_upto (set (take n xs)) p1 (drop n xs)" "same_config p p1"
    "kv_event_queue p1 = kv_event_queue p" "same_data (store p) (store p1)"
    using pool_inv_fq_next[OF inv p1(2), of "set (take n xs)"] by auto
  obtain p2 where p2: "rfold take_block (map Blk (take n xs)) p1 = Inr p2" "pool_inv p2 (drop n xs)"
    "same_config p1 p2"
    "store p2 = (\<lambda>r. if r \<in> Blk ` set (take n xs) then taken (enable_caching p1) (store p1 r) else store p1 r)"
    "kv_event_queue p2 = kv_event_queue p1 @ take_events_of p1 (take n xs)"
    using take_blocks_spec[OF i1(1), of "take n xs"] d by auto
  have "take_events_of p1 (take n xs) = take_events_of p (take n xs)"
    by (rule take_events_of_cong[OF i1(2)]) (rule same_dataD(3)[OF i1(4)])
  moreover have "int n \<le> get_num_free_blocks p"
    using pool_invD(1)[OF inv] n by (simp add: get_num_free_blocks_def fq_repr_num)
  moreover have "data_of (store p2 (Blk b)) = data_of (if b \<in> set (take n xs)
          then taken (enable_caching p) (store p (Blk b)) else store p (Blk b))" for b
    using i1(4) by (auto simp: p2(4) same_configD[OF i1(2)] data_of_def taken_def same_dataD)
  ultimately show ?thesis
    using p1(1) p2 i1 by (auto simp: get_new_blocks_def intro: same_config_trans)
qed

lemma get_new_blocks_too_many:
  assumes "pool_inv p xs" and "length xs < n"
  shows "get_new_blocks n p = Inl (ValueError ''Cannot get free blocks from the pool'')"
  using assms pool_invD(1)[OF assms(1)] by (simp add: get_new_blocks_def get_num_free_blocks_def fq_repr_num)

section \<open>Sharing and freeing\<close>

text \<open>Operations that change reference counts and the free list only.\<close>

definition same_cache :: "'z block_pool_scheme \<Rightarrow> 'z block_pool_scheme \<Rightarrow> bool" where
  "same_cache p p' \<longleftrightarrow> same_config p p' \<and> cached_map p' = cached_map p
     \<and> kv_event_queue p' = kv_event_queue p
     \<and> (\<forall>r. block_hash (store p' r) = block_hash (store p r))"

lemma same_cache_refl [simp, intro]: "same_cache p p"
  by (simp add: same_cache_def)

lemma same_cache_trans [trans]: "same_cache a b \<Longrightarrow> same_cache b c \<Longrightarrow> same_cache a c"
  by (auto simp: same_cache_def intro: same_config_trans)

lemma same_cacheD:
  assumes "same_cache p p'"
  shows "same_config p p'" "cached_map p' = cached_map p" "kv_event_queue p' = kv_event_queue p"
    "block_hash (store p' r) = block_hash (store p r)" "num_gpu_blocks p' = num_gpu_blocks p"
  using assms by (auto simp: same_cache_def same_config_def)

lemma same_cache_set_ref [simp, intro]: "same_cache p (set_ref b c p)"
  by (simp add: same_cache_def)

lemma touch_one_spec:
  assumes inv: "pool_inv p xs" and b: "b < num_gpu_blocks p"
  shows "\<exists>p'. touch_one (Blk b) p = Inr p' \<and> pool_inv p' (remove1 b xs) \<and> same_cache p p'
    \<and> (\<forall>c. ref_cnt (store p' (Blk c)) = ref_cnt (store p (Blk c)) + (if c = b then 1 else 0))"
proof (cases "b \<in> set xs")
  case True
  have f: "live p b" "ref_cnt (store p (Blk b)) = 0" using True pool_inv_free[OF inv] by blast+
  have d: "distinct xs" using pool_invD(1)[OF inv] by (rule fq_repr_distinct)
  obtain q where q: "queue_remove (Blk b) p = Inr q" "fq_next p q (remove1 b xs)"
    using queue_remove_repr[OF pool_invD(1)[OF inv] True] by blast
  have iq: "pool_inv_upto {b} q (remove1 b xs)" "same_config p q" "cached_map q = cached_map p"
    "kv_event_queue q = kv_event_queue p" "same_data (store p) (store q)"
    using pool_inv_fq_next[OF inv q(2), of "{b}"] True d by auto
  have "pool_inv (set_ref b 1 q) (remove1 b xs)"
    using set_ref_inv[OF iq(1), of b 1] b d by (simp add: same_configD[OF iq(2)])
  moreover have "touch_one (Blk b) p = Inr (set_ref b 1 q)"
    using q(1) f pool_inv_block[OF inv b] same_dataD(2)[OF iq(5)]
    by (simp add: touch_one_def live_def incr_ref_set)
  moreover have "same_cache p q" using iq by (simp add: same_cache_def same_dataD)
  ultimately show ?thesis
    using f same_dataD(2)[OF iq(5)] same_cache_trans[OF _ same_cache_set_ref] by auto
next
  case False
  let ?c = "ref_cnt (store p (Blk b)) + 1"
  have nz: "ref_cnt (store p (Blk b)) \<noteq> 0 \<or> b = 0" "0 < b \<longrightarrow> 0 \<le> ref_cnt (store p (Blk b))"
    using False pool_inv_free[OF inv] b pool_invD(4)[OF inv] by (auto simp: live_def counts_ok_def)
  then have "touch_one (Blk b) p = Inr (set_ref b ?c p)"
    using pool_inv_block[OF inv b] by (auto simp: touch_one_def incr_ref_set)
  moreover have "pool_inv (set_ref b ?c p) xs"
    using set_ref_inv[OF inv b False, of ?c] nz by (auto split: if_splits)
  ultimately show ?thesis using False by (auto simp: remove1_idem)
qed

lemma touch_spec:
  assumes "pool_inv p xs" and "\<forall>b \<in> set bs. b < num_gpu_blocks p"
  shows "\<exists>p'. touch (map Blk bs) p = Inr p' \<and> pool_inv p' (filter (\<lambda>b. b \<notin> set bs) xs) \<and> same_cache p p'
    \<and> (\<forall>c. ref_cnt (store p' (Blk c)) = ref_cnt (store p (Blk c)) + int (count_list bs c))"
  using assms
proof (induction bs arbitrary: p xs)
  case Nil
  then show ?case by (simp add: touch_def)
next
  case (Cons b bs)
  obtain q where q: "touch_one (Blk b) p = Inr q" "pool_inv q (remove1 b xs)" "same_cache p q"
    "\<forall>c. ref_cnt (store q (Blk c)) = ref_cnt (store p (Blk c)) + (if c = b then 1 else 0)"
    using touch_one_spec[OF Cons.prems(1), of b] Cons.prems(2) by (meson list.set_intros(1))
  have "distinct xs" using pool_invD(1)[OF Cons.prems(1)] by (rule fq_repr_distinct)
  then have "filter (\<lambda>c. c \<notin> set bs) (remove1 b xs) = filter (\<lambda>c. c \<notin> set (b # bs)) xs"
    by (simp add: distinct_remove1_removeAll removeAll_filter_not_eq filter_filter conj_commute)
       (metis (mono_tags, lifting))
  then show ?case
    using Cons.IH[OF q(2)] Cons.prems(2) q(1,4) same_cacheD(5)[OF q(3)] same_cache_trans[OF q(3)]
    by (fastforce simp: touch_def)
qed

lemma decr_loop_spec:
  assumes "pool_inv_upto F p xs" and "distinct (filter (\<lambda>b. b \<noteq> 0) bs)"
    and "\<forall>b \<in> set bs. b < num_gpu_blocks p \<and> (0 < b \<longrightarrow> 1 \<le> ref_cnt (store p (Blk b)))"
  shows "pool_inv_upto (F \<union> {b \<in> set bs. 0 < b \<and> ref_cnt (store p (Blk b)) = 1}) (fold decr_ref (map Blk bs) p) xs
    \<and> same_cache p (fold decr_ref (map Blk bs) p)
    \<and> (\<forall>c. ref_cnt (store (fold decr_ref (map Blk bs) p) (Blk c)) = ref_cnt (store p (Blk c)) - int (count_list bs c))"
  using assms
proof (induction bs arbitrary: F p)
  case Nil
  then show ?case by simp
next
  case (Cons b bs)
  let ?c = "ref_cnt (store p (Blk b)) - 1"
  let ?q = "set_ref b ?c p"
  have b: "b < num_gpu_blocks p" "0 < b \<Longrightarrow> 0 \<le> ?c" using Cons.prems(3) by auto
  have nf: "b \<notin> set xs" "b \<notin> F"
    using Cons.prems(3) counts_zero[OF Cons.prems(1), of b] by (auto simp: live_def)
  have sq: "\<forall>c \<in> set bs. 0 < c \<longrightarrow> ref_cnt (store ?q (Blk c)) = ref_cnt (store p (Blk c))"
    using Cons.prems(2) by (auto split: if_splits)
  have i1: "pool_inv_upto (F \<union> (if ?c = 0 \<and> 0 < b then {b} else {})) ?q xs"
    using set_ref_inv[OF Cons.prems(1) b(1) nf(1), of ?c] b(2) nf(2) by (auto split: if_splits)
  have p2: "distinct (filter (\<lambda>b. b \<noteq> 0) bs)" using Cons.prems(2) by (simp split: if_splits)
  have p3: "\<forall>c \<in> set bs. c < num_gpu_blocks ?q \<and> (0 < c \<longrightarrow> 1 \<le> ref_cnt (store ?q (Blk c)))"
    using Cons.prems(3) sq by (simp del: store_set_ref)
  note IH = Cons.IH[OF i1 p2 p3]
  have "F \<union> (if ?c = 0 \<and> 0 < b then {b} else {}) \<union>
      {c \<in> set bs. 0 < c \<and> ref_cnt (store ?q (Blk c)) = 1} =
    F \<union> {c \<in> set (b # bs). 0 < c \<and> ref_cnt (store p (Blk c)) = 1}"
    using sq by (auto simp del: store_set_ref split: if_splits)
  moreover have "same_cache p (fold decr_ref (map Blk bs) ?q)"
    using IH same_cache_trans[OF same_cache_set_ref] by blast
  ultimately show ?case using IH by (auto simp: decr_ref_set)
qed

lemma free_blocks_spec:
  assumes inv: "pool_inv p xs" and d: "distinct (filter (\<lambda>b. b \<noteq> 0) bs)"
    and own: "\<forall>b \<in> set bs. b < num_gpu_blocks p \<and> (0 < b \<longrightarrow> 1 \<le> ref_cnt (store p (Blk b)))"
  shows "\<exists>p'. free_blocks (map Blk bs) p = Inr p'
    \<and> pool_inv p' (xs @ filter (\<lambda>b. b \<noteq> 0 \<and> ref_cnt (store p (Blk b)) = 1) bs)
    \<and> same_cache p p'
    \<and> (\<forall>c. ref_cnt (store p' (Blk c)) = ref_cnt (store p (Blk c)) - int (count_list bs c))"
proof -
  let ?q = "fold decr_ref (map Blk bs) p" and ?free = "\<lambda>b. b \<noteq> 0 \<and> ref_cnt (store p (Blk b)) = 1"
  note q = decr_loop_spec[OF inv d own]
  have one: "count_list bs b = 1" if "b \<in> set bs" "b \<noteq> 0" for b
    using d that by (induction bs) (auto simp: count_list_0_iff split: if_splits)
  have sel: "filter (\<lambda>r. ref_cnt (store ?q r) = 0 \<and> \<not> is_null (store ?q r)) (map Blk bs) = map Blk (filter ?free bs)"
  proof -
    have "(ref_cnt (store ?q (Blk b)) = 0 \<and> \<not> is_null (store ?q (Blk b))) = ?free b" if "b \<in> set bs" for b
      using q that own one[of b] pool_inv_block(2)[of _ ?q xs b] same_cacheD(5)[of p ?q] by auto
    then show ?thesis by (simp add: filter_map comp_def cong: filter_cong)
  qed
  let ?ys = "filter ?free bs"
  have "set ?ys \<inter> set xs = {}" using pool_inv_free[OF inv] by auto
  moreover have "distinct ?ys"
    using distinct_filter[OF d, of ?free] by (simp add: filter_filter conj_commute cong: filter_cong)
  ultimately obtain p' where p': "append_n (map Blk ?ys) ?q = Inr p'" "fq_next ?q p' (xs @ ?ys)"
    using append_n_repr[of ?q xs ?ys] q pool_invD(1) by blast
  have iv: "pool_inv_upto ({} \<union> {b \<in> set bs. 0 < b \<and> ref_cnt (store p (Blk b)) = 1}) ?q xs" using q by blast
  note n = pool_inv_fq_next[OF iv p'(2), of "{}"]
  have "pool_inv p' (xs @ ?ys)" by (rule n(1)) auto
  moreover have "same_cache ?q p'" using n(2-5) by (auto simp: same_cache_def same_dataD)
  moreover have "same_data (store ?q) (store p')" using n(5) by auto
  ultimately show ?thesis
    using q p'(1) sel by (auto simp: free_blocks_def Let_def same_dataD intro: same_cache_trans)
qed

section \<open>Caching full blocks\<close>

lemma map_insert_cong:
  assumes "\<And>r. block_id (st' r) = block_id (st r)"
  shows "map_insert key r st' cache = map_insert key r st cache"
  using assms by (simp add: map_insert_def split: option.splits cached_blocks.splits)

definition cache_block :: "bytes \<Rightarrow> ref \<Rightarrow> 'z block_pool_scheme \<Rightarrow> 'z block_pool_scheme" where
  "cache_block key r p = (upd_block r (\<lambda>k. k\<lparr>block_hash := Some key\<rparr>) p)
     \<lparr>cached_map := map_insert key r (store p) (cached_map p)\<rparr>"

lemma cache_block_frame [simp, pool_simps]:
  "store (cache_block key r p) = (store p)(r := (store p r)\<lparr>block_hash := Some key\<rparr>)"
  "same_config q (cache_block key r p) = same_config q p"
  "kv_event_queue (cache_block key r p) = kv_event_queue p"
  "num_gpu_blocks (cache_block key r p) = num_gpu_blocks p"
  "use_int_hashes (cache_block key r p) = use_int_hashes p"
  "enable_kv_cache_events (cache_block key r p) = enable_kv_cache_events p"
  by (simp_all add: cache_block_def)

lemma cache_block_inv:
  assumes inv: "pool_inv_upto F p xs" and b: "live p b" and none: "block_hash (store p (Blk b)) = None"
  shows "pool_inv_upto F (cache_block key (Blk b) p) xs"
proof -
  let ?cache = "map_insert key (Blk b) (store p) (cached_map p)"
  have ok: "entry_ok (store p) (cached_map p k)" for k
    using pool_invD(3)[OF inv] by (simp add: cache_ok_def)
  have out: "Blk b \<notin> entry_blocks (cached_map p k)" for k
    using pool_invD(3)[OF inv] none by (simp add: cache_ok_def)
  have inj: "block_id (store p r') \<noteq> block_id (store p (Blk b))" if r': "r' \<in> entry_blocks (cached_map p key)" for r'
  proof -
    obtain c where c: "r' = Blk c" "block_id (store p r') = int c"
      by (rule entry_blocks_id[OF inv r']) blast
    have "c \<noteq> b" using r' out c by auto
    then show ?thesis using c pool_inv_block(1)[OF inv, of b] b by (simp add: live_def)
  qed
  note ins = entry_blocks_map_insert[of "store p" "cached_map p" key "Blk b", OF ok inj]
  have bl: "entry_blocks (?cache k) = entry_blocks (cached_map p k) - {Blk b}
               \<union> (if Some key = Some k then {Blk b} else {})" for k
    using ins(2)[of k] out[of k] by auto
  have "cache_block key (Blk b) p =
      upd_block (Blk b) (\<lambda>k. k\<lparr>block_hash := Some key\<rparr>) (p\<lparr>cached_map := ?cache\<rparr>)"
    by (simp add: cache_block_def upd_block_def)
  then show ?thesis using cache_change_inv[OF inv b ins(1) bl] by simp
qed

text \<open>The blocks of a list that get cached, each with the index of its hash.\<close>

fun to_cache :: "bool list option \<Rightarrow> nat \<Rightarrow> nat list \<Rightarrow> (nat \<times> nat) list" where
  "to_cache msk i [] = []"
| "to_cache msk i (b # bs) =
     (if b = 0 \<or> (case msk of None \<Rightarrow> False | Some m \<Rightarrow> \<not> m ! i) then to_cache msk (i + 1) bs
      else (b, i) # to_cache msk (i + 1) bs)"

lemma skip_block_iff:
  "pool_inv_upto F p xs \<Longrightarrow> b < num_gpu_blocks p \<Longrightarrow>
     skip_block p msk i (Blk b) \<longleftrightarrow> b = 0 \<or> (case msk of None \<Rightarrow> False | Some m \<Rightarrow> \<not> m ! i)"
  by (simp add: skip_block_def pool_inv_block)

lemma to_cache_range: "(b, j) \<in> set (to_cache msk i bs) \<Longrightarrow> b \<in> set bs \<and> b \<noteq> 0 \<and> i \<le> j \<and> j < i + length bs"
  by (induction msk i bs rule: to_cache.induct) (auto split: if_splits)

definition caches :: "bytes list \<Rightarrow> bytes \<Rightarrow> (nat \<times> nat) list \<Rightarrow> 'z block_pool_scheme \<Rightarrow> 'z block_pool_scheme \<Rightarrow> bool" where
  "caches hs gb A p p' \<longleftrightarrow> same_config p p' \<and> kv_event_queue p' = kv_event_queue p
     \<and> (\<forall>c. ref_cnt (store p' (Blk c)) = ref_cnt (store p (Blk c)))
     \<and> (\<forall>c. block_hash (store p' (Blk c)) = (case map_of A c of
              Some j \<Rightarrow> Some (hs ! j @ gb) | None \<Rightarrow> block_hash (store p (Blk c))))"

lemma cache_loop_step:
  assumes inv: "pool_inv p xs" and g: "to_bytes4 g = Inr gb" and b: "b < num_gpu_blocks p"
    and use: "\<not> (b = 0 \<or> (case msk of None \<Rightarrow> False | Some m \<Rightarrow> \<not> m ! i))"
    and none: "block_hash (store p (Blk b)) = None" and i: "i < length hs"
  shows "cache_loop hs msk g i (Blk b # rs) p nh =
      cache_loop hs msk g (i + 1) rs (cache_block (hs ! i @ gb) (Blk b) p)
        (nh @ [maybe_convert_block_hash (use_int_hashes p) (hs ! i)])"
proof -
  let ?p = "upd_block (Blk b) (\<lambda>_. store p (Blk b)\<lparr>block_hash := Some (hs ! i @ gb)\<rparr>) p"
  have "map_insert (hs ! i @ gb) (Blk b) (store ?p) (cached_map p) =
      map_insert (hs ! i @ gb) (Blk b) (store p) (cached_map p)"
    by (rule map_insert_cong) simp
  then have "?p\<lparr>cached_map := map_insert (hs ! i @ gb) (Blk b) (store ?p) (cached_map p)\<rparr> =
      cache_block (hs ! i @ gb) (Blk b) p"
    by (simp add: cache_block_def upd_block_def)
  then show ?thesis
    using skip_block_iff[OF inv b, of msk i] use none i g
    by (simp add: make_block_hash_with_group_id_def set_block_hash_def Let_def)
qed

lemma cache_loop_sound:
  assumes "pool_inv p xs" and "\<forall>b \<in> set bs. b < num_gpu_blocks p"
    and "cache_loop hs msk g i (map Blk bs) p nh = Inr (p', nh')" and "to_bytes4 g = Inr gb"
  shows "pool_inv p' xs \<and> caches hs gb (to_cache msk i bs) p p' \<and> distinct (map fst (to_cache msk i bs))
    \<and> (\<forall>(b, j) \<in> set (to_cache msk i bs). block_hash (store p (Blk b)) = None)
    \<and> nh' = nh @ map (\<lambda>(b, j). maybe_convert_block_hash (use_int_hashes p) (hs ! j)) (to_cache msk i bs)"
  using assms
proof (induction bs arbitrary: i p nh)
  case Nil
  then show ?case by (simp add: caches_def)
next
  case (Cons b bs)
  have b: "b < num_gpu_blocks p" using Cons.prems(2) by simp
  show ?case
  proof (cases "b = 0 \<or> (case msk of None \<Rightarrow> False | Some m \<Rightarrow> \<not> m ! i)")
    case True
    then show ?thesis
      using Cons.IH[OF Cons.prems(1) _ _ Cons.prems(4), of "i + 1" nh] Cons.prems(2,3)
        skip_block_iff[OF Cons.prems(1) b, of msk i] by simp
  next
    case False
    have h: "block_hash (store p (Blk b)) = None" "i < length hs"
      using Cons.prems(3) skip_block_iff[OF Cons.prems(1) b, of msk i] False by (auto split: if_splits)
    let ?q = "cache_block (hs ! i @ gb) (Blk b) p"
    have "pool_inv ?q xs" using cache_block_inv[OF Cons.prems(1) _ h(1)] b False by (simp add: live_def)
    from Cons.IH[OF this _ _ Cons.prems(4), of "i + 1"] Cons.prems(2,3)
      cache_loop_step[OF Cons.prems(1,4) b False h, of "map Blk bs" nh]
    have IH: "pool_inv p' xs" "caches hs gb (to_cache msk (i + 1) bs) ?q p'"
      "distinct (map fst (to_cache msk (i + 1) bs))"
      "\<forall>(c, j) \<in> set (to_cache msk (i + 1) bs). block_hash (store ?q (Blk c)) = None"
      "nh' = nh @ maybe_convert_block_hash (use_int_hashes p) (hs ! i) #
         map (\<lambda>(b, j). maybe_convert_block_hash (use_int_hashes p) (hs ! j)) (to_cache msk (i + 1) bs)"
      by auto
    have nb: "b \<notin> fst ` set (to_cache msk (i + 1) bs)" using IH(4) by (auto split: prod.splits)
    moreover have "caches hs gb (to_cache msk i (b # bs)) p p'"
      using IH(2) False nb same_config_trans[of p ?q p']
      by (auto simp: caches_def map_of_eq_None_iff[symmetric] option.case_eq_if)
    moreover have "\<forall>(c, j) \<in> set (to_cache msk i (b # bs)). block_hash (store p (Blk c)) = None"
      using IH(4) h(1) False by (auto split: if_splits)
    ultimately show ?thesis using IH False by (simp add: image_iff)
  qed
qed

lemma cache_loop_total:
  assumes "pool_inv p xs" and "\<forall>b \<in> set bs. b < num_gpu_blocks p" and "to_bytes4 g = Inr gb"
    and "distinct (map fst (to_cache msk i bs))"
    and "\<forall>(b, j) \<in> set (to_cache msk i bs). block_hash (store p (Blk b)) = None"
    and "i + length bs \<le> length hs"
  shows "\<exists>res. cache_loop hs msk g i (map Blk bs) p nh = Inr res"
  using assms
proof (induction bs arbitrary: i p nh)
  case Nil
  then show ?case by simp
next
  case (Cons b bs)
  have b: "b < num_gpu_blocks p" using Cons.prems(2) by simp
  show ?case
  proof (cases "b = 0 \<or> (case msk of None \<Rightarrow> False | Some m \<Rightarrow> \<not> m ! i)")
    case True
    then show ?thesis
      using Cons.IH[OF Cons.prems(1) _ Cons.prems(3), of "i + 1" nh] Cons.prems(2,4,5,6)
        skip_block_iff[OF Cons.prems(1) b, of msk i] by simp
  next
    case False
    have h: "block_hash (store p (Blk b)) = None" "i < length hs"
      using Cons.prems(5,6) False by auto
    let ?q = "cache_block (hs ! i @ gb) (Blk b) p"
    have inv: "pool_inv ?q xs" using cache_block_inv[OF Cons.prems(1) _ h(1)] b False by (simp add: live_def)
    have "c \<noteq> b" if "(c, j) \<in> set (to_cache msk (i + 1) bs)" for c j
      using Cons.prems(4) False that image_eqI[of c fst "(c, j)"] by auto
    then have "\<forall>(c, j) \<in> set (to_cache msk (i + 1) bs). block_hash (store ?q (Blk c)) = None"
      using Cons.prems(5) False by auto
    then show ?thesis
      using Cons.IH[OF inv _ Cons.prems(3), of "i + 1"] Cons.prems(2,4,6) False
        cache_loop_step[OF Cons.prems(1,3) b False h, of "map Blk bs" nh] by simp
  qed
qed

text \<open>The hashes of a request at the block size of a group.\<close>

definition block_hashes_at :: "int \<Rightarrow> int \<Rightarrow> bytes list \<Rightarrow> bytes list" where
  "block_hashes_at hbs bsz hs = (if bsz = hbs then hs
     else map (get_value_at hs (bsz div hbs)) [0..<nat (int (length hs) div (bsz div hbs))])"

definition hash_view :: "int \<Rightarrow> int \<Rightarrow> bytes list \<Rightarrow> block_hash_list res" where
  "hash_view hbs bsz hs =
     (if bsz = hbs then Inr (Plain hs) else BlockHashListWithBlockSize hs hbs bsz)"

lemma hash_view_from:
  assumes "hash_view hbs bsz hs = Inr v" and "bh_from v k = Inr xs"
  shows "xs = drop k (block_hashes_at hbs bsz hs)"
  using assms
  by (auto simp: hash_view_def block_hashes_at_def BlockHashListWithBlockSize_def drop_map drop_upt
      split: if_splits)

lemma extra_keys_loop_total:
  assumes "\<forall>i \<in> set is. i < length blocks" and "-1 \<le> mm_idx"
  shows "\<exists>ks. extra_keys_loop sha r blocks msk bsz first is p mm_idx acc = Inr ks"
  using assms
proof (induction "is" arbitrary: mm_idx acc)
  case Nil
  then show ?case by simp
next
  case (Cons i "is")
  obtain ks m where "generate_block_hash_extra_keys sha r (int i * bsz) (int i * bsz + bsz) mm_idx = Inr (ks, m)"
    "-1 \<le> m"
    using generate_keys_total[OF Cons.prems(2)] by blast
  then show ?case using Cons.IH[of m] Cons.IH[of mm_idx] Cons.prems by simp
qed

lemma cache_full_blocks_sound:
  assumes inv: "pool_inv p xs" and bs: "\<forall>b \<in> set bs. b < num_gpu_blocks p" and g: "to_bytes4 g = Inr gb"
    and run: "cache_full_blocks sha r (map Blk bs) nc nf bsz g msk p = Inr p'" and lt: "nc < nf"
  defines "A \<equiv> to_cache msk 0 (take (nf - nc) (drop nc bs))"
    and "hs \<equiv> drop nc (block_hashes_at (hash_block_size p) bsz (block_hashes r))"
  shows "\<exists>q es. pool_inv p' xs \<and> caches hs gb A p q \<and> p' = q\<lparr>kv_event_queue := kv_event_queue p @ es\<rparr>
    \<and> distinct (map fst A) \<and> (\<forall>(b, j) \<in> set A. block_hash (store p (Blk b)) = None)
    \<and> (if enable_kv_cache_events p
       then \<exists>e. es = [BlockStored e] \<and> bs_group_idx e = g \<and> bs_block_hashes e =
              map (\<lambda>(b, j). maybe_convert_block_hash (use_int_hashes p) (hs ! j)) A
       else es = [])"
proof -
  obtain v hs' q nh where v: "hash_view (hash_block_size p) bsz (block_hashes r) = Inr v"
    "bh_from v nc = Inr hs'"
    and loop: "cache_loop hs' msk g 0 (map Blk (take (nf - nc) (drop nc bs))) p [] = Inr (q, nh)"
    and fin: "(if enable_kv_cache_events q
        then rbind (stored_event sha r (map Blk bs) nc nf bsz g msk v nh q)
               (\<lambda>e. Inr (q\<lparr>kv_event_queue := kv_event_queue q @ [e]\<rparr>))
        else Inr q) = Inr p'"
    using run lt
    by (auto simp: cache_full_blocks_def rbind_eq_Inr hash_view_def take_map drop_map Let_def
        split: prod.splits)
  have hs: "hs' = hs" unfolding hs_def by (rule hash_view_from[OF v])
  have "\<forall>b \<in> set (take (nf - nc) (drop nc bs)). b < num_gpu_blocks p"
    using bs by (meson in_set_dropD in_set_takeD)
  from cache_loop_sound[OF inv this loop g]
  have s: "pool_inv q xs" "caches hs gb A p q" "distinct (map fst A)"
    "\<forall>(b, j) \<in> set A. block_hash (store p (Blk b)) = None"
    "nh = map (\<lambda>(b, j). maybe_convert_block_hash (use_int_hashes p) (hs ! j)) A"
    by (auto simp: hs A_def)
  have c: "same_config p q" "kv_event_queue q = kv_event_queue p" using s(2) by (simp_all add: caches_def)
  show ?thesis
  proof (cases "enable_kv_cache_events p")
    case True
    then obtain e where e: "stored_event sha r (map Blk bs) nc nf bsz g msk v nh q = Inr e"
      "p' = q\<lparr>kv_event_queue := kv_event_queue q @ [e]\<rparr>"
      using fin by (auto simp: same_configD[OF c(1)] rbind_eq_Inr)
    then obtain e' where "e = BlockStored e'" "bs_group_idx e' = g" "bs_block_hashes e' = nh"
      by (auto simp: stored_event_def rbind_eq_Inr)
    then show ?thesis using True e(2) s c by auto
  next
    case False
    then have "p' = q" using fin by (simp add: same_configD[OF c(1)])
    then show ?thesis using False s c by (intro exI[of _ q] exI[of _ "[]"]) (cases q, simp)
  qed
qed

lemma cache_full_blocks_total:
  assumes inv: "pool_inv p xs" and bs: "\<forall>b \<in> set bs. b < num_gpu_blocks p" and g: "to_bytes4 g = Inr gb"
    and sizes: "0 < hash_block_size p" "0 < bsz" "bsz mod hash_block_size p = 0"
    and hs: "nf \<le> length (block_hashes_at (hash_block_size p) bsz (block_hashes r))"
    and len: "nf \<le> length bs" "case msk of None \<Rightarrow> True | Some m \<Rightarrow> length m = nf - nc"
    and fresh: "distinct (map fst (to_cache msk 0 (take (nf - nc) (drop nc bs))))"
      "\<forall>(b, j) \<in> set (to_cache msk 0 (take (nf - nc) (drop nc bs))). block_hash (store p (Blk b)) = None"
  shows "\<exists>p'. cache_full_blocks sha r (map Blk bs) nc nf bsz g msk p = Inr p'"
proof (cases "nc < nf")
  case True
  let ?hbs = "hash_block_size p" and ?hs = "block_hashes r" and ?new = "take (nf - nc) (drop nc bs)"
  let ?at = "block_hashes_at ?hbs bsz ?hs"
  have sc: "0 < bsz div ?hbs" using sizes
    by (metis mod_0_imp_dvd dvd_div_mult_self mult_eq_0_iff less_le pos_imp_zdiv_nonneg_iff order_less_imp_le)
  have "\<exists>v. hash_view ?hbs bsz ?hs = Inr v"
    using sizes by (simp add: hash_view_def BlockHashListWithBlockSize_def)
  then obtain v where v: "hash_view ?hbs bsz ?hs = Inr v" ..
  then obtain hs' where hs': "bh_from v nc = Inr hs'" using sc
    by (auto simp: hash_view_def BlockHashListWithBlockSize_def split: if_splits)
  have eq: "hs' = drop nc ?at" by (rule hash_view_from[OF v hs'])
  have "int (length ?hs) div (bsz div ?hbs) \<le> int (length ?hs)" 
    using zdiv_mono2[of "int (length ?hs)" 1 "bsz div ?hbs"] sc by simp
  then have l1: "nf \<le> length ?hs" using hs by (auto simp: block_hashes_at_def split: if_splits)
  have "\<forall>b \<in> set ?new. b < num_gpu_blocks p" using bs by (meson in_set_dropD in_set_takeD)
  moreover have "0 + length ?new \<le> length hs'" using hs len(1) eq by simp
  ultimately obtain q nh where loop: "cache_loop hs' msk g 0 (map Blk ?new) p [] = Inr (q, nh)"
    using cache_loop_total[OF inv _ g fresh, of hs' "[]"] by fastforce
  have "\<exists>h. bh_get v (nc - 1) = Inr h"
    using v l1 True by (auto simp: hash_view_def BlockHashListWithBlockSize_def split: if_splits)
  moreover have "\<exists>ks. extra_keys_loop sha r (map Blk bs) msk bsz nc [nc..<nf] q 0 [] = Inr ks"
    by (rule extra_keys_loop_total) (use len(1) in auto)
  ultimately have "\<exists>e. stored_event sha r (map Blk bs) nc nf bsz g msk v nh q = Inr e"
    by (auto simp: stored_event_def)
  then show ?thesis
    using True l1 len loop v hs'
    by (auto simp: cache_full_blocks_def hash_view_def take_map drop_map Let_def split: option.splits)
next
  case False
  then show ?thesis by (simp add: cache_full_blocks_def)
qed

section \<open>Lookup, reset, observation\<close>

lemma get_one_block_cases:
  assumes "pool_inv_upto F p xs"
  obtains (miss) "get_one_block (cached_map p) key = Inr None"
      "\<And>b. live p b \<Longrightarrow> block_hash (store p (Blk b)) \<noteq> Some key"
    | (hit) b where "get_one_block (cached_map p) key = Inr (Some (Blk b))" "live p b"
      "block_hash (store p (Blk b)) = Some key"
proof (cases "cached_map p key")
  case None
  then have "\<forall>b. live p b \<longrightarrow> block_hash (store p (Blk b)) \<noteq> Some key"
    using pool_invD(3)[OF assms] by (metis cache_ok_def entry_blocks.simps(1) empty_iff)
  then show ?thesis using miss None by (simp add: get_one_block_def)
next
  case (Some c)
  have "entry_ok (store p) (Some c)" using pool_invD(3)[OF assms] Some by (metis cache_ok_def)
  then obtain r where r: "r \<in> entry_blocks (Some c)" "get_one_block (cached_map p) key = Inr (Some r)"
    by (cases c) (auto simp: Some get_one_block_def neq_Nil_conv)
  obtain b where "r = Blk b" "live p b" "block_hash (store p r) = Some key"
    by (rule entry_blocks_id[OF assms, of r key]) (use r(1) Some in auto)
  then show ?thesis using hit r(2) by auto
qed

definition holds_block :: "'z block_pool_scheme \<Rightarrow> bytes \<Rightarrow> int \<Rightarrow> nat \<Rightarrow> bool" where
  "holds_block p h g b \<longleftrightarrow> live p b \<and>
     (case make_block_hash_with_group_id h g of
        Inl e \<Rightarrow> False | Inr key \<Rightarrow> block_hash (store p (Blk b)) = Some key)"

lemma get_cached_block_spec:
  assumes inv: "pool_inv_upto F p xs" and "\<forall>g \<in> set gs. 0 \<le> g \<and> g < 2 ^ 32"
  shows "(\<exists>bs. get_cached_block h gs p = Inr (Some (map Blk bs)) \<and> list_all2 (holds_block p h) gs bs)
    \<or> (get_cached_block h gs p = Inr None \<and> (\<exists>g \<in> set gs. \<forall>b. \<not> holds_block p h g b))"
  using assms(2)
proof (induction gs)
  case Nil
  then show ?case by simp
next
  case (Cons g gs)
  obtain key where key: "make_block_hash_with_group_id h g = Inr key"
    using hash_key_defined Cons.prems by fastforce
  show ?case
  proof (cases rule: get_one_block_cases[OF inv, of key])
    case 1
    then have "\<forall>b. \<not> holds_block p h g b" by (simp add: holds_block_def key)
    then show ?thesis using key 1(1) by auto
  next
    case (2 b)
    then have b: "holds_block p h g b" by (simp add: holds_block_def key)
    have "\<forall>g \<in> set gs. 0 \<le> g \<and> g < 2 ^ 32" using Cons.prems by simp
    from Cons.IH[OF this] show ?thesis
    proof (elim disjE)
      assume "\<exists>bs. get_cached_block h gs p = Inr (Some (map Blk bs)) \<and> list_all2 (holds_block p h) gs bs"
      then obtain bs where "get_cached_block h gs p = Inr (Some (map Blk bs))" "list_all2 (holds_block p h) gs bs"
        by blast
      then show ?thesis using key 2(1) b by (intro disjI1 exI[of _ "b # bs"]) simp
    next
      assume "get_cached_block h gs p = Inr None \<and> (\<exists>g \<in> set gs. \<forall>b. \<not> holds_block p h g b)"
      then show ?thesis using key 2(1) by auto
    qed
  qed
qed

lemma fold_reset_store:
  "store (fold (\<lambda>i. upd_block (Blk i) reset_hash) is p) =
     (\<lambda>r. if r \<in> Blk ` set is then reset_hash (store p r) else store p r)"
proof (induction "is" arbitrary: p)
  case Nil
  then show ?case by simp
next
  case (Cons i "is")
  then show ?case by (auto simp: fun_eq_iff reset_hash_def)
qed

lemma fold_reset_frame:
  "free_queue.more (fold (\<lambda>i. upd_block (Blk i) reset_hash) is p) = free_queue.more p
   \<and> num_free_blocks (fold (\<lambda>i. upd_block (Blk i) reset_hash) is p) = num_free_blocks p"
  by (induction "is" arbitrary: p) simp_all

definition cleared :: "'z block_pool_scheme \<Rightarrow> 'z block_pool_scheme" where
  "cleared p = fold (\<lambda>i. upd_block (Blk i) reset_hash) [0..<num_gpu_blocks p] (p\<lparr>cached_map := (\<lambda>_. None)\<rparr>)"

lemma cleared_frame:
  shows "same_config p (cleared p)" and "cached_map (cleared p) = (\<lambda>_. None)"
    and "kv_event_queue (cleared p) = kv_event_queue p" and "num_free_blocks (cleared p) = num_free_blocks p"
    and "store (cleared p) = (\<lambda>r. if r \<in> Blk ` {0..<num_gpu_blocks p} then reset_hash (store p r) else store p r)"
proof -
  let ?q = "p\<lparr>cached_map := (\<lambda>_. None)\<rparr>"
  have fr: "free_queue.more (cleared p) = free_queue.more ?q"
    using fold_reset_frame[of "[0..<num_gpu_blocks p]" ?q] unfolding cleared_def by blast
  show "num_free_blocks (cleared p) = num_free_blocks p"
    using fold_reset_frame[of "[0..<num_gpu_blocks p]" ?q] unfolding cleared_def by simp
  have "same_config p ?q" by simp
  then show "same_config p (cleared p)" using more_eqD(3)[OF fr] by (rule same_config_trans)
  show "cached_map (cleared p) = (\<lambda>_. None)" using more_eqD(1)[OF fr] by simp
  show "kv_event_queue (cleared p) = kv_event_queue p" using more_eqD(2)[OF fr] by simp
  show "store (cleared p) = (\<lambda>r. if r \<in> Blk ` {0..<num_gpu_blocks p} then reset_hash (store p r) else store p r)"
    unfolding cleared_def fold_reset_store by (simp add: fun_eq_iff)
qed

lemma cleared_inv:
  assumes inv: "pool_inv p xs"
  shows "pool_inv (cleared p) xs"
    and "b < num_gpu_blocks p \<Longrightarrow> block_hash (store (cleared p) (Blk b)) = None"
proof -
  note f = cleared_frame[of p]
  have same: "ref_cnt (store (cleared p) r) = ref_cnt (store p r)" "block_id (store (cleared p) r) = block_id (store p r)"
    "is_null (store (cleared p) r) = is_null (store p r)" "next_free_block (store (cleared p) r) = next_free_block (store p r)"
    "prev_free_block (store (cleared p) r) = prev_free_block (store p r)" for r
    by (simp_all add: f(5) reset_hash_def)
  show hash: "b < num_gpu_blocks p \<Longrightarrow> block_hash (store (cleared p) (Blk b)) = None" for b
    by (simp add: f(5) reset_hash_def)
  have "linked (store (cleared p)) (chain xs) = linked (store p) (chain xs)"
    by (rule linked_cong) (simp add: same)
  then have "fq_repr (cleared p) xs" using pool_invD(1)[OF inv] by (simp add: fq_repr_def f(4) same)
  moreover have "blocks_ok (cleared p)" "counts_ok {} (cleared p) xs"
    using pool_invD(2,4)[OF inv] by (simp_all add: blocks_ok_def counts_ok_def same_configD[OF f(1)] same)
  moreover have "cache_ok (cleared p)"
    using pool_invD(2)[OF inv] hash
    by (auto simp: cache_ok_def f(2) blocks_ok_def live_def same_configD[OF f(1)])
  ultimately show "pool_inv (cleared p) xs" by (simp add: pool_inv_upto_def)
qed

lemma all_free_iff:
  assumes inv: "pool_inv p xs"
  shows "int (num_gpu_blocks p) - num_free_blocks p = 1 \<longleftrightarrow> (\<forall>b. live p b \<longrightarrow> ref_cnt (store p (Blk b)) = 0)"
proof -
  let ?n = "num_gpu_blocks p"
  have d: "distinct xs" "num_free_blocks p = int (length xs)"
    using pool_invD(1)[OF inv] by (auto simp: fq_repr_distinct fq_repr_num)
  have n: "0 < ?n" using pool_invD(2)[OF inv] by (simp add: blocks_ok_def)
  have lv: "{b. live p b} = {1..<?n}" by (auto simp: live_def)
  have sub: "set xs \<subseteq> {b. live p b}" using pool_inv_free[OF inv] by blast
  have "int ?n - num_free_blocks p = 1 \<longleftrightarrow> length xs = card {b. live p b}" using d n by (auto simp: lv)
  also have "\<dots> \<longleftrightarrow> set xs = {b. live p b}"
    using sub d(1) lv by (metis card_subset_eq distinct_card finite_atLeastLessThan)
  also have "\<dots> \<longleftrightarrow> (\<forall>b. live p b \<longrightarrow> ref_cnt (store p (Blk b)) = 0)"
    using pool_inv_free[OF inv] by blast
  finally show ?thesis .
qed

lemma reset_prefix_cache_spec:
  assumes inv: "pool_inv p xs"
  shows "reset_prefix_cache p =
    (if \<forall>b. live p b \<longrightarrow> ref_cnt (store p (Blk b)) = 0
     then (True, (cleared p)\<lparr>kv_event_queue := kv_event_queue p @
                   (if enable_kv_cache_events p then [AllBlocksCleared] else [])\<rparr>)
     else (False, p))"
proof -
  have id: "q\<lparr>kv_event_queue := kv_event_queue q\<rparr> = q" for q :: "'a block_pool_scheme" by (cases q) simp
  have "num_gpu_blocks (p\<lparr>cached_map := (\<lambda>_. None)\<rparr>) = num_gpu_blocks p" by simp
  then show ?thesis
    using all_free_iff[OF inv] cleared_frame(1,3)[of p] id[of "cleared p"]
    by (simp add: reset_prefix_cache_def get_num_free_blocks_def Let_def cleared_def[symmetric] same_configD)
qed

lemma peek_loop_chain:
  assumes "linked st (map Blk xs @ [Tail])" and "next_free_block (st Tail) = None"
  shows "peek_loop st n (Some (hd (map Blk xs @ [Tail]))) =
    map (\<lambda>b. (block_id (st (Blk b)), block_hash (st (Blk b)))) (take n xs)"
  using assms
proof (induction n arbitrary: xs)
  case 0
  then show ?case by simp
next
  case (Suc n)
  show ?case
  proof (cases xs)
    case Nil
    then show ?thesis by simp
  next
    case (Cons b bs)
    then have "next_free_block (st (Blk b)) = Some (hd (map Blk bs @ [Tail]))" "linked st (map Blk bs @ [Tail])"
      using Suc.prems(1) by (cases bs; auto)+
    then show ?thesis using Suc.IH[of bs] Suc.prems(2) Cons by simp
  qed
qed

lemma peek_spec:
  assumes "pool_inv p xs" and "0 \<le> limit"
  shows "peek_free_block_frontier limit p =
    Inr (map (\<lambda>b. (int b, block_hash (store p (Blk b)))) (take (nat limit) xs))"
proof -
  note r = pool_invD(1)[OF assms(1)]
  have "next_free_block (store p Head) = Some (hd (map Blk xs @ [Tail]))"
    "linked (store p) (map Blk xs @ [Tail])"
    using r by (cases xs; auto simp: fq_repr_def chain_def)+
  moreover have "block_id (store p (Blk b)) = int b" if "b \<in> set (take (nat limit) xs)" for b
    using pool_inv_block(1)[OF assms(1), of b] pool_inv_free[OF assms(1), of b] in_set_takeD[OF that]
    by (simp add: live_def)
  ultimately show ?thesis
    using peek_loop_chain[of "store p" xs "nat limit"] r assms(2)
    by (simp add: peek_free_block_frontier_def fq_repr_def)
qed

section \<open>Construction and counting\<close>

lemma BlockPool_spec:
  assumes "0 < n"
  shows "\<exists>p. BlockPool n caching hsz events use_int = Inr p \<and> pool_inv p [1..<n]
    \<and> num_gpu_blocks p = n \<and> enable_caching p = caching \<and> hash_block_size p = hsz
    \<and> enable_kv_cache_events p = events \<and> use_int_hashes p = use_int \<and> kv_event_queue p = []
    \<and> (\<forall>b. ref_cnt (store p (Blk b)) = 0 \<and> block_hash (store p (Blk b)) = None)"
proof -
  let ?q0 = "FreeKVCacheBlockQueue n initial_blocks"
  have "prev_free_block (initial_blocks (Blk b)) = None \<and> next_free_block (initial_blocks (Blk b)) = None" for b
    by (simp add: initial_blocks_def KVCacheBlock_def)
  then have "fq_repr ?q0 (0 # [1..<n])"
    using FreeKVCacheBlockQueue_repr[of initial_blocks n] assms by (simp add: upt_conv_Cons)
  from popleft_repr[OF this] obtain q where q: "popleft ?q0 = Inr (Blk 0, q)" "fq_next ?q0 q [1..<n]" by blast
  define p where "p = upd_block (Blk 0) (\<lambda>b. b\<lparr>is_null := True\<rparr>) (free_queue.extend q
            \<lparr>num_gpu_blocks = n, enable_caching = caching, hash_block_size = hsz,
             cached_map = (\<lambda>_. None), null_block = Blk 0, enable_kv_cache_events = events,
             kv_event_queue = [], use_int_hashes = use_int\<rparr>)"
  have run: "BlockPool n caching hsz events use_int = Inr p"
    using assms q(1) by (simp add: BlockPool_def p_def)
  have fields: "num_gpu_blocks p = n" "enable_caching p = caching" "hash_block_size p = hsz"
    "cached_map p = (\<lambda>_. None)" "null_block p = Blk 0" "enable_kv_cache_events p = events"
    "kv_event_queue p = []" "use_int_hashes p = use_int" "num_free_blocks p = num_free_blocks q"
    "store p = (store q)(Blk 0 := (store q (Blk 0))\<lparr>is_null := True\<rparr>)"
    by (simp_all add: p_def free_queue.defs)
  have "data_of (store q (Blk b)) = (int b, 0, None, False)" for b
    using fq_nextD(2)[OF q(2)] FreeKVCacheBlockQueue_data[of n initial_blocks b]
    by (simp add: same_data_def data_of_def initial_blocks_def KVCacheBlock_def)
  then have dat: "block_id (store q (Blk b)) = int b" "ref_cnt (store q (Blk b)) = 0"
    "block_hash (store q (Blk b)) = None" "\<not> is_null (store q (Blk b))" for b
    by (simp_all add: data_of_def)
  have "linked (store p) (chain [1..<n]) = linked (store q) (chain [1..<n])"
    by (rule linked_cong) (simp add: fields)
  then have "fq_repr p [1..<n]" using fq_nextD(1)[OF q(2)] by (simp add: fq_repr_def fields)
  moreover have "blocks_ok p" "cache_ok p"
    using assms by (auto simp: blocks_ok_def cache_ok_def fields dat)
  moreover have "counts_ok {} p [1..<n]"
    by (auto simp: counts_ok_def fields dat live_def)
  ultimately have "pool_inv p [1..<n]" by (simp add: pool_inv_upto_def)
  then show ?thesis using run fields dat by simp
qed

lemma evict_blocks_spec:
  assumes "pool_inv p xs" and "\<forall>b \<in> set ids. b < num_gpu_blocks p"
  shows "\<exists>p'. evict_blocks ids p = Inr p' \<and> pool_inv p' xs \<and> same_config p p'
    \<and> (\<forall>b. ref_cnt (store p' (Blk b)) = ref_cnt (store p (Blk b)))
    \<and> (\<forall>b. block_hash (store p' (Blk b)) = (if b \<in> set ids then None else block_hash (store p (Blk b))))"
  using assms
proof (induction ids arbitrary: p)
  case Nil
  then show ?case by (simp add: evict_blocks_def)
next
  case (Cons i ids)
  have i: "i < num_gpu_blocks p" using Cons.prems(2) by simp
  obtain q where q: "maybe_evict_cached_block (Blk i) p = (block_hash (store p (Blk i)) \<noteq> None, q)"
    "pool_inv q xs" "same_config p q"
    "store q = (store p)(Blk i := (store p (Blk i))\<lparr>block_hash := None\<rparr>)"
    using evict_spec[OF Cons.prems(1) i] by blast
  obtain p' where p': "evict_blocks ids q = Inr p'" "pool_inv p' xs" "same_config q p'"
    "\<forall>b. ref_cnt (store p' (Blk b)) = ref_cnt (store q (Blk b))"
    "\<forall>b. block_hash (store p' (Blk b)) = (if b \<in> set ids then None else block_hash (store q (Blk b)))"
    using Cons.IH[OF q(2)] Cons.prems(2) same_configD(1)[OF q(3)] by auto
  have "evict_blocks (i # ids) p = Inr p'"
    using p'(1) q(1) i by (simp add: evict_blocks_def evict_one_def)
  then show ?case using p' q same_config_trans[OF q(3) p'(3)] by auto
qed

text \<open>Every block but the null block is either free or referenced.\<close>

lemma pool_conservation:
  assumes inv: "pool_inv p xs"
  shows "num_free_blocks p + int (card {b. live p b \<and> 0 < ref_cnt (store p (Blk b))}) = int (num_gpu_blocks p) - 1"
proof -
  let ?used = "{b. live p b \<and> 0 < ref_cnt (store p (Blk b))}"
  have n: "0 < num_gpu_blocks p" using pool_invD(2)[OF inv] by (simp add: blocks_ok_def)
  have lv: "{b. live p b} = {1..<num_gpu_blocks p}" by (auto simp: live_def)
  have "{b. live p b} = set xs \<union> ?used" "set xs \<inter> ?used = {}"
    using pool_invD(4)[OF inv] by (auto simp: counts_ok_def order_le_less)
  moreover have "finite ?used" by (rule finite_subset[of _ "{..<num_gpu_blocks p}"]) (auto simp: live_def)
  ultimately have "card {b. live p b} = card (set xs) + card ?used" by (metis List.finite_set card_Un_disjoint)
  moreover have "card (set xs) = length xs"
    using fq_repr_distinct[OF pool_invD(1)[OF inv]] by (rule distinct_card)
  moreover have "card {b. live p b} = num_gpu_blocks p - 1" by (simp add: lv)
  ultimately show ?thesis using fq_repr_num[OF pool_invD(1)[OF inv]] n by linarith
qed

lemma get_usage_bounds:
  assumes "pool_inv p xs"
  shows "0 \<le> get_usage p" and "get_usage p \<le> 1"
proof -
  let ?n = "int (num_gpu_blocks p) - 1"
  have "0 \<le> num_free_blocks p" using fq_repr_num[OF pool_invD(1)[OF assms]] by simp
  moreover have "num_free_blocks p \<le> ?n" using pool_conservation[OF assms] by linarith
  ultimately have "?n \<noteq> 0 \<Longrightarrow> 0 \<le> real_of_int (num_free_blocks p) / real_of_int ?n \<and>
      real_of_int (num_free_blocks p) / real_of_int ?n \<le> 1"
    by (intro conjI divide_nonneg_nonneg divide_le_eq_1_pos[THEN iffD2]) linarith+
  then show "0 \<le> get_usage p" "get_usage p \<le> 1"
    by (auto simp: get_usage_def get_num_free_blocks_def Let_def)
qed

end
