(* ===== verification/Lifecycle.thy ===== *)
theory Lifecycle
  imports Config Metrics Cpu_Manager Block_Pool
begin

text \<open>
  The lifecycle registry (\<^verbatim>\<open>vllm/tokencake/lifecycle.py\<close>): one record per annotated generation, the
  stall events that move it through its states, the duration history, the deadlines, and the blocks
  of the CPU tier that a suspended lifecycle retains. The registry owns a reference to the CPU manager
  of theory \<open>Cpu_Manager\<close>.

  A record is changed through the reference held in the dictionary; an operation on a record takes its
  value and returns the new one, which the caller stores back. The clock is a stream of readings:
  each call consumes the next one. An infinite deadline is \<^verbatim>\<open>None\<close>.
\<close>

section \<open>Definitions\<close>

record req_context =
  rc_req_id :: string
  rc_kv_transfer_params :: "(string, pyval) dict option"

record snapshot_group =
  sg_keys :: "offload_key list"
  sg_block_ids :: "nat list list"
  sg_gpu_hashes :: "bytes option list list"

text \<open>\<^verbatim>\<open>self.block_ids[index]\<close> raises out of range; \<^verbatim>\<open>pool.blocks[bid]\<close> likewise.\<close>

definition snapshot_block_valid :: "block_pool \<Rightarrow> nat \<times> bytes option \<Rightarrow> bool res" where
  "snapshot_block_valid pool = (\<lambda>(bid, expected).
     if bid = 0 \<or> expected = None then Inr False
     else if num_gpu_blocks pool \<le> bid then Inl IndexError
     else Inr (block_hash (store pool (Blk bid)) = expected \<and> ref_cnt (store pool (Blk bid)) = 0))"

fun all_valid :: "block_pool \<Rightarrow> (nat \<times> bytes option) list \<Rightarrow> bool res" where
  "all_valid pool [] = Inr True"
| "all_valid pool (x # xs) = rbind (snapshot_block_valid pool x) (\<lambda>b. if b then all_valid pool xs else Inr False)"

definition snapshot_is_valid :: "snapshot_group \<Rightarrow> nat \<Rightarrow> block_pool \<Rightarrow> bool res" where
  "snapshot_is_valid g index pool =
     (if index < length (sg_block_ids g) \<and> index < length (sg_gpu_hashes g)
      then all_valid pool (zip (sg_block_ids g ! index) (sg_gpu_hashes g ! index))
      else Inl IndexError)"

record prefix_snapshot =
  ps_groups :: "snapshot_group list"
  ps_req_context :: req_context

datatype terminal_cause = Completed | Finished | Aborted | Error | Expired | Reset

fun cause_str :: "terminal_cause \<Rightarrow> string" where
  "cause_str Completed = ''completed''"
| "cause_str Finished = ''finished''"
| "cause_str Aborted = ''aborted''"
| "cause_str Error = ''error''"
| "cause_str Expired = ''expired''"
| "cause_str Reset = ''reset''"

record lifecycle =
  l_metadata :: metadata
  l_completed_at :: "real option"
  l_snapshot :: "prefix_snapshot option"
  l_start :: "lifecycle_event option"
  l_started_at :: "real option"
  l_predicted_duration :: real
  l_safety_deadline :: "real option"
  l_release_deadline :: "real option"
  l_ownership_released :: bool
  l_retained :: "offload_key list"
  l_pending_retention :: "offload_key list"
  l_pending_evaluation :: bool
  l_next_evaluation_step :: int
  l_backoff_signature :: "int list option"
  l_last_store_step :: int
  l_terminal_cause :: "terminal_cause option"
  l_terminal_at :: "real option"
  l_finish_accepted :: bool
  l_anonymous_sample :: "real option"

definition Lifecycle :: "metadata \<Rightarrow> lifecycle" where
  "Lifecycle md = \<lparr>l_metadata = md, l_completed_at = None, l_snapshot = None, l_start = None, l_started_at = None,
     l_predicted_duration = 0, l_safety_deadline = None, l_release_deadline = None, l_ownership_released = False,
     l_retained = [], l_pending_retention = [], l_pending_evaluation = False, l_next_evaluation_step = 0,
     l_backoff_signature = None, l_last_store_step = -5, l_terminal_cause = None, l_terminal_at = None,
     l_finish_accepted = False, l_anonymous_sample = None\<rparr>"

definition lc_state :: "lifecycle \<Rightarrow> string" where
  "lc_state l = (case l_terminal_cause l of
     Some c \<Rightarrow> cause_str c
   | None \<Rightarrow> if l_start l \<noteq> None then (if l_ownership_released l then ''released'' else ''active'')
       else if l_completed_at l = None then ''generating'' else ''awaiting_start'')"

definition owns_preservation :: "lifecycle \<Rightarrow> bool" where
  "owns_preservation l \<longleftrightarrow> l_start l \<noteq> None \<and> l_terminal_at l = None \<and> \<not> l_ownership_released l"

record registry =
  r_settings :: offload_config
  r_manager :: "cpu_manager option"
  r_clock :: "nat \<Rightarrow> real"
  r_ticks :: nat
  r_records :: "(string, lifecycle) dict"
  r_generations :: "(string, string) dict"
  r_history :: "(string \<times> string \<times> string, real) dict"
  r_metrics :: tokencake_metrics

definition LifecycleRegistry :: "offload_config \<Rightarrow> cpu_manager option \<Rightarrow> (nat \<Rightarrow> real) \<Rightarrow> registry" where
  "LifecycleRegistry settings manager clock = \<lparr>r_settings = settings, r_manager = manager, r_clock = clock, r_ticks = 0,
     r_records = [], r_generations = [], r_history = [], r_metrics = TokenCakeMetrics\<rparr>"

definition read_clock :: "registry \<Rightarrow> real \<times> registry" where
  "read_clock r = (r_clock r (r_ticks r), r\<lparr>r_ticks := Suc (r_ticks r)\<rparr>)"

definition lc_count :: "metric \<Rightarrow> registry \<Rightarrow> registry" where
  "lc_count k r = r\<lparr>r_metrics := count k (r_metrics r)\<rparr>"

definition set_record :: "string \<Rightarrow> lifecycle \<Rightarrow> registry \<Rightarrow> registry" where
  "set_record i l r = r\<lparr>r_records := dict_set i l (r_records r)\<rparr>"

definition past :: "real \<Rightarrow> real option \<Rightarrow> bool" where
  "past now deadline \<longleftrightarrow> (case deadline of None \<Rightarrow> False | Some t \<Rightarrow> now \<ge> t)"

definition lc_release :: "lifecycle \<Rightarrow> registry \<Rightarrow> (lifecycle \<times> registry) res" where
  "lc_release l r =
     (let keys = l_retained l;
          l = l\<lparr>l_retained := [], l_pending_retention := [], l_ownership_released := True\<rparr>
      in if keys = [] then Inr (l, r)
         else case r_manager r of
                None \<Rightarrow> Inl AssertionError
              | Some m \<Rightarrow> rbind (release keys m) (\<lambda>m. Inr (l, r\<lparr>r_manager := Some m\<rparr>)))"

definition terminalize :: "lifecycle \<Rightarrow> terminal_cause \<Rightarrow> real \<Rightarrow> registry \<Rightarrow> (lifecycle \<times> registry) res" where
  "terminalize l cause now r =
     (if l_terminal_at l \<noteq> None then Inr (l, r)
      else rbind (lc_release l r) (\<lambda>(l, r).
           rbind (metric_of (''lifecycle.'' @ cause_str cause)) (\<lambda>k.
             Inr (l\<lparr>l_snapshot := None, l_pending_evaluation := False, l_next_evaluation_step := 0,
                    l_backoff_signature := None, l_terminal_cause := Some cause, l_terminal_at := Some now\<rparr>,
                  lc_count k r))))"

text \<open>Store the new value of a record back.\<close>

definition store_back :: "string \<Rightarrow> (lifecycle \<times> registry) res \<Rightarrow> registry res" where
  "store_back i x = rbind x (\<lambda>(l, r). Inr (set_record i l r))"

definition attach_seconds :: real where "attach_seconds = 60"
definition tombstone_seconds :: real where "tombstone_seconds = 60"

definition expire_one :: "real \<Rightarrow> string \<Rightarrow> registry \<Rightarrow> registry res" where
  "expire_one now i r =
     (case map_of (r_records r) i of
        None \<Rightarrow> Inr r
      | Some l \<Rightarrow>
          (case l_terminal_at l of
             Some t \<Rightarrow> Inr (if now \<ge> t + tombstone_seconds then r\<lparr>r_records := dict_del i (r_records r)\<rparr> else r)
           | None \<Rightarrow>
               if l_started_at l \<noteq> None
               then if past now (l_safety_deadline l) then store_back i (terminalize l Expired now r)
                    else if past now (l_release_deadline l) then store_back i (lc_release l r)
                    else Inr r
               else if past now (map_option (\<lambda>t. t + attach_seconds) (l_completed_at l))
               then store_back i (terminalize l Expired now r)
               else Inr r))"

definition lc_expire :: "registry \<Rightarrow> registry res" where
  "lc_expire r = (let (now, r) = read_clock r in rfold (expire_one now) (map fst (r_records r)) r)"

text \<open>The refusal is a value: the registry after it is observable.\<close>

definition lc_associate :: "string \<Rightarrow> metadata \<Rightarrow> registry \<Rightarrow> (unit res \<times> registry) res" where
  "lc_associate req md r =
     rbind (lc_expire r) (\<lambda>r.
       let i = lifecycle_id md
       in if has_key (r_records r) i \<or> has_key (r_generations r) i
          then Inr (Inl DuplicateLifecycleError, lc_count CONFLICT r)
          else Inr (Inr (), lc_count ASSOCIATED (set_record i (Lifecycle md)
                 (r\<lparr>r_generations := dict_set i req (r_generations r)\<rparr>))))"

definition lc_generation_finished ::
  "string \<Rightarrow> terminal_cause \<Rightarrow> prefix_snapshot option \<Rightarrow> registry \<Rightarrow> registry res" where
  "lc_generation_finished i cause snap r =
     rbind (lc_expire r) (\<lambda>r.
       let r = r\<lparr>r_generations := dict_del i (r_generations r)\<rparr>
       in case map_of (r_records r) i of
            None \<Rightarrow> Inr r
          | Some l \<Rightarrow>
              if l_terminal_at l \<noteq> None then Inr r
              else let (now, r) = read_clock r
                   in if cause \<noteq> Completed \<or> \<not> o_enabled (r_settings r)
                      then store_back i (terminalize l cause now r)
                      else Inr (lc_count COMPLETED (set_record i (l\<lparr>l_completed_at := Some now, l_snapshot := snap,
                             l_pending_evaluation := (l_start l \<noteq> None)\<rparr>) r)))"

definition history_key :: "lifecycle \<Rightarrow> string \<Rightarrow> (string \<times> string \<times> string) option" where
  "history_key l kind =
     (let md = l_metadata l
      in if agent_type md \<noteq> [] then Some (''type'', agent_type md, kind)
         else if agent_name md \<noteq> [] then Some (''name'', agent_name md, kind)
         else None)"

definition predict :: "lifecycle \<Rightarrow> lifecycle_event \<Rightarrow> registry \<Rightarrow> real \<times> registry" where
  "predict l ev r =
     (let key = history_key l (le_kind ev);
          history = (case key of None \<Rightarrow> None | Some k \<Rightarrow> map_of (r_history r) k);
          r = (case (key, history) of (Some k, Some _) \<Rightarrow> r\<lparr>r_history := move_to_end k (r_history r)\<rparr> | _ \<Rightarrow> r)
      in (case le_estimated_duration_s ev of
            None \<Rightarrow> (case history of None \<Rightarrow> default_stall_s (r_settings r) | Some h \<Rightarrow> h)
          | Some e \<Rightarrow> (case history of None \<Rightarrow> e | Some h \<Rightarrow> (1/2) * (e + h)), r))"

definition history_limit :: nat where "history_limit = 4096"

definition learn :: "lifecycle \<Rightarrow> real \<Rightarrow> registry \<Rightarrow> (lifecycle \<times> registry) res" where
  "learn l now r =
     (case (l_start l, l_started_at l) of
        (Some start, Some started) \<Rightarrow>
          (let sample = max 0 (now - started)
           in case history_key l (le_kind start) of
                None \<Rightarrow> Inr (l\<lparr>l_anonymous_sample := Some sample\<rparr>, r)
              | Some k \<Rightarrow>
                  (case map_of (r_history r) k of
                     Some previous \<Rightarrow>
                       (let alpha = ewma_alpha (r_settings r);
                            sample = alpha * sample + (1 - alpha) * previous
                        in Inr (l, r\<lparr>r_history := dict_set k sample (dict_del k (r_history r))\<rparr>))
                   | None \<Rightarrow>
                       (let h = (if length (r_history r) \<ge> history_limit then tl (r_history r) else r_history r)
                        in Inr (l, r\<lparr>r_history := dict_set k sample h\<rparr>))))
      | _ \<Rightarrow> Inl AssertionError)"

definition set_h2d_estimate :: "lifecycle \<Rightarrow> real \<Rightarrow> registry \<Rightarrow> (lifecycle \<times> registry) res" where
  "set_h2d_estimate l seconds r =
     (case l_started_at l of
        None \<Rightarrow> Inl AssertionError
      | Some started \<Rightarrow>
          (let l = l\<lparr>l_release_deadline := Some (started + l_predicted_duration l
                     - max (release_lead_s (r_settings r)) (5/4 * seconds))\<rparr>;
               (now, r) = read_clock r
           in if past now (l_release_deadline l) then lc_release l r else Inr (l, r)))"

definition start_stall :: "lifecycle \<Rightarrow> lifecycle_event \<Rightarrow> real \<Rightarrow> registry \<Rightarrow> (lifecycle \<times> registry) res" where
  "start_stall l ev now r =
     (let l = l\<lparr>l_start := Some ev, l_started_at := Some now\<rparr>;
          (d, r) = predict l ev r;
          l = l\<lparr>l_predicted_duration := d, l_safety_deadline := Some (now + min 3600 (max 60 (4 * d)))\<rparr>
      in rbind (set_h2d_estimate l 0 r) (\<lambda>(l, r).
           Inr (l\<lparr>l_pending_evaluation := (l_completed_at l \<noteq> None)\<rparr>, lc_count STARTED r)))"

text \<open>The branches of \<^verbatim>\<open>apply\<close>: the disposition, the status code, the record and the registry.\<close>

definition dispatch :: "lifecycle \<Rightarrow> lifecycle_event \<Rightarrow> real \<Rightarrow> registry
    \<Rightarrow> (disposition \<times> int \<times> lifecycle \<times> registry) res" where
  "dispatch l ev now r =
     (if le_event ev = StallStartedEvent
      then if l_start l = Some ev then Inr (Duplicate, 200, l, r)
           else if l_start l \<noteq> None \<or> l_terminal_at l \<noteq> None then Inr (Conflict, 409, l, r)
           else rbind (start_stall l ev now r) (\<lambda>(l, r). Inr (Applied, 200, l, r))
      else if l_terminal_at l \<noteq> None then Inr (if l_finish_accepted l then Duplicate else LateFinish, 200, l, r)
      else if l_start l = None then Inr (Conflict, 409, l, r)
      else rbind (learn l now r) (\<lambda>(l, r).
           rbind (terminalize (l\<lparr>l_finish_accepted := True\<rparr>) Finished now r) (\<lambda>(l, r). Inr (Applied, 200, l, r))))"

definition lc_apply :: "lifecycle_event \<Rightarrow> registry \<Rightarrow> (lifecycle_event_result \<times> registry) res" where
  "lc_apply ev r =
     rbind (lc_expire r) (\<lambda>r.
       let i = le_lifecycle_id ev
       in case map_of (r_records r) i of
            None \<Rightarrow> Inr (\<lparr>ler_lifecycle_id = i, ler_event = le_event ev, ler_state = ''unknown'',
                       ler_disposition = Unknown, ler_status_code = 404\<rparr>, lc_count UNKNOWN r)
          | Some l \<Rightarrow>
              let (now, r) = read_clock r
              in rbind (dispatch l ev now r) (\<lambda>(disp, status, l, r).
                 let r = set_record i l r
                 in rbind (if disp = Applied then Inr r
                           else rbind (metric_of (''lifecycle.'' @ disposition_str disp)) (\<lambda>k. Inr (lc_count k r)))
                      (\<lambda>r. Inr (\<lparr>ler_lifecycle_id = i, ler_event = le_event ev, ler_state = lc_state l,
                           ler_disposition = disp, ler_status_code = status\<rparr>, r))))"

text \<open>A record that has left the registry is terminal, so it owns nothing.\<close>

definition retain_ready :: "string \<Rightarrow> offload_key list \<Rightarrow> registry \<Rightarrow> (offload_key list \<times> registry) res" where
  "retain_ready i keys r =
     rbind (lc_expire r) (\<lambda>r.
       case map_of (r_records r) i of
         None \<Rightarrow> Inr ([], r)
       | Some l \<Rightarrow>
           if \<not> owns_preservation l then Inr ([], r)
           else case r_manager r of
                  None \<Rightarrow> Inl AssertionError
                | Some m \<Rightarrow>
                    (let (kept, m) = retain (filter (\<lambda>k. k \<notin> set (l_retained l)) keys) m
                     in Inr (kept, set_record i (l\<lparr>l_retained := l_retained l @ kept\<rparr>) (r\<lparr>r_manager := Some m\<rparr>))))"

definition invalidate_snapshots :: "registry \<Rightarrow> registry" where
  "invalidate_snapshots r = r\<lparr>r_records :=
     map (\<lambda>(i, l). (i, l\<lparr>l_snapshot := None, l_pending_evaluation := False\<rparr>)) (r_records r)\<rparr>"

definition reset_one :: "real \<Rightarrow> string \<Rightarrow> registry \<Rightarrow> registry res" where
  "reset_one now i r = (case map_of (r_records r) i of
     None \<Rightarrow> Inr r
   | Some l \<Rightarrow> store_back i (terminalize (l\<lparr>l_retained := []\<rparr>) Reset now r))"

definition external_reset_succeeded :: "registry \<Rightarrow> registry res" where
  "external_reset_succeeded r = (let (now, r) = read_clock r in rfold (reset_one now) (map fst (r_records r)) r)"

definition has_pending_evaluation :: "registry \<Rightarrow> bool" where
  "has_pending_evaluation r = list_ex (\<lambda>(i, l). l_pending_evaluation l) (r_records r)"

definition lc_stats :: "registry \<Rightarrow> (string, int) dict" where
  "lc_stats r = snapshot (int (length (filter (\<lambda>(i, l). l_terminal_at l = None) (r_records r)))) (r_metrics r)"

end
