(* ===== verification/Lifecycle_Inv.thy ===== *)
theory Lifecycle_Inv
  imports Lifecycle
begin

text \<open>
  The invariant that ties the lifecycle registry to the CPU manager: the reference count of every
  resident block is the number of lifecycles that retain it plus the loads in flight. It is kept by
  every operation of the registry and of the manager, and it is why no operation of the registry
  can fail an assertion.
\<close>

section \<open>Counting the lifecycles that retain a block\<close>

definition pins :: "(string, lifecycle) dict \<Rightarrow> offload_key \<Rightarrow> nat" where
  "pins recs k = length (filter (\<lambda>x. k \<in> set (l_retained (snd x))) recs)"

definition holds :: "lifecycle \<Rightarrow> offload_key \<Rightarrow> nat" where
  "holds l k = (if k \<in> set (l_retained l) then 1 else 0)"

lemma pins_simps [simp]: "pins [] k = 0" "pins (x # recs) k = holds (snd x) k + pins recs k"
  by (simp_all add: pins_def holds_def)

lemma pins_set_new: "map_of recs i = None \<Longrightarrow> pins (dict_set i l recs) k = pins recs k + holds l k"
  by (induction recs) (auto split: if_splits)

lemma pins_set:
  "map_of recs i = Some l0 \<Longrightarrow> pins (dict_set i l recs) k + holds l0 k = pins recs k + holds l k"
  by (induction recs) (auto split: if_splits)

lemma pins_del: "wf_dict recs \<Longrightarrow> map_of recs i = Some l \<Longrightarrow> pins (dict_del i recs) k + holds l k = pins recs k"
proof (induction recs)
  case (Cons x recs)
  show ?case
  proof (cases "fst x = i")
    case True
    then have "i \<notin> fst ` set recs" using Cons.prems(1) by (auto simp: image_iff)
    then have "dict_del i recs = recs" by (force simp: AList.delete_eq filter_id_conv)
    then show ?thesis using True Cons.prems by (cases x) auto
  next
    case False
    then show ?thesis using Cons by (cases x) auto
  qed
qed simp

lemma pins_pos: "map_of recs i = Some l \<Longrightarrow> k \<in> set (l_retained l) \<Longrightarrow> 0 < pins recs k"
  by (induction recs) (auto simp: holds_def split: if_splits)

section \<open>The invariant\<close>

definition all_vals :: "('v \<Rightarrow> bool) \<Rightarrow> ('k, 'v) dict \<Rightarrow> bool" where
  "all_vals P d \<longleftrightarrow> (\<forall>l \<in> snd ` set d. P l)"

lemma all_vals_set [intro]: "all_vals P d \<Longrightarrow> P l \<Longrightarrow> all_vals P (dict_set i l d)"
  unfolding all_vals_def by (induction d) auto

lemma all_vals_del [intro]: "all_vals P d \<Longrightarrow> all_vals P (dict_del i d)"
  unfolding all_vals_def by (auto simp: set_dict_delete)

lemma all_vals_get: "all_vals P d \<Longrightarrow> map_of d i = Some l \<Longrightarrow> P l"
  unfolding all_vals_def by (force dest: map_of_SomeD)

definition rec_ok :: "lifecycle \<Rightarrow> bool" where
  "rec_ok l \<longleftrightarrow> distinct (l_retained l) \<and> (l_retained l \<noteq> [] \<longrightarrow> owns_preservation l)
     \<and> (l_start l = None \<longleftrightarrow> l_started_at l = None)
     \<and> (\<forall>t. l_started_at l = Some t \<longrightarrow> (\<exists>d. l_safety_deadline l = Some d \<and> d \<le> t + 3600))
     \<and> (l_terminal_cause l = None \<longleftrightarrow> l_terminal_at l = None)"

definition refs_ok :: "(offload_key \<Rightarrow> nat) \<Rightarrow> cpu_manager \<Rightarrow> (offload_key \<Rightarrow> nat) \<Rightarrow> bool" where
  "refs_ok loads m pn \<longleftrightarrow> (\<forall>k. int (pn k + loads k) < 2 ^ 31 \<and>
     (case status_of m k of
        Some b \<Rightarrow> if is_ready b then cs_ref_cnt b = int (pn k + loads k) else pn k + loads k = 0
      | None \<Rightarrow> pn k + loads k = 0))"

fun backed :: "(offload_key \<Rightarrow> nat) \<Rightarrow> cpu_manager option \<Rightarrow> (string, lifecycle) dict \<Rightarrow> bool" where
  "backed loads None recs = all_vals (\<lambda>l. l_retained l = []) recs"
| "backed loads (Some m) recs = (mgr_inv m \<and> refs_ok loads m (pins recs))"

definition lc_inv :: "(offload_key \<Rightarrow> nat) \<Rightarrow> registry \<Rightarrow> bool" where
  "lc_inv loads r \<longleftrightarrow> wf_dict (r_records r) \<and> all_vals rec_ok (r_records r)
     \<and> wf_dict (r_history r) \<and> length (r_history r) \<le> history_limit \<and> backed loads (r_manager r) (r_records r)"

lemma lc_inv_get: "lc_inv loads r \<Longrightarrow> map_of (r_records r) i = Some l \<Longrightarrow> rec_ok l"
  by (auto simp: lc_inv_def dest: all_vals_get)

lemma lc_inv_frame [simp]:
  "lc_inv loads (r\<lparr>r_ticks := n\<rparr>) = lc_inv loads r" "lc_inv loads (lc_count k r) = lc_inv loads r"
  "lc_inv loads (r\<lparr>r_generations := g\<rparr>) = lc_inv loads r"
  by (simp_all add: lc_inv_def lc_count_def)

lemma lc_frame [simp]:
  "r_records (lc_count k r) = r_records r" "r_manager (lc_count k r) = r_manager r"
  "r_clock (lc_count k r) = r_clock r" "r_ticks (lc_count k r) = r_ticks r"
  "r_settings (lc_count k r) = r_settings r" "r_history (lc_count k r) = r_history r"
  "r_records (set_record i l r) = dict_set i l (r_records r)" "r_manager (set_record i l r) = r_manager r"
  "r_clock (set_record i l r) = r_clock r" "r_ticks (set_record i l r) = r_ticks r"
  "r_settings (set_record i l r) = r_settings r" "r_history (set_record i l r) = r_history r"
  "r_generations (set_record i l r) = r_generations r" "r_generations (lc_count k r) = r_generations r"
  by (simp_all add: lc_count_def set_record_def)

lemma set_record_count [simp]: "lc_inv loads (set_record i l (lc_count k r)) = lc_inv loads (set_record i l r)"
  "lc_inv loads (set_record i l (r\<lparr>r_ticks := n\<rparr>)) = lc_inv loads (set_record i l r)"
  by (simp_all add: lc_inv_def)

text \<open>Storing a record that retains the same keys.\<close>

lemma set_record_same:
  assumes inv: "lc_inv loads r" and l0: "map_of (r_records r) i = Some l0" and ok: "rec_ok l"
    and same: "set (l_retained l) = set (l_retained l0)"
  shows "lc_inv loads (set_record i l r)"
proof -
  have p: "pins (dict_set i l (r_records r)) = pins (r_records r)"
    using pins_set[OF l0, of l] same by (auto simp: fun_eq_iff holds_def split: if_splits)
  have "backed loads (r_manager r) (dict_set i l (r_records r))"
  proof (cases "r_manager r")
    case None
    then have e: "all_vals (\<lambda>l. l_retained l = []) (r_records r)" using inv by (simp add: lc_inv_def)
    then have "l_retained l = []" using same all_vals_get[OF e l0] by simp
    then show ?thesis using None e by auto
  next
    case (Some m)
    then show ?thesis using inv p by (simp add: lc_inv_def)
  qed
  then show ?thesis
    using inv ok by (auto simp: lc_inv_def)
qed

lemma set_record_new:
  assumes inv: "lc_inv loads r" and new: "map_of (r_records r) i = None" and ok: "rec_ok l" and "l_retained l = []"
  shows "lc_inv loads (set_record i l r)"
proof -
  have p: "pins (dict_set i l (r_records r)) = pins (r_records r)"
    using pins_set_new[OF new, of l] assms(4) by (auto simp: fun_eq_iff holds_def)
  have "backed loads (r_manager r) (dict_set i l (r_records r))"
    using inv p assms(4) by (cases "r_manager r") (auto simp: lc_inv_def)
  then show ?thesis
    using inv ok by (auto simp: lc_inv_def)
qed

section \<open>Releasing\<close>

lemma refs_ok_pinned:
  assumes "refs_ok loads m pn" and "0 < pn k + loads k"
  shows "\<exists>b. status_of m k = Some b \<and> is_ready b \<and> cs_ref_cnt b = int (pn k + loads k) \<and> int (pn k + loads k) < 2 ^ 31"
  using assms unfolding refs_ok_def by (force split: option.splits if_splits)

lemma decr_ref: "0 < cs_ref_cnt b \<Longrightarrow> cs_ref_cnt b < 2 ^ 31 \<Longrightarrow> cs_ref_cnt (decr b) = cs_ref_cnt b - 1"
  by (simp add: decr_def set_ref_cnt_def c_int32_id)

lemma incr_ref_cnt: "0 \<le> cs_ref_cnt b \<Longrightarrow> cs_ref_cnt b < 2 ^ 31 - 1 \<Longrightarrow> cs_ref_cnt (incr b) = cs_ref_cnt b + 1"
  by (simp add: incr_def set_ref_cnt_def c_int32_id)

lemma release_refs:
  assumes m: "mgr_inv m" and ok: "refs_ok loads m pn" and d: "distinct ks" and held: "\<forall>k \<in> set ks. 0 < pn k"
  shows "\<exists>m'. release ks m = Inr m' \<and> mgr_inv m' \<and> refs_ok loads m' (\<lambda>k. pn k - (if k \<in> set ks then 1 else 0))"
proof -
  have p: "\<exists>b. status_of m k = Some b \<and> is_ready b \<and> cs_ref_cnt b = int (pn k + loads k) \<and> int (pn k + loads k) < 2 ^ 31"
    if "k \<in> set ks" for k using refs_ok_pinned[OF ok, of k] held that by auto
  have "list_all (\<lambda>key. case status_of m key of None \<Rightarrow> False | Some b \<Rightarrow> cs_ref_cnt b > 0) (remdups ks)"
    using p held by (fastforce simp: list_all_iff)
  then have run: "release ks m = Inr (fold decr_status ks m)" using d by (simp add: release_def distinct_remdups_id)
  have f: "mgr_inv (fold decr_status ks m)"
    "status_of (fold decr_status ks m) = (\<lambda>k. if k \<in> set ks then map_option decr (status_of m k) else status_of m k)"
    using fold_decr_spec[OF m d] by auto
  have "refs_ok loads (fold decr_status ks m) (\<lambda>k. pn k - (if k \<in> set ks then 1 else 0))"
    unfolding refs_ok_def
  proof (intro allI)
    fix k
    let ?pn = "pn k - (if k \<in> set ks then 1 else 0)"
    show "int (?pn + loads k) < 2 ^ 31 \<and> (case status_of (fold decr_status ks m) k of
        Some b \<Rightarrow> if is_ready b then cs_ref_cnt b = int (?pn + loads k) else ?pn + loads k = 0
      | None \<Rightarrow> ?pn + loads k = 0)"
    proof (cases "k \<in> set ks")
      case True
      then obtain b where b: "status_of m k = Some b" "cs_ref_cnt b = int (pn k + loads k)" "int (pn k + loads k) < 2 ^ 31"
        using p by blast
      have "cs_ref_cnt (decr b) = int (pn k + loads k) - 1" using decr_ref[of b] b held True by force
      then show ?thesis using b held True by (auto simp: f(2) is_ready_def)
    next
      case False
      then have e: "?pn = pn k" "status_of (fold decr_status ks m) k = status_of m k" by (simp_all add: f(2))
      show ?thesis unfolding e using ok unfolding refs_ok_def by blast
    qed
  qed
  then show ?thesis using run f(1) by blast
qed

definition dropped :: "lifecycle \<Rightarrow> lifecycle" where
  "dropped l = l\<lparr>l_retained := [], l_pending_retention := [], l_ownership_released := True\<rparr>"

lemma lc_release_spec:
  assumes inv: "lc_inv loads r" and l0: "map_of (r_records r) i = Some l0" and same: "l_retained l = l_retained l0"
  shows "\<exists>m'. lc_release l r = Inr (dropped l, r\<lparr>r_manager := m'\<rparr>) \<and> (m' = None \<longleftrightarrow> r_manager r = None)
    \<and> (\<forall>l'. rec_ok l' \<longrightarrow> l_retained l' = [] \<longrightarrow> lc_inv loads (set_record i l' (r\<lparr>r_manager := m'\<rparr>)))"
proof (cases "l_retained l0 = []")
  case True
  then have "lc_release l r = Inr (dropped l, r\<lparr>r_manager := r_manager r\<rparr>)"
    using same by (simp add: lc_release_def dropped_def)
  moreover have "lc_inv loads (set_record i l' (r\<lparr>r_manager := r_manager r\<rparr>))" if "rec_ok l'" "l_retained l' = []" for l'
    using set_record_same[OF inv l0 that(1)] that(2) True by simp
  ultimately show ?thesis by (intro exI[of _ "r_manager r"]) blast
next
  case False
  obtain m where m: "r_manager r = Some m"
    using inv False all_vals_get[OF _ l0] by (cases "r_manager r") (auto simp: lc_inv_def)
  have mi: "mgr_inv m" "refs_ok loads m (pins (r_records r))" using inv m by (simp_all add: lc_inv_def)
  have ro: "distinct (l_retained l0)" using lc_inv_get[OF inv l0] by (simp add: rec_ok_def)
  have pos: "\<forall>k \<in> set (l_retained l0). 0 < pins (r_records r) k" using pins_pos[OF l0] by blast
  obtain m' where m': "release (l_retained l0) m = Inr m'" "mgr_inv m'"
    "refs_ok loads m' (\<lambda>k. pins (r_records r) k - (if k \<in> set (l_retained l0) then 1 else 0))"
    using release_refs[OF mi ro pos] by blast
  have "lc_release l r = Inr (dropped l, r\<lparr>r_manager := Some m'\<rparr>)"
    using same False m m'(1) by (simp add: lc_release_def dropped_def)
  moreover have "lc_inv loads (set_record i l' (r\<lparr>r_manager := Some m'\<rparr>))" if "rec_ok l'" "l_retained l' = []" for l'
  proof -
    have "pins (dict_set i l' (r_records r)) = (\<lambda>k. pins (r_records r) k - (if k \<in> set (l_retained l0) then 1 else 0))"
      using pins_set[OF l0, of l'] that(2) by (force simp: fun_eq_iff holds_def split: if_splits)
    then show ?thesis
      using inv m' that(1) by (auto simp: lc_inv_def)
  qed
  ultimately show ?thesis using m by (intro exI[of _ "Some m'"]) simp
qed

section \<open>Every operation of the registry keeps the invariant and returns\<close>

lemma metric_of_cause: "\<exists>k. metric_of (''lifecycle.'' @ cause_str c) = Inr k"
  using metric_of_value[of COMPLETED] metric_of_value[of FINISHED] metric_of_value[of ABORTED]
    metric_of_value[of ERROR] metric_of_value[of EXPIRED] metric_of_value[of RESET]
  by (cases c) auto

lemma metric_of_disposition: "d \<noteq> Applied \<Longrightarrow> d \<noteq> Unavailable \<Longrightarrow> \<exists>k. metric_of (''lifecycle.'' @ disposition_str d) = Inr k"
  using metric_of_value[of DUPLICATE] metric_of_value[of LATE_FINISH] metric_of_value[of UNKNOWN]
    metric_of_value[of CONFLICT]
  by (cases d) auto

definition ended :: "lifecycle \<Rightarrow> terminal_cause \<Rightarrow> real \<Rightarrow> lifecycle" where
  "ended l cause now = (dropped l)\<lparr>l_snapshot := None, l_pending_evaluation := False, l_next_evaluation_step := 0,
     l_backoff_signature := None, l_terminal_cause := Some cause, l_terminal_at := Some now\<rparr>"

lemma rec_ok_dropped: "rec_ok l \<Longrightarrow> rec_ok (dropped l)" "l_retained (dropped l) = []"
  by (simp_all add: rec_ok_def dropped_def)

lemma rec_ok_ended: "rec_ok l \<Longrightarrow> rec_ok (ended l c t)" "l_retained (ended l c t) = []"
  by (simp_all add: rec_ok_def ended_def dropped_def)

lemma terminalize_spec:
  assumes inv: "lc_inv loads r" and l0: "map_of (r_records r) i = Some l0" and same: "l_retained l = l_retained l0"
    and live: "l_terminal_at l = None" and ok: "rec_ok l"
  shows "\<exists>m' k. terminalize l c now r = Inr (ended l c now, lc_count k (r\<lparr>r_manager := m'\<rparr>))
    \<and> (m' = None \<longleftrightarrow> r_manager r = None) \<and> lc_inv loads (set_record i (ended l c now) (r\<lparr>r_manager := m'\<rparr>))"
proof -
  obtain m' where m': "lc_release l r = Inr (dropped l, r\<lparr>r_manager := m'\<rparr>)" "m' = None \<longleftrightarrow> r_manager r = None"
    "\<forall>l'. rec_ok l' \<longrightarrow> l_retained l' = [] \<longrightarrow> lc_inv loads (set_record i l' (r\<lparr>r_manager := m'\<rparr>))"
    using lc_release_spec[OF inv l0 same] by (elim exE conjE)
  obtain k where "metric_of (''lifecycle.'' @ cause_str c) = Inr k" using metric_of_cause by blast
  then have "terminalize l c now r = Inr (ended l c now, lc_count k (r\<lparr>r_manager := m'\<rparr>))"
    using live m'(1) by (simp add: terminalize_def ended_def)
  then show ?thesis using m'(2,3) rec_ok_ended(1)[OF ok] rec_ok_ended(2) by (intro exI[of _ m'] exI[of _ k]) simp
qed

text \<open>A record on which the deadlines of time \<open>now\<close> have been enforced.\<close>

definition settled :: "real \<Rightarrow> lifecycle \<Rightarrow> bool" where
  "settled now l \<longleftrightarrow> (owns_preservation l \<longrightarrow> \<not> past now (l_safety_deadline l) \<and> \<not> past now (l_release_deadline l))"

definition same_others :: "string \<Rightarrow> registry \<Rightarrow> registry \<Rightarrow> bool" where
  "same_others i r r' \<longleftrightarrow> (\<forall>j. j \<noteq> i \<longrightarrow> map_of (r_records r') j = map_of (r_records r) j)
     \<and> r_clock r' = r_clock r \<and> r_ticks r' = r_ticks r \<and> r_settings r' = r_settings r \<and> r_history r' = r_history r
     \<and> r_generations r' = r_generations r \<and> (r_manager r' = None \<longleftrightarrow> r_manager r = None)"

lemma settled_simps [simp]: "settled now (dropped l)" "settled now (ended l c t)"
  by (simp_all add: settled_def owns_preservation_def dropped_def ended_def)

lemma expire_one_spec:
  assumes inv: "lc_inv loads r"
  shows "\<exists>r'. expire_one now i r = Inr r' \<and> lc_inv loads r' \<and> same_others i r r'
    \<and> (\<forall>l. map_of (r_records r') i = Some l \<longrightarrow> settled now l)"
proof (cases "map_of (r_records r) i")
  case None
  then show ?thesis using inv by (simp add: expire_one_def same_others_def)
next
  case (Some l)
  note ok = lc_inv_get[OF inv Some]
  have trm: ?thesis if "expire_one now i r = store_back i (terminalize l Expired now r)" "l_terminal_at l = None"
    using terminalize_spec[OF inv Some refl that(2) ok, of Expired now] that(1)
    by (auto simp: store_back_def same_others_def)
  have rel: ?thesis if "expire_one now i r = store_back i (lc_release l r)"
    using lc_release_spec[OF inv Some refl] that rec_ok_dropped(1)[OF ok] rec_ok_dropped(2)
    by (auto simp: store_back_def same_others_def)
  have stay: ?thesis if "expire_one now i r = Inr r" "settled now l"
    using that inv Some by (auto simp: same_others_def)
  show ?thesis
  proof (cases "l_terminal_at l")
    case (Some t)
    have e: "l_retained l = []" using ok Some by (auto simp: rec_ok_def owns_preservation_def)
    have "pins (dict_del i (r_records r)) = pins (r_records r)"
      using pins_del[of "r_records r" i l] inv \<open>map_of (r_records r) i = Some l\<close> e
      by (auto simp: lc_inv_def fun_eq_iff holds_def)
    then have "backed loads (r_manager r) (dict_del i (r_records r))"
      using inv by (cases "r_manager r") (auto simp: lc_inv_def)
    then have "lc_inv loads (r\<lparr>r_records := dict_del i (r_records r)\<rparr>)" using inv by (auto simp: lc_inv_def)
    moreover have "settled now l" using Some by (simp add: settled_def owns_preservation_def)
    ultimately show ?thesis
      using Some \<open>map_of (r_records r) i = Some l\<close> inv by (auto simp: expire_one_def same_others_def)
  next
    case None
    have "settled now l" if "\<not> past now (l_safety_deadline l)" "\<not> past now (l_release_deadline l)"
      using that by (simp add: settled_def)
    moreover have "settled now l" if "l_started_at l = None"
      using that ok by (simp add: settled_def owns_preservation_def rec_ok_def)
    ultimately show ?thesis
      using trm rel stay None Some by (auto simp: expire_one_def split: if_splits)
  qed
qed

lemma settled_others: "same_others i r r' \<Longrightarrow> j \<noteq> i \<Longrightarrow> map_of (r_records r') j = map_of (r_records r) j"
  by (simp add: same_others_def)

text \<open>The loop over the records: those visited are settled, the others wait their turn.\<close>

lemma expire_loop_spec:
  assumes "lc_inv loads r" and "distinct is"
  shows "\<exists>r'. rfold (expire_one now) is r = Inr r' \<and> lc_inv loads r' \<and> r_clock r' = r_clock r \<and> r_ticks r' = r_ticks r
    \<and> r_settings r' = r_settings r \<and> r_history r' = r_history r \<and> r_generations r' = r_generations r
    \<and> (r_manager r' = None \<longleftrightarrow> r_manager r = None)
    \<and> (\<forall>i \<in> set is. \<forall>l. map_of (r_records r') i = Some l \<longrightarrow> settled now l)
    \<and> (\<forall>i. i \<notin> set is \<longrightarrow> map_of (r_records r') i = map_of (r_records r) i)"
  using assms
proof (induction "is" arbitrary: r)
  case Nil
  then show ?case by simp
next
  case (Cons i "is")
  obtain r1 where r1: "expire_one now i r = Inr r1" "lc_inv loads r1" "same_others i r r1"
    "\<forall>l. map_of (r_records r1) i = Some l \<longrightarrow> settled now l"
    using expire_one_spec[OF Cons.prems(1)] by blast
  obtain r' where r': "rfold (expire_one now) is r1 = Inr r'" "lc_inv loads r'" "r_clock r' = r_clock r1" "r_ticks r' = r_ticks r1"
    "r_settings r' = r_settings r1" "r_history r' = r_history r1" "r_generations r' = r_generations r1"
    "\<forall>i \<in> set is. \<forall>l. map_of (r_records r') i = Some l \<longrightarrow> settled now l"
    "\<forall>i. i \<notin> set is \<longrightarrow> map_of (r_records r') i = map_of (r_records r1) i"
    "r_manager r' = None \<longleftrightarrow> r_manager r1 = None"
    using Cons.IH[OF r1(2)] Cons.prems(2) by auto
  have fr: "r_clock r' = r_clock r" "r_ticks r' = r_ticks r" "r_settings r' = r_settings r" "r_history r' = r_history r"
    "r_generations r' = r_generations r" "r_manager r' = None \<longleftrightarrow> r_manager r = None" using r' r1(3) by (simp_all add: same_others_def)
  have "\<forall>l. map_of (r_records r') j = Some l \<longrightarrow> settled now l" if "j \<in> set (i # is)" for j
    using that r1(4) r'(8,9) Cons.prems(2) by (cases "j = i") auto
  moreover have "map_of (r_records r') j = map_of (r_records r) j" if "j \<notin> set (i # is)" for j
    using that r'(9) settled_others[OF r1(3)] by auto
  ultimately show ?case using r1(1) r'(1,2) fr by auto
qed

lemma lc_expire_spec:
  assumes "lc_inv loads r"
  shows "\<exists>r'. lc_expire r = Inr r' \<and> lc_inv loads r' \<and> r_clock r' = r_clock r \<and> r_ticks r' = Suc (r_ticks r)
    \<and> r_settings r' = r_settings r \<and> r_history r' = r_history r \<and> r_generations r' = r_generations r
    \<and> all_vals (settled (r_clock r (r_ticks r))) (r_records r')
    \<and> (r_manager r' = None \<longleftrightarrow> r_manager r = None) \<and> length (r_records r') \<le> length (r_records r)"
proof -
  let ?now = "r_clock r (r_ticks r)" and ?r = "r\<lparr>r_ticks := Suc (r_ticks r)\<rparr>"
  have "lc_inv loads ?r" "distinct (map fst (r_records ?r))" using assms by (simp_all add: lc_inv_def)
  from expire_loop_spec[OF this, of ?now] obtain r' where r': "rfold (expire_one ?now) (map fst (r_records r)) ?r = Inr r'"
    "lc_inv loads r'" "r_clock r' = r_clock r" "r_ticks r' = Suc (r_ticks r)"
    "r_settings r' = r_settings r" "r_history r' = r_history r" "r_generations r' = r_generations r"
    "\<forall>i \<in> fst ` set (r_records r). \<forall>l. map_of (r_records r') i = Some l \<longrightarrow> settled ?now l"
    "\<forall>i. i \<notin> fst ` set (r_records r) \<longrightarrow> map_of (r_records r') i = map_of (r_records r) i"
    "r_manager r' = None \<longleftrightarrow> r_manager r = None" by auto
  have wf: "wf_dict (r_records r')" "wf_dict (r_records r)" using r'(2) assms by (simp_all add: lc_inv_def)
  have "fst ` set (r_records r') \<subseteq> fst ` set (r_records r)" using r'(9) by (metis map_of_eq_None_iff subsetI)
  then have len: "length (r_records r') \<le> length (r_records r)"
    using wf by (metis card_mono distinct_card finite_imageI finite_set length_map set_map)
  have "settled ?now l" if "(i, l) \<in> set (r_records r')" for i l
  proof -
    have m: "map_of (r_records r') i = Some l" using that wf(1) by (simp add: map_of_is_SomeI)
    then have "map_of (r_records r) i \<noteq> None \<or> i \<in> fst ` set (r_records r)" using r'(9) by (metis option.distinct(1))
    then show ?thesis using m r'(8) by (auto simp: map_of_eq_None_iff)
  qed
  then have "all_vals (settled ?now) (r_records r')" by (force simp: all_vals_def)
  then show ?thesis using r' len by (auto simp: lc_expire_def read_clock_def)
qed

lemma rec_ok_Lifecycle: "rec_ok (Lifecycle md)" "l_retained (Lifecycle md) = []"
  by (simp_all add: rec_ok_def Lifecycle_def)

lemma lc_associate_spec:
  assumes "lc_inv loads r"
  shows "\<exists>res r'. lc_associate req md r = Inr (res, r') \<and> lc_inv loads r'"
proof -
  obtain r1 where r1: "lc_expire r = Inr r1" "lc_inv loads r1" using lc_expire_spec[OF assms] by blast
  let ?r = "r1\<lparr>r_generations := dict_set (lifecycle_id md) req (r_generations r1)\<rparr>"
  have "lc_inv loads (set_record (lifecycle_id md) (Lifecycle md) ?r)" if "map_of (r_records r1) (lifecycle_id md) = None"
    using set_record_new[of loads ?r] r1(2) that rec_ok_Lifecycle by simp
  then show ?thesis using r1 by (auto simp: lc_associate_def Let_def has_key_def)
qed

lemma store_back_terminalize:
  assumes "lc_inv loads r" and "map_of (r_records r) i = Some l0" and "l_retained l = l_retained l0"
    and "l_terminal_at l = None" and "rec_ok l"
  shows "\<exists>r'. store_back i (terminalize l c now r) = Inr r' \<and> lc_inv loads r'"
  using terminalize_spec[OF assms, of c now] by (auto simp: store_back_def)

lemma lc_generation_finished_spec:
  assumes "lc_inv loads r"
  shows "\<exists>r'. lc_generation_finished i c snap r = Inr r' \<and> lc_inv loads r'"
proof -
  obtain r1 where r1: "lc_expire r = Inr r1" "lc_inv loads r1" using lc_expire_spec[OF assms] by blast
  let ?r = "r1\<lparr>r_generations := dict_del i (r_generations r1)\<rparr>"
  let ?r2 = "?r\<lparr>r_ticks := Suc (r_ticks r1)\<rparr>"
  have inv: "lc_inv loads ?r" "lc_inv loads ?r2" using r1(2) by (simp_all add: lc_inv_def)
  show ?thesis
  proof (cases "map_of (r_records r1) i")
    case None
    then show ?thesis using r1 inv by (simp add: lc_generation_finished_def)
  next
    case (Some l)
    then have l: "map_of (r_records ?r2) i = Some l" by simp
    note ok = lc_inv_get[OF inv(2) l]
    let ?l = "l\<lparr>l_completed_at := Some (r_clock r1 (r_ticks r1)), l_snapshot := snap, l_pending_evaluation := (l_start l \<noteq> None)\<rparr>"
    have "rec_ok ?l" using ok by (auto simp: rec_ok_def owns_preservation_def)
    then have "lc_inv loads (set_record i ?l ?r2)" using set_record_same[OF inv(2) l, of ?l] by simp
    moreover have "\<exists>r'. store_back i (terminalize l c (r_clock r1 (r_ticks r1)) ?r2) = Inr r' \<and> lc_inv loads r'"
      if "l_terminal_at l = None" using store_back_terminalize[OF inv(2) l refl that ok] .
    ultimately show ?thesis using r1 Some inv
      by (cases "l_terminal_at l") (auto simp: lc_generation_finished_def read_clock_def Let_def)
  qed
qed

text \<open>The history keeps distinct keys and its size limit.\<close>

definition history_ok :: "registry \<Rightarrow> bool" where
  "history_ok r \<longleftrightarrow> wf_dict (r_history r) \<and> length (r_history r) \<le> history_limit"

lemma lc_inv_history: "lc_inv loads (r\<lparr>r_history := h\<rparr>) \<longleftrightarrow> wf_dict h \<and> length h \<le> history_limit \<and> lc_inv loads (r\<lparr>r_history := []\<rparr>)"
  by (auto simp: lc_inv_def history_limit_def)

lemma lc_inv_history_drop: "lc_inv loads r \<Longrightarrow> lc_inv loads (r\<lparr>r_history := []\<rparr>)"
  by (simp add: lc_inv_def)

lemma predict_spec:
  assumes "lc_inv loads r"
  shows "\<exists>d h. predict l ev r = (d, r\<lparr>r_history := h\<rparr>) \<and> lc_inv loads (r\<lparr>r_history := h\<rparr>)"
proof -
  have h: "wf_dict (r_history r)" "length (r_history r) \<le> history_limit" using assms by (simp_all add: lc_inv_def)
  have "lc_inv loads (r\<lparr>r_history := move_to_end k (r_history r)\<rparr>)" for k
    using h lc_inv_history_drop[OF assms] by (subst lc_inv_history) simp
  moreover have "lc_inv loads (r\<lparr>r_history := r_history r\<rparr>)" using assms by simp
  moreover obtain h where "snd (predict l ev r) = r\<lparr>r_history := h\<rparr>"
    "h = r_history r \<or> (\<exists>k. h = move_to_end k (r_history r))"
  proof -
    have "snd (predict l ev r) = r\<lparr>r_history := r_history r\<rparr> \<or> (\<exists>k. snd (predict l ev r) = r\<lparr>r_history := move_to_end k (r_history r)\<rparr>)"
      by (auto simp: predict_def Let_def split: option.splits)
    then show ?thesis using that by blast
  qed
  ultimately show ?thesis by (metis prod.collapse)
qed

lemma learn_spec:
  assumes inv: "lc_inv loads r" and "l_start l \<noteq> None" "l_started_at l \<noteq> None"
  shows "\<exists>l' h. learn l now r = Inr (l', r\<lparr>r_history := h\<rparr>) \<and> lc_inv loads (r\<lparr>r_history := h\<rparr>)
    \<and> l' = l\<lparr>l_anonymous_sample := l_anonymous_sample l'\<rparr>"
proof -
  obtain s t where st: "l_start l = Some s" "l_started_at l = Some t" using assms by auto
  let ?h = "r_history r"
  have h: "wf_dict ?h" "length ?h \<le> history_limit" using inv by (simp_all add: lc_inv_def)
  have keep: "lc_inv loads (r\<lparr>r_history := h\<rparr>)" if "wf_dict h" "length h \<le> history_limit" for h
    using that lc_inv_history_drop[OF inv] by (subst lc_inv_history) simp
  have old: "lc_inv loads (r\<lparr>r_history := dict_set k x (dict_del k ?h)\<rparr>)" if "map_of ?h k = Some y" for k x y
    using that h length_dict_del_key[of ?h k] by (intro keep) (auto simp: length_dict_set has_key_def)
  have new: "lc_inv loads (r\<lparr>r_history := dict_set k x (if length ?h \<ge> history_limit then tl ?h else ?h)\<rparr>)"
    if "map_of ?h k = None" for k x
  proof (rule keep)
    show "wf_dict (dict_set k x (if length ?h \<ge> history_limit then tl ?h else ?h))" using h by (cases ?h) auto
    have "map_of (tl ?h) k = None" using that by (cases ?h) (auto split: if_splits)
    then show "length (dict_set k x (if length ?h \<ge> history_limit then tl ?h else ?h)) \<le> history_limit"
      using that h by (auto simp: length_dict_set has_key_def history_limit_def)
  qed
  show ?thesis
  proof (cases "history_key l (le_kind s)")
    case None
    then show ?thesis using st inv by (auto simp: learn_def Let_def intro!: exI[of _ ?h])
  next
    case (Some k)
    show ?thesis
    proof (cases "map_of ?h k")
      case None
      then have "learn l now r = Inr (l, r\<lparr>r_history := dict_set k (max 0 (now - t))
          (if length ?h \<ge> history_limit then tl ?h else ?h)\<rparr>)"
        using Some st by (simp add: learn_def Let_def)
      then show ?thesis using new[OF None] by (intro exI[of _ l] exI) (rule conjI, assumption, simp)
    next
      case (Some y)
      then have "learn l now r = Inr (l, r\<lparr>r_history := dict_set k (ewma_alpha (r_settings r) * max 0 (now - t)
          + (1 - ewma_alpha (r_settings r)) * y) (dict_del k ?h)\<rparr>)"
        using \<open>history_key l (le_kind s) = Some k\<close> st by (simp add: learn_def Let_def)
      then show ?thesis using old[OF Some] by (intro exI[of _ l] exI) (rule conjI, assumption, simp)
    qed
  qed
qed

lemma set_h2d_spec:
  assumes inv: "lc_inv loads r" and l0: "map_of (r_records r) i = Some l0" and same: "l_retained l = l_retained l0"
    and ok: "rec_ok l" and st: "l_started_at l \<noteq> None"
  shows "\<exists>l' m' n. set_h2d_estimate l seconds r = Inr (l', r\<lparr>r_ticks := n, r_manager := m'\<rparr>) \<and> rec_ok l'
    \<and> (\<forall>l''. rec_ok l'' \<longrightarrow> l_retained l'' = l_retained l' \<longrightarrow> lc_inv loads (set_record i l'' (r\<lparr>r_ticks := n, r_manager := m'\<rparr>)))
    \<and> l_start l' = l_start l \<and> l_started_at l' = l_started_at l \<and> l_terminal_at l' = l_terminal_at l
    \<and> l_completed_at l' = l_completed_at l"
proof -
  obtain t where t: "l_started_at l = Some t" using st by blast
  define l1 where "l1 = l\<lparr>l_release_deadline := Some (t + l_predicted_duration l - max (release_lead_s (r_settings r)) (5/4 * seconds))\<rparr>"
  have ok1: "rec_ok l1" using ok by (auto simp: l1_def rec_ok_def owns_preservation_def)
  have run: "set_h2d_estimate l seconds r = (if past (r_clock r (r_ticks r)) (l_release_deadline l1)
      then lc_release l1 (r\<lparr>r_ticks := Suc (r_ticks r)\<rparr>) else Inr (l1, r\<lparr>r_ticks := Suc (r_ticks r)\<rparr>))"
    using t by (simp add: set_h2d_estimate_def l1_def read_clock_def Let_def)
  have inv': "lc_inv loads (r\<lparr>r_ticks := Suc (r_ticks r)\<rparr>)" "map_of (r_records (r\<lparr>r_ticks := Suc (r_ticks r)\<rparr>)) i = Some l0"
    using inv l0 by simp_all
  show ?thesis
  proof (cases "past (r_clock r (r_ticks r)) (l_release_deadline l1)")
    case True
    obtain m' where m': "lc_release l1 (r\<lparr>r_ticks := Suc (r_ticks r)\<rparr>) = Inr (dropped l1, r\<lparr>r_ticks := Suc (r_ticks r), r_manager := m'\<rparr>)"
      "\<forall>l'. rec_ok l' \<longrightarrow> l_retained l' = [] \<longrightarrow> lc_inv loads (set_record i l' (r\<lparr>r_ticks := Suc (r_ticks r), r_manager := m'\<rparr>))"
      using lc_release_spec[OF inv', of l1] same by (auto simp: l1_def)
    show ?thesis
      using True run m' rec_ok_dropped(1)[OF ok1]
      by (intro exI[of _ "dropped l1"] exI[of _ m'] exI[of _ "Suc (r_ticks r)"]) (auto simp: dropped_def l1_def)
  next
    case False
    have "lc_inv loads (set_record i l'' (r\<lparr>r_ticks := Suc (r_ticks r), r_manager := r_manager r\<rparr>))"
      if "rec_ok l''" "l_retained l'' = l_retained l1" for l''
      using set_record_same[OF inv' that(1)] that(2) same by (simp add: l1_def)
    then show ?thesis
      using False run ok1 by (intro exI[of _ l1] exI[of _ "r_manager r"] exI[of _ "Suc (r_ticks r)"]) (auto simp: l1_def)
  qed
qed

lemma start_stall_spec:
  assumes inv: "lc_inv loads r" and l: "map_of (r_records r) i = Some l" and new: "l_start l = None" "l_terminal_at l = None"
  shows "\<exists>l' r'. start_stall l ev now r = Inr (l', r') \<and> lc_inv loads (set_record i l' r') \<and> l_start l' = Some ev
    \<and> l_terminal_at l' = None"
proof -
  note ok = lc_inv_get[OF inv l]
  have e: "l_retained l = []" using ok new by (auto simp: rec_ok_def owns_preservation_def)
  let ?l1 = "l\<lparr>l_start := Some ev, l_started_at := Some now\<rparr>"
  obtain d h where p: "predict ?l1 ev r = (d, r\<lparr>r_history := h\<rparr>)" "lc_inv loads (r\<lparr>r_history := h\<rparr>)"
    using predict_spec[OF inv] by blast
  let ?l2 = "?l1\<lparr>l_predicted_duration := d, l_safety_deadline := Some (now + min 3600 (max 60 (4 * d)))\<rparr>"
  have ok2: "rec_ok ?l2" using ok e new by (simp add: rec_ok_def)
  have l': "map_of (r_records (r\<lparr>r_history := h\<rparr>)) i = Some l" using l by simp
  have x: "l_retained ?l2 = l_retained l" "l_started_at ?l2 \<noteq> None" by simp_all
  obtain l3 m' n where s: "set_h2d_estimate ?l2 0 (r\<lparr>r_history := h\<rparr>) = Inr (l3, r\<lparr>r_history := h, r_ticks := n, r_manager := m'\<rparr>)"
    "rec_ok l3" "\<forall>l''. rec_ok l'' \<longrightarrow> l_retained l'' = l_retained l3 \<longrightarrow>
       lc_inv loads (set_record i l'' (r\<lparr>r_history := h, r_ticks := n, r_manager := m'\<rparr>))"
    "l_start l3 = Some ev" "l_terminal_at l3 = None"
    using set_h2d_spec[OF p(2) l' x(1) ok2 x(2), of 0] new(2) by auto
  have "rec_ok (l3\<lparr>l_pending_evaluation := b\<rparr>)" for b using s(2) by (auto simp: rec_ok_def owns_preservation_def)
  then show ?thesis using s p(1) by (simp add: start_stall_def Let_def)
qed

lemma dispatch_spec:
  assumes inv: "lc_inv loads r" and l: "map_of (r_records r) i = Some l"
  shows "\<exists>d st l' r'. dispatch l ev now r = Inr (d, st, l', r') \<and> lc_inv loads (set_record i l' r') \<and> d \<noteq> Unavailable"
proof -
  note ok = lc_inv_get[OF inv l]
  have same: "lc_inv loads (set_record i l r)" using set_record_same[OF inv l ok refl] .
  have fin: "\<exists>l' r'. rbind (learn l now r) (\<lambda>(l, r). terminalize (l\<lparr>l_finish_accepted := True\<rparr>) Finished now r) = Inr (l', r')
      \<and> lc_inv loads (set_record i l' r')" if live: "l_start l \<noteq> None" "l_terminal_at l = None"
  proof -
    have "l_started_at l \<noteq> None" using live ok by (auto simp: rec_ok_def)
    then obtain l1 h where "learn l now r = Inr (l1, r\<lparr>r_history := h\<rparr>)" "lc_inv loads (r\<lparr>r_history := h\<rparr>)"
      "l1 = l\<lparr>l_anonymous_sample := l_anonymous_sample l1\<rparr>" using learn_spec[OF inv live(1)] by blast
    then obtain s where l1: "learn l now r = Inr (l\<lparr>l_anonymous_sample := s\<rparr>, r\<lparr>r_history := h\<rparr>)" "lc_inv loads (r\<lparr>r_history := h\<rparr>)"
      by metis
    let ?l = "l\<lparr>l_anonymous_sample := s, l_finish_accepted := True\<rparr>"
    have "rec_ok ?l" using ok by (auto simp: rec_ok_def owns_preservation_def)
    then obtain m' k where "terminalize ?l Finished now (r\<lparr>r_history := h\<rparr>) =
        Inr (ended ?l Finished now, lc_count k (r\<lparr>r_history := h, r_manager := m'\<rparr>))"
      "lc_inv loads (set_record i (ended ?l Finished now) (r\<lparr>r_history := h, r_manager := m'\<rparr>))"
      using terminalize_spec[OF l1(2), of i l ?l Finished now] l live(2) by auto
    then show ?thesis using l1(1) by simp
  qed
  consider (start) "le_event ev = StallStartedEvent" "l_start l = None" "l_terminal_at l = None"
    | (finish) "le_event ev \<noteq> StallStartedEvent" "l_start l \<noteq> None" "l_terminal_at l = None"
    | (unchanged) d st where "dispatch l ev now r = Inr (d, st, l, r)" "d \<noteq> Unavailable"
    by (cases "le_event ev = StallStartedEvent"; cases "l_start l = Some ev"; cases "l_start l"; cases "l_terminal_at l")
      (auto simp: dispatch_def)
  then show ?thesis
  proof cases
    case start
    then show ?thesis using start_stall_spec[OF inv l start(2,3), of ev now] by (auto simp: dispatch_def)
  next
    case finish
    obtain l1 r1 l' r' where "learn l now r = Inr (l1, r1)"
      "terminalize (l1\<lparr>l_finish_accepted := True\<rparr>) Finished now r1 = Inr (l', r')" "lc_inv loads (set_record i l' r')"
      using fin[OF finish(2,3)] by (auto simp: rbind_eq_Inr)
    then show ?thesis using finish by (auto simp: dispatch_def)
  next
    case unchanged
    then show ?thesis using same by blast
  qed
qed

lemma lc_apply_spec:
  assumes "lc_inv loads r"
  shows "\<exists>res r'. lc_apply ev r = Inr (res, r') \<and> lc_inv loads r'"
proof -
  obtain r1 where r1: "lc_expire r = Inr r1" "lc_inv loads r1" using lc_expire_spec[OF assms] by blast
  show ?thesis
  proof (cases "map_of (r_records r1) (le_lifecycle_id ev)")
    case None
    then show ?thesis using r1 by (simp add: lc_apply_def Let_def)
  next
    case (Some l)
    let ?r = "r1\<lparr>r_ticks := Suc (r_ticks r1)\<rparr>" and ?i = "le_lifecycle_id ev"
    have "lc_inv loads ?r" "map_of (r_records ?r) ?i = Some l" using r1(2) Some by simp_all
    then obtain d st l' r' where d: "dispatch l ev (r_clock r1 (r_ticks r1)) ?r = Inr (d, st, l', r')"
      "lc_inv loads (set_record ?i l' r')" "d \<noteq> Unavailable"
      using dispatch_spec by blast
    obtain k where "d \<noteq> Applied \<Longrightarrow> metric_of (''lifecycle.'' @ disposition_str d) = Inr k"
      using metric_of_disposition d(3) by blast
    then show ?thesis
      using r1(1) Some d by (cases "d = Applied") (simp_all add: lc_apply_def read_clock_def Let_def)
  qed
qed

section \<open>Retaining\<close>

lemma pins_le_length: "pins recs k \<le> length recs"
  by (simp add: pins_def)

lemma ready_refs:
  assumes "refs_ok loads m pn" and "ready_key m k"
  shows "\<exists>b. status_of m k = Some b \<and> cs_ref_cnt b = int (pn k + loads k)"
proof -
  obtain b where b: "status_of m k = Some b" "is_ready b" using assms(2) by (auto simp: ready_key_def split: option.splits)
  then show ?thesis using assms(1)[unfolded refs_ok_def, THEN spec, of k] by simp
qed

lemma retain_refs:
  assumes m: "mgr_inv m" and ok: "refs_ok loads m pn" and run: "retain ks m = (kept, m')"
    and room: "\<forall>k. int (pn k + loads k) < 2 ^ 31 - 1"
  shows "refs_ok loads m' (\<lambda>k. pn k + (if k \<in> set kept then 1 else 0))"
  unfolding refs_ok_def
proof (intro allI)
  fix k
  note r = retain_spec[OF m run]
  let ?pn = "pn k + (if k \<in> set kept then 1 else 0)"
  show "int (?pn + loads k) < 2 ^ 31 \<and> (case status_of m' k of
        Some b \<Rightarrow> if is_ready b then cs_ref_cnt b = int (?pn + loads k) else ?pn + loads k = 0
      | None \<Rightarrow> ?pn + loads k = 0)"
  proof (cases "k \<in> set kept")
    case True
    then have k: "k \<in> set ks" "ready_key m k" using r(2) by auto
    obtain b where b: "status_of m k = Some b" "cs_ref_cnt b = int (pn k + loads k)" using ready_refs[OF ok k(2)] by blast
    have c: "cs_ref_cnt b < 2 ^ 31 - 1" "0 \<le> cs_ref_cnt b" using room b(2) by (metis, simp)
    have "cs_ref_cnt (incr b) = int (pn k + loads k) + 1" using incr_ref_cnt[OF c(2,1)] b(2) by simp
    then show ?thesis using b c True by (simp add: r(3) k is_ready_def)
  next
    case False
    then have e: "?pn = pn k" "status_of m' k = status_of m k" using r(2,3) by auto
    show ?thesis unfolding e using ok unfolding refs_ok_def by blast
  qed
qed

definition room :: "(offload_key \<Rightarrow> nat) \<Rightarrow> registry \<Rightarrow> bool" where
  "room loads r \<longleftrightarrow> (\<forall>k. int (length (r_records r) + loads k) < 2 ^ 31 - 1)"

lemma retain_ready_spec:
  assumes inv: "lc_inv loads r" and rm: "room loads r" and mgr: "r_manager r \<noteq> None"
  shows "\<exists>kept r'. retain_ready i keys r = Inr (kept, r') \<and> lc_inv loads r'"
proof -
  obtain r1 where r1: "lc_expire r = Inr r1" "lc_inv loads r1" "r_manager r1 \<noteq> None"
    "length (r_records r1) \<le> length (r_records r)" using lc_expire_spec[OF inv] mgr by blast
  obtain m where m: "r_manager r1 = Some m" using r1(3) by blast
  show ?thesis
  proof (cases "\<exists>l. map_of (r_records r1) i = Some l \<and> owns_preservation l")
    case False
    then show ?thesis using r1 by (auto simp: retain_ready_def split: option.splits)
  next
    case True
    then obtain l where l: "map_of (r_records r1) i = Some l" "owns_preservation l" by blast
    note ok = lc_inv_get[OF r1(2) l(1)]
    have mi: "mgr_inv m" "refs_ok loads m (pins (r_records r1))" using r1(2) m by (simp_all add: lc_inv_def)
    obtain kept m' where k: "retain (filter (\<lambda>k. k \<notin> set (l_retained l)) keys) m = (kept, m')" by fastforce
    note rs = retain_spec[OF mi(1) k]
    have "int (pins (r_records r1) x + loads x) < 2 ^ 31 - 1" for x
    proof -
      have "pins (r_records r1) x \<le> length (r_records r)" using pins_le_length[of "r_records r1" x] r1(4) by simp
      moreover have "int (length (r_records r) + loads x) < 2 ^ 31 - 1" using rm unfolding room_def by blast
      ultimately show ?thesis by linarith
    qed
    then have refs: "refs_ok loads m' (\<lambda>k. pins (r_records r1) k + (if k \<in> set kept then 1 else 0))"
      using retain_refs[OF mi k] by blast
    let ?l = "l\<lparr>l_retained := l_retained l @ kept\<rparr>"
    have disj: "set kept \<inter> set (l_retained l) = {}" "distinct kept" using rs(2) by auto
    have "pins (dict_set i ?l (r_records r1)) = (\<lambda>k. pins (r_records r1) k + (if k \<in> set kept then 1 else 0))"
    proof
      fix k
      show "pins (dict_set i ?l (r_records r1)) k = pins (r_records r1) k + (if k \<in> set kept then 1 else 0)"
        using pins_set[OF l(1), of ?l k] disj(1) by (auto simp: holds_def split: if_splits)
    qed
    moreover have "rec_ok ?l" using ok l(2) disj by (auto simp: rec_ok_def owns_preservation_def)
    ultimately have "lc_inv loads (set_record i ?l (r1\<lparr>r_manager := Some m'\<rparr>))"
      using r1(2) refs rs(1) by (auto simp: lc_inv_def)
    then show ?thesis using r1(1) l m k by (simp add: retain_ready_def)
  qed
qed

section \<open>Resetting\<close>

text \<open>
  \<^verbatim>\<open>TokenCakeOffloadingScheduler.reset_cache\<close> resets the manager and then tells the registry, which
  forgets the retained keys before it ends every lifecycle.
\<close>

lemma reset_one_spec:
  assumes "wf_dict (r_records r)" and "all_vals rec_ok (r_records r)" and l: "map_of (r_records r) i = Some l"
  shows "\<exists>l' k. reset_one now i r = Inr (set_record i l' (if l_terminal_at l = None then lc_count k r else r))
    \<and> rec_ok l' \<and> l_retained l' = []"
proof (cases "l_terminal_at l")
  case None
  obtain k where "metric_of (''lifecycle.'' @ cause_str Reset) = Inr k" using metric_of_cause by blast
  moreover have "rec_ok (ended (l\<lparr>l_retained := []\<rparr>) Reset now)"
    using all_vals_get[OF assms(2) l] by (auto simp: rec_ok_def ended_def dropped_def)
  ultimately show ?thesis
    using None l rec_ok_ended(2)[of "l\<lparr>l_retained := []\<rparr>" Reset now]
    by (intro exI[of _ "ended (l\<lparr>l_retained := []\<rparr>) Reset now"] exI[of _ k])
       (simp add: reset_one_def store_back_def terminalize_def lc_release_def ended_def dropped_def)
next
  case (Some t)
  have "rec_ok (l\<lparr>l_retained := []\<rparr>)" using all_vals_get[OF assms(2) l] by (auto simp: rec_ok_def)
  then show ?thesis
    using Some l by (intro exI[of _ "l\<lparr>l_retained := []\<rparr>"]) (simp add: reset_one_def store_back_def terminalize_def)
qed

lemma fst_set_update: "fst ` set (dict_set i l d) = insert i (fst ` set d)"
  unfolding dom_map_of_conv_image_fst[symmetric] by simp

lemma reset_loop_spec:
  assumes "wf_dict (r_records r)" and "all_vals rec_ok (r_records r)" and "distinct is"
  shows "\<exists>r'. rfold (reset_one now) is r = Inr r' \<and> wf_dict (r_records r') \<and> all_vals rec_ok (r_records r')
    \<and> r_manager r' = r_manager r \<and> r_history r' = r_history r \<and> fst ` set (r_records r') = fst ` set (r_records r)
    \<and> (\<forall>i \<in> set is. \<forall>l. map_of (r_records r') i = Some l \<longrightarrow> l_retained l = [])
    \<and> (\<forall>i. i \<notin> set is \<longrightarrow> map_of (r_records r') i = map_of (r_records r) i)"
  using assms
proof (induction "is" arbitrary: r)
  case Nil
  then show ?case by simp
next
  case (Cons i "is")
  have "\<exists>r1. reset_one now i r = Inr r1 \<and> wf_dict (r_records r1) \<and> all_vals rec_ok (r_records r1)
    \<and> r_manager r1 = r_manager r \<and> r_history r1 = r_history r \<and> fst ` set (r_records r1) = fst ` set (r_records r)
    \<and> (\<forall>l. map_of (r_records r1) i = Some l \<longrightarrow> l_retained l = [])
    \<and> (\<forall>j. j \<noteq> i \<longrightarrow> map_of (r_records r1) j = map_of (r_records r) j)"
  proof (cases "map_of (r_records r) i")
    case None
    then show ?thesis using Cons.prems by (simp add: reset_one_def)
  next
    case (Some l)
    obtain l' k where "reset_one now i r = Inr (set_record i l' (if l_terminal_at l = None then lc_count k r else r))"
      "rec_ok l'" "l_retained l' = []" using reset_one_spec[OF Cons.prems(1,2) Some] by blast
    moreover have "i \<in> fst ` set (r_records r)" using Some by (metis map_of_eq_None_iff option.distinct(1))
    ultimately show ?thesis
      using Cons.prems(1,2) by (cases "l_terminal_at l") (simp_all add: fst_set_update insert_absorb all_vals_set)
  qed
  then obtain r1 where r1: "reset_one now i r = Inr r1" "wf_dict (r_records r1)" "all_vals rec_ok (r_records r1)"
    "r_manager r1 = r_manager r" "r_history r1 = r_history r" "fst ` set (r_records r1) = fst ` set (r_records r)"
    "\<forall>l. map_of (r_records r1) i = Some l \<longrightarrow> l_retained l = []"
    "\<forall>j. j \<noteq> i \<longrightarrow> map_of (r_records r1) j = map_of (r_records r) j" by blast
  show ?case using Cons.IH[OF r1(2,3)] Cons.prems(3) r1(1,4-8) by (auto simp: rbind_def)
qed

lemma external_reset_spec:
  assumes inv: "lc_inv loads r"
  shows "\<exists>r'. external_reset_succeeded (r\<lparr>r_manager := map_option reset_cache (r_manager r)\<rparr>) = Inr r' \<and> lc_inv (\<lambda>_. 0) r'
    \<and> all_vals (\<lambda>l. l_retained l = []) (r_records r')"
proof -
  let ?r = "r\<lparr>r_manager := map_option reset_cache (r_manager r), r_ticks := Suc (r_ticks r)\<rparr>"
  have w: "wf_dict (r_records ?r)" "all_vals rec_ok (r_records ?r)" "distinct (map fst (r_records r))"
    using inv by (simp_all add: lc_inv_def)
  obtain r' where r': "rfold (reset_one (r_clock r (r_ticks r))) (map fst (r_records r)) ?r = Inr r'" "wf_dict (r_records r')"
    "all_vals rec_ok (r_records r')" "r_manager r' = map_option reset_cache (r_manager r)" "r_history r' = r_history r"
    "fst ` set (r_records r') = fst ` set (r_records r)"
    "\<forall>i \<in> fst ` set (r_records r). \<forall>l. map_of (r_records r') i = Some l \<longrightarrow> l_retained l = []"
    using reset_loop_spec[OF w, of "r_clock r (r_ticks r)"] by auto
  have e: "all_vals (\<lambda>l. l_retained l = []) (r_records r')"
    unfolding all_vals_def using r'(2,6,7) by (metis (no_types, lifting) imageE imageI map_of_is_SomeI prod.collapse)
  then have p: "pins (r_records r') = (\<lambda>_. 0)" by (auto simp: pins_def all_vals_def fun_eq_iff filter_empty_conv)
  have "backed (\<lambda>_. 0) (r_manager r') (r_records r')"
  proof (cases "r_manager r")
    case None
    then show ?thesis using r'(4) e by simp
  next
    case (Some m)
    have "mgr_inv m" using inv Some by (simp add: lc_inv_def)
    then have "mgr_inv (reset_cache m)" "status_of (reset_cache m) = Map.empty"
      using reset_cache_inv pol.clr_law[OF mgr_invD(1)] by (auto simp: reset_cache_def)
    then show ?thesis using r'(4) Some p by (simp add: refs_ok_def)
  qed
  then have "lc_inv (\<lambda>_. 0) r'" using r'(2,3,5) inv by (simp add: lc_inv_def)
  then show ?thesis using r'(1) e by (simp add: external_reset_succeeded_def read_clock_def)
qed

end
