(* ===== verification/Lifecycle_Reach.thy ===== *)
theory Lifecycle_Reach
  imports Lifecycle_Inv
begin

text \<open>
  Runs of the lifecycle registry together with the CPU manager it shares with the offloading
  connector: stall events, generations, retention and resets interleaved with the loads, stores
  and lookups of the connector. The loads in flight are counted on the side.
\<close>

section \<open>The manager's own operations keep the reference counts\<close>

lemma refs_ok_status: "status_of m' = status_of m \<Longrightarrow> refs_ok loads m' pn = refs_ok loads m pn"
  by (simp only: refs_ok_def)

lemma refs_okD:
  assumes "refs_ok loads m pn"
  shows "int (pn k + loads k) < 2 ^ 31"
    and "status_of m k = Some b \<Longrightarrow> is_ready b \<Longrightarrow> cs_ref_cnt b = int (pn k + loads k)"
    and "status_of m k = Some b \<Longrightarrow> \<not> is_ready b \<Longrightarrow> pn k + loads k = 0"
    and "status_of m k = None \<Longrightarrow> pn k + loads k = 0"
  using assms[unfolded refs_ok_def, THEN spec, of k] by simp_all

lemma refs_okI:
  assumes "\<And>k. int (pn k + loads k) < 2 ^ 31"
    and "\<And>k b. status_of m k = Some b \<Longrightarrow> is_ready b \<Longrightarrow> cs_ref_cnt b = int (pn k + loads k)"
    and "\<And>k b. status_of m k = Some b \<Longrightarrow> \<not> is_ready b \<Longrightarrow> pn k + loads k = 0"
    and "\<And>k. status_of m k = None \<Longrightarrow> pn k + loads k = 0"
  shows "refs_ok loads m pn"
  unfolding refs_ok_def
proof (intro allI conjI)
  fix k
  show "int (pn k + loads k) < 2 ^ 31" by (rule assms(1))
  show "case status_of m k of Some b \<Rightarrow> if is_ready b then cs_ref_cnt b = int (pn k + loads k) else pn k + loads k = 0
      | None \<Rightarrow> pn k + loads k = 0"
    using assms(2-4)[of k] by (cases "status_of m k") simp_all
qed

lemma refs_ok_upd:
  assumes "refs_ok loads m pn" and "status_of m' = (status_of m)(k \<mapsto> b)" and "\<And>x. x \<noteq> k \<Longrightarrow> loads' x = loads x"
    and "int (pn k + loads' k) < 2 ^ 31" and "is_ready b" and "cs_ref_cnt b = int (pn k + loads' k)"
  shows "refs_ok loads' m' pn"
proof (rule refs_okI)
  fix x
  show "int (pn x + loads' x) < 2 ^ 31" using refs_okD(1)[OF assms(1), of x] assms(3,4) by (cases "x = k") auto
next
  fix x c
  assume "status_of m' x = Some c" "is_ready c"
  then show "cs_ref_cnt c = int (pn x + loads' x)"
    using refs_okD(2)[OF assms(1), of x c] assms(2,3,6) by (cases "x = k") auto
next
  fix x c
  assume "status_of m' x = Some c" "\<not> is_ready c"
  then show "pn x + loads' x = 0"
    using refs_okD(3)[OF assms(1), of x c] assms(2,3,5) by (cases "x = k") auto
next
  fix x
  assume "status_of m' x = None"
  then show "pn x + loads' x = 0" using refs_okD(4)[OF assms(1), of x] assms(2,3) by (cases "x = k") auto
qed

lemma load_loop_refs:
  assumes "mgr_inv m" and "refs_ok loads m pn" and "load_loop ks m bl = Inr (bl', m')"
    and "\<forall>k. int (pn k + loads k + count_list ks k) < 2 ^ 31"
  shows "mgr_inv m' \<and> refs_ok (\<lambda>k. loads k + count_list ks k) m' pn"
  using assms
proof (induction ks arbitrary: m bl loads)
  case Nil
  then show ?case by simp
next
  case (Cons k ks)
  then obtain b where b: "status_of m k = Some b" "is_ready b" by (auto split: option.splits if_splits)
  let ?m = "upd_status k (incr b) m" and ?loads = "loads(k := loads k + 1)"
  have u: "mgr_inv ?m" "status_of ?m = (status_of m)(k \<mapsto> incr b)"
    using upd_status_inv[OF Cons.prems(1) b(1), of "incr b"] by simp_all
  have c: "cs_ref_cnt b = int (pn k + loads k)" by (rule refs_okD(2)[OF Cons.prems(2) b])
  have lt: "int (pn k + loads k) + 1 < 2 ^ 31" using Cons.prems(4)[THEN spec, of k] by simp
  have ci: "cs_ref_cnt (incr b) = int (pn k + loads k) + 1" using incr_ref_cnt[of b] c lt by simp
  have rf: "refs_ok ?loads ?m pn"
    by (rule refs_ok_upd[OF Cons.prems(2) u(2)]) (use ci lt in \<open>simp_all add: is_ready_def\<close>)
  have run: "load_loop ks ?m (bl @ [incr b]) = Inr (bl', m')" using Cons.prems(3) b by (simp add: Let_def incr_def)
  have e: "(\<lambda>x. ?loads x + count_list ks x) = (\<lambda>x. loads x + count_list (k # ks) x)" by (rule ext) simp
  have lim: "\<forall>x. int (pn x + ?loads x + count_list ks x) < 2 ^ 31"
    using Cons.prems(4) fun_cong[OF e] by (simp only: add.assoc) simp
  show ?case using Cons.IH[OF u(1) rf run lim] unfolding e .
qed

lemma complete_load_refs:
  assumes "mgr_inv m" and "refs_ok loads m pn" and "\<forall>k. count_list ks k \<le> loads k"
  shows "\<exists>m'. complete_load ks m = Inr m' \<and> mgr_inv m' \<and> refs_ok (\<lambda>k. loads k - count_list ks k) m' pn"
  unfolding complete_load_def using assms
proof (induction ks arbitrary: m loads)
  case Nil
  then show ?case by simp
next
  case (Cons k ks)
  have pos: "0 < loads k" using Cons.prems(3)[THEN spec, of k] by simp
  then obtain b where b: "status_of m k = Some b" "is_ready b" "cs_ref_cnt b = int (pn k + loads k)" "int (pn k + loads k) < 2 ^ 31"
    using refs_ok_pinned[OF Cons.prems(2), of k] by auto
  let ?m = "upd_status k (decr b) m" and ?loads = "loads(k := loads k - 1)"
  have u: "mgr_inv ?m" "status_of ?m = (status_of m)(k \<mapsto> decr b)"
    using upd_status_inv[OF Cons.prems(1) b(1), of "decr b"] by simp_all
  have cd: "cs_ref_cnt (decr b) = int (pn k + loads k) - 1" using decr_ref[of b] b pos by simp
  have rf: "refs_ok ?loads ?m pn"
    by (rule refs_ok_upd[OF Cons.prems(2) u(2)]) (use cd b(4) pos in \<open>simp_all add: is_ready_def of_nat_diff\<close>)
  have le: "\<forall>x. count_list ks x \<le> ?loads x"
  proof
    fix x
    show "count_list ks x \<le> ?loads x" using Cons.prems(3)[THEN spec, of x] by (cases "x = k") auto
  qed
  obtain m' where "rfold complete_load_one ks ?m = Inr m'" "mgr_inv m'"
    "refs_ok (\<lambda>x. ?loads x - count_list ks x) m' pn" using Cons.IH[OF u(1) rf le] by blast
  moreover have "complete_load_one k m = Inr ?m"
    using b pos by (simp add: complete_load_one_def decr_status_def decr_def)
  moreover have "(\<lambda>x. ?loads x - count_list ks x) = (\<lambda>x. loads x - count_list (k # ks) x)" by (rule ext) simp
  ultimately show ?case by (metis rfold.simps(2) rbind_simps(2))
qed

lemma stored_ok_refs:
  assumes ok: "refs_ok loads m pn" and st: "stored_ok w m out m'"
  shows "refs_ok loads m' pn"
proof (rule refs_okI)
  note s = st[unfolded stored_ok_def]
  have ev: "\<exists>b. status_of m k = Some b \<and> cs_ref_cnt b = 0 \<and> status_of m' k = None" if "k \<in> set (evicted_keys out)" for k
    using s that by blast
  have nw: "status_of m k = None \<and> (\<exists>i. status_of m' k = Some (BlockStatus i))" if "k \<in> set (keys_to_store out)" for k
    using s that by blast
  have same: "status_of m' k = status_of m k" if "k \<notin> set (evicted_keys out)" "k \<notin> set (keys_to_store out)" for k
    using s that by blast
  have zero: "pn k + loads k = 0" if "k \<in> set (evicted_keys out) \<or> k \<in> set (keys_to_store out)" for k
    using that
  proof
    assume "k \<in> set (evicted_keys out)"
    then obtain b where "status_of m k = Some b" "cs_ref_cnt b = 0" using ev by blast
    then show ?thesis using refs_okD(2)[OF ok, of k b] by (simp add: is_ready_def)
  next
    assume "k \<in> set (keys_to_store out)"
    then show ?thesis using nw refs_okD(4)[OF ok] by blast
  qed
  fix k
  show "int (pn k + loads k) < 2 ^ 31" by (rule refs_okD(1)[OF ok])
  show "pn k + loads k = 0" if "status_of m' k = None" using that zero nw same refs_okD(4)[OF ok, of k] by metis
  fix b
  show "pn k + loads k = 0" if "status_of m' k = Some b" "\<not> is_ready b"
    using that zero same refs_okD(3)[OF ok, of k b] by metis
  show "cs_ref_cnt b = int (pn k + loads k)" if "status_of m' k = Some b" "is_ready b"
    using that ev nw same refs_okD(2)[OF ok, of k b] BlockStatus_not_ready(1) by (metis option.distinct(1) option.inject)
qed

lemma complete_store_refs:
  assumes m: "mgr_inv m" and ok: "refs_ok loads m pn" and run: "complete_store ks success m = Inr m'"
  shows "refs_ok loads m' pn"
proof (cases success)
  case True
  let ?m = "snd (store_ok_loop ks m [])"
  have st: "status_of m' = (\<lambda>k. if k \<in> set ks \<and> (\<exists>b. status_of m k = Some b \<and> \<not> is_ready b)
      then map_option (set_ref_cnt 0) (status_of m k) else status_of m k)"
    using store_ok_loop_spec[OF m, of ks "[]"] run True by (auto simp: complete_store_def split: prod.splits)
  show ?thesis
  proof (rule refs_okI)
    fix k
    show "int (pn k + loads k) < 2 ^ 31" by (rule refs_okD(1)[OF ok])
    show "pn k + loads k = 0" if "status_of m' k = None"
      using that refs_okD(4)[OF ok, of k] by (auto simp: st split: if_splits)
    fix b
    show "pn k + loads k = 0" if "status_of m' k = Some b" "\<not> is_ready b"
      using that refs_okD(3)[OF ok, of k] by (auto simp: st split: if_splits)
    show "cs_ref_cnt b = int (pn k + loads k)" if "status_of m' k = Some b" "is_ready b"
      using that refs_okD(2,3)[OF ok, of k] by (force simp: st set_ref_cnt_def c_int32_def split: if_splits)
  qed
next
  case False
  then obtain st: "status_of m' =
      (\<lambda>k. if k \<in> set ks \<and> (\<exists>b. status_of m k = Some b \<and> \<not> is_ready b) then None else status_of m k)"
    using store_fail_all[OF m, of ks] run by (auto simp: complete_store_def)
  show ?thesis
  proof (rule refs_okI)
    fix k
    show "int (pn k + loads k) < 2 ^ 31" by (rule refs_okD(1)[OF ok])
    show "pn k + loads k = 0" if "status_of m' k = None"
      using that refs_okD(3,4)[OF ok, of k] by (auto simp: st split: if_splits)
    fix b
    show "pn k + loads k = 0" if "status_of m' k = Some b" "\<not> is_ready b"
      using that refs_okD(3)[OF ok, of k] by (auto simp: st split: if_splits)
    show "cs_ref_cnt b = int (pn k + loads k)" if "status_of m' k = Some b" "is_ready b"
      using that refs_okD(2)[OF ok, of k] by (auto simp: st split: if_splits)
  qed
qed

section \<open>Runs\<close>

inductive mgr_step :: "nat \<Rightarrow> (offload_key \<Rightarrow> nat) \<Rightarrow> cpu_manager \<Rightarrow> (offload_key \<Rightarrow> nat) \<Rightarrow> cpu_manager \<Rightarrow> bool"
  for n :: nat and L :: "offload_key \<Rightarrow> nat" and m :: cpu_manager where
  lookup: "cpu_lookup k m = Inr (x, m') \<Longrightarrow> mgr_step n L m L m'"
| touch: "mgr_step n L m L (cpu_touch ks m)"
| load: "prepare_load ks m = Inr (spec, m') \<Longrightarrow> \<forall>k. int (n + L k + count_list ks k) < 2 ^ 31
    \<Longrightarrow> mgr_step n L m (\<lambda>k. L k + count_list ks k) m'"
| loaded: "complete_load ks m = Inr m' \<Longrightarrow> \<forall>k. count_list ks k \<le> L k \<Longrightarrow> mgr_step n L m (\<lambda>k. L k - count_list ks k) m'"
| store: "distinct ks \<Longrightarrow> prepare_store ks m = Inr (out, m') \<Longrightarrow> mgr_step n L m L m'"
| stored: "complete_store ks ok m = Inr m' \<Longrightarrow> mgr_step n L m L m'"
| events: "cpu_take_events m = (es, m') \<Longrightarrow> mgr_step n L m L m'"

lemma mgr_step_refs:
  assumes "mgr_step n L m L' m'" and "mgr_inv m" and "refs_ok L m pn" and "\<forall>k. pn k \<le> n"
  shows "mgr_inv m' \<and> refs_ok L' m' pn"
  using assms(1)
proof cases
  case (lookup k x)
  have "mgr_inv m'" "status_of m' = status_of m" using cpu_lookup_spec[OF assms(2) lookup(2)] by simp_all
  then show ?thesis using assms(3) refs_ok_status[of m' m] lookup(1) by simp
next
  case (touch ks)
  have "mgr_inv m'" "status_of m' = status_of m"
    using pol.tch_law[OF mgr_invD(1)[OF assms(2)], of ks] assms(2) touch(2) by (simp_all add: mgr_inv_def cpu_touch_def)
  then show ?thesis using assms(3) refs_ok_status[of m' m] touch(1) by simp
next
  case (load ks spec)
  obtain bl where bl: "load_loop ks m [] = Inr (bl, m')" using load(2) by (auto simp: prepare_load_def rbind_eq_Inr)
  have "\<forall>k. int (pn k + L k + count_list ks k) < 2 ^ 31"
  proof
    fix k show "int (pn k + L k + count_list ks k) < 2 ^ 31"
      using load(3)[THEN spec, of k] assms(4)[THEN spec, of k] by linarith
  qed
  then show ?thesis unfolding load(1) by (rule load_loop_refs[OF assms(2,3) bl])
next
  case (loaded ks)
  obtain m1 where "complete_load ks m = Inr m1" "mgr_inv m1" "refs_ok (\<lambda>k. L k - count_list ks k) m1 pn"
    using complete_load_refs[OF assms(2,3) loaded(3)] by blast
  then show ?thesis unfolding loaded(1) using loaded(2) by simp
next
  case (store ks out)
  obtain out' m1 where p: "prepare_store ks m = Inr (out', m1)" "mgr_inv m1" "case out' of None \<Rightarrow> m1 = m
     | Some o' \<Rightarrow> stored_ok (wanted ks m) m o' m1 \<and> keys_to_store o' = filter (\<lambda>k. status_of m k = None) (wanted ks m)"
    using prepare_store_spec[OF assms(2) store(2)] by blast
  have "refs_ok L m1 pn" using p(3) assms(3) stored_ok_refs[OF assms(3)] by (cases out') auto
  then show ?thesis unfolding store(1) using p(1,2) store(3) by simp
next
  case (stored ks ok)
  have "mgr_inv m'" using complete_store_spec[OF assms(2), of ks ok] stored(2) by auto
  then show ?thesis unfolding stored(1) using complete_store_refs[OF assms(2,3) stored(2)] by simp
next
  case (events es)
  have "mgr_inv m'" "status_of m' = status_of m"
    using assms(2) events(2) by (auto simp: cpu_take_events_def mgr_inv_def split: option.splits)
  then show ?thesis using assms(3) refs_ok_status[of m' m] events(1) by simp
qed

inductive lc_reach :: "(offload_key \<Rightarrow> nat) \<Rightarrow> registry \<Rightarrow> bool" where
  start: "CPUOffloadingManager n name ev th mx = Inr m \<Longrightarrow> 0 \<le> n \<Longrightarrow> n \<le> 2 ^ 63
    \<Longrightarrow> lc_reach (\<lambda>_. 0) (LifecycleRegistry s (Some m) clk)"
| start_none: "lc_reach (\<lambda>_. 0) (LifecycleRegistry s None clk)"
| expire: "lc_reach L r \<Longrightarrow> lc_expire r = Inr r' \<Longrightarrow> lc_reach L r'"
| associate: "lc_reach L r \<Longrightarrow> lc_associate req md r = Inr (res, r') \<Longrightarrow> lc_reach L r'"
| generation: "lc_reach L r \<Longrightarrow> lc_generation_finished i c snap r = Inr r' \<Longrightarrow> lc_reach L r'"
| event: "lc_reach L r \<Longrightarrow> lc_apply ev r = Inr (out, r') \<Longrightarrow> lc_reach L r'"
| estimate: "lc_reach L r \<Longrightarrow> map_of (r_records r) i = Some l \<Longrightarrow> l_started_at l \<noteq> None
    \<Longrightarrow> set_h2d_estimate l sec r = Inr (l', r') \<Longrightarrow> lc_reach L (set_record i l' r')"
| annotate: "lc_reach L r \<Longrightarrow> map_of (r_records r) i = Some l \<Longrightarrow> lc_reach L (set_record i (l\<lparr>l_pending_retention := pr,
    l_pending_evaluation := pe, l_next_evaluation_step := ns, l_backoff_signature := bs, l_last_store_step := ls\<rparr>) r)"
| retain: "lc_reach L r \<Longrightarrow> room L r \<Longrightarrow> r_manager r \<noteq> None \<Longrightarrow> retain_ready i ks r = Inr (kept, r') \<Longrightarrow> lc_reach L r'"
| invalidate: "lc_reach L r \<Longrightarrow> lc_reach L (invalidate_snapshots r)"
| reset: "lc_reach L r \<Longrightarrow> external_reset_succeeded (r\<lparr>r_manager := map_option reset_cache (r_manager r)\<rparr>) = Inr r'
    \<Longrightarrow> lc_reach (\<lambda>_. 0) r'"
| manager: "lc_reach L r \<Longrightarrow> r_manager r = Some m \<Longrightarrow> mgr_step (length (r_records r)) L m L' m'
    \<Longrightarrow> lc_reach L' (r\<lparr>r_manager := Some m'\<rparr>)"

lemma fresh_manager:
  assumes "CPUOffloadingManager n name ev th mx = Inr m"
  shows "status_of m = Map.empty"
  using assms by (auto simp: CPUOffloadingManager_def make_policy_def rbind_eq_Inr LRUCachePolicy_def ARCCachePolicy_def
      lru_get_def arc_get_def fun_eq_iff split: if_splits)

lemma lc_inv_start:
  assumes "CPUOffloadingManager n name ev th mx = Inr m" and "0 \<le> n" "n \<le> 2 ^ 63"
  shows "lc_inv (\<lambda>_. 0) (LifecycleRegistry s (Some m) clk)"
  using make_manager_inv[OF assms] fresh_manager[OF assms(1)]
  by (simp add: lc_inv_def LifecycleRegistry_def all_vals_def refs_ok_def)

lemma lc_inv_manager:
  assumes "lc_inv L r" and "r_manager r = Some m" and "mgr_step (length (r_records r)) L m L' m'"
  shows "lc_inv L' (r\<lparr>r_manager := Some m'\<rparr>)"
  using mgr_step_refs[OF assms(3), of "pins (r_records r)"] assms(1,2) pins_le_length by (auto simp: lc_inv_def)

lemma map_snd_dict:
  "map_of (map (\<lambda>(i, l). (i, f l)) d) i = map_option f (map_of d i)" "map fst (map (\<lambda>(i, l). (i, f l)) d) = map fst d"
  by (induction d) auto

lemma pins_map: "(\<And>l. l_retained (f l) = l_retained l) \<Longrightarrow> pins (map (\<lambda>(i, l). (i, f l)) d) k = pins d k"
  by (induction d) (auto simp: holds_def)

lemma lc_inv_invalidate:
  assumes "lc_inv L r"
  shows "lc_inv L (invalidate_snapshots r)"
proof -
  define f where "f = (\<lambda>l::lifecycle. l\<lparr>l_snapshot := None, l_pending_evaluation := False\<rparr>)"
  define d where "d = map (\<lambda>(i, l). (i, f l)) (r_records r)"
  have f: "rec_ok (f l) = rec_ok l" "l_retained (f l) = l_retained l" for l
    by (auto simp: rec_ok_def owns_preservation_def f_def)
  have v: "all_vals rec_ok d = all_vals rec_ok (r_records r)"
    "all_vals (\<lambda>l. l_retained l = []) d = all_vals (\<lambda>l. l_retained l = []) (r_records r)"
    by (auto simp: all_vals_def d_def f)
  have w: "wf_dict d = wf_dict (r_records r)" unfolding d_def map_snd_dict(2) ..
  have p: "pins d = pins (r_records r)" unfolding d_def by (rule ext, rule pins_map) (rule f(2))
  have e: "invalidate_snapshots r = r\<lparr>r_records := d\<rparr>" by (simp add: invalidate_snapshots_def d_def f_def)
  show ?thesis unfolding e using assms v w p by (cases "r_manager r") (simp_all add: lc_inv_def)
qed

lemma lc_reach_inv: "lc_reach L r \<Longrightarrow> lc_inv L r"
proof (induction rule: lc_reach.induct)
  case (start n name ev th mx m s clk)
  then show ?case by (rule lc_inv_start)
next
  case (start_none s clk)
  then show ?case by (simp add: lc_inv_def LifecycleRegistry_def all_vals_def)
next
  case (expire L r r')
  then show ?case using lc_expire_spec[of L r] by auto
next
  case (associate L r req md res r')
  then show ?case using lc_associate_spec[of L r req md] by auto
next
  case (generation L r i c snap r')
  then show ?case using lc_generation_finished_spec[of L r i c snap] by auto
next
  case (event L r ev out r')
  then show ?case using lc_apply_spec[of L r ev] by auto
next
  case (estimate L r i l sec l' r')
  then show ?case using set_h2d_spec[OF estimate.IH estimate.hyps(2) refl lc_inv_get[OF estimate.IH estimate.hyps(2)], of sec] by auto
next
  case (annotate L r i l ls bs ns pe pr)
  have "rec_ok (l\<lparr>l_pending_retention := pr, l_pending_evaluation := pe, l_next_evaluation_step := ns,
      l_backoff_signature := bs, l_last_store_step := ls\<rparr>)"
    using lc_inv_get[OF annotate.IH annotate.hyps(2)] by (auto simp: rec_ok_def owns_preservation_def)
  then show ?case by (rule set_record_same[OF annotate.IH annotate.hyps(2)]) simp
next
  case (retain L r i ks kept r')
  then show ?case using retain_ready_spec[of L r i ks] by auto
next
  case (invalidate L r)
  then show ?case by (simp add: lc_inv_invalidate)
next
  case (reset L r r')
  then show ?case using external_reset_spec[of L r] by auto
next
  case (manager L r m L' m')
  then show ?case by (blast intro: lc_inv_manager)
qed

section \<open>What expiry does to one record\<close>

fun kept_or_gone :: "real \<Rightarrow> lifecycle \<Rightarrow> lifecycle option \<Rightarrow> bool" where
  "kept_or_gone now l None = (\<exists>t. l_terminal_at l = Some t \<and> now \<ge> t + tombstone_seconds)"
| "kept_or_gone now l (Some l') = (l_start l' = l_start l \<and> l_finish_accepted l' = l_finish_accepted l
     \<and> (l_terminal_at l \<noteq> None \<longrightarrow> l' = l))"

lemma expire_one_record:
  assumes inv: "lc_inv L r" and l: "map_of (r_records r) i = Some l" and run: "expire_one now i r = Inr r'"
  shows "kept_or_gone now l (map_of (r_records r') i)"
proof -
  note ok = lc_inv_get[OF inv l]
  have trm: "kept_or_gone now l (map_of (r_records r') i)"
    if "expire_one now i r = store_back i (terminalize l Expired now r)" "l_terminal_at l = None"
    using terminalize_spec[OF inv l refl that(2) ok, of Expired now] that run
    by (auto simp: store_back_def ended_def dropped_def)
  have rel: "kept_or_gone now l (map_of (r_records r') i)"
    if "expire_one now i r = store_back i (lc_release l r)" "l_terminal_at l = None"
    using lc_release_spec[OF inv l refl] that run by (auto simp: store_back_def dropped_def)
  show ?thesis
  proof (cases "l_terminal_at l")
    case (Some t)
    then show ?thesis using run l by (auto simp: expire_one_def)
  next
    case None
    then have "expire_one now i r = store_back i (terminalize l Expired now r)
      \<or> expire_one now i r = store_back i (lc_release l r) \<or> expire_one now i r = Inr r"
      using l by (simp add: expire_one_def)
    then show ?thesis using trm rel None run l by auto
  qed
qed

lemma expire_loop_record:
  assumes "lc_inv L r" and "distinct is" and "map_of (r_records r) i = Some l" and "rfold (expire_one now) is r = Inr r'"
    and "i \<in> set is"
  shows "kept_or_gone now l (map_of (r_records r') i)"
  using assms
proof (induction "is" arbitrary: r)
  case Nil
  then show ?case by simp
next
  case (Cons j "is")
  obtain r1 where r1: "expire_one now j r = Inr r1" "lc_inv L r1" "same_others j r r1"
    using expire_one_spec[OF Cons.prems(1)] by blast
  have run: "rfold (expire_one now) is r1 = Inr r'" using Cons.prems(4) r1(1) by simp
  show ?case
  proof (cases "j = i")
    case True
    then have "map_of (r_records r') i = map_of (r_records r1) i"
      using expire_loop_spec[OF r1(2), of "is" now] run Cons.prems(2) by auto
    then show ?thesis using expire_one_record[OF Cons.prems(1,3)] r1(1) True by simp
  next
    case False
    then have "map_of (r_records r1) i = Some l" using settled_others[OF r1(3)] Cons.prems(3) by simp
    then show ?thesis using Cons.IH[OF r1(2) _ _ run] Cons.prems(2,5) False by auto
  qed
qed

lemma lc_expire_record:
  assumes inv: "lc_inv L r" and l: "map_of (r_records r) i = Some l" and run: "lc_expire r = Inr r'"
  shows "kept_or_gone (r_clock r (r_ticks r)) l (map_of (r_records r') i)"
proof (rule expire_loop_record)
  show "lc_inv L (r\<lparr>r_ticks := Suc (r_ticks r)\<rparr>)" using inv by simp
  show "distinct (map fst (r_records r))" using inv by (simp add: lc_inv_def)
  show "map_of (r_records (r\<lparr>r_ticks := Suc (r_ticks r)\<rparr>)) i = Some l" using l by simp
  show "rfold (expire_one (r_clock r (r_ticks r))) (map fst (r_records r)) (r\<lparr>r_ticks := Suc (r_ticks r)\<rparr>) = Inr r'"
    using run by (simp add: lc_expire_def read_clock_def)
  show "i \<in> set (map fst (r_records r))" using l by (force dest: map_of_SomeD)
qed

lemma dispatch_applied:
  assumes inv: "lc_inv L r" and l: "map_of (r_records r) i = Some l" and run: "dispatch l ev now r = Inr (Applied, st, l', r')"
  shows "(le_event ev = StallStartedEvent \<longrightarrow> l_start l' = Some ev)
    \<and> (le_event ev \<noteq> StallStartedEvent \<longrightarrow> l_terminal_at l' = Some now \<and> l_finish_accepted l')"
proof (cases "le_event ev = StallStartedEvent")
  case True
  then have c: "l_start l = None" "l_terminal_at l = None" using run by (auto simp: dispatch_def split: if_splits)
  then show ?thesis using start_stall_spec[OF inv l c, of ev now] run True by (auto simp: dispatch_def)
next
  case False
  then have c: "l_terminal_at l = None" "l_start l \<noteq> None" using run by (auto simp: dispatch_def split: if_splits)
  obtain l1 r1 where l1: "learn l now r = Inr (l1, r1)"
    "terminalize (l1\<lparr>l_finish_accepted := True\<rparr>) Finished now r1 = Inr (l', r')"
    using run False c by (auto simp: dispatch_def rbind_eq_Inr)
  have "l_started_at l \<noteq> None" using lc_inv_get[OF inv l] c by (simp add: rec_ok_def)
  then have "l_terminal_at l1 = None" using learn_spec[OF inv c(2), of now] l1(1) c(1)
    by (metis (no_types, lifting) Pair_inject lifecycle.select_convs(17) lifecycle.surjective lifecycle.update_convs(19) sum.inject(2))
  then show ?thesis using l1(2) False
    by (auto simp: terminalize_def lc_release_def rbind_eq_Inr Let_def split: if_splits option.splits)
qed

lemma start_stall_terminal:
  assumes "start_stall l ev now r = Inr (l', r')"
  shows "l_terminal_at l' = l_terminal_at l"
  using assms by (auto simp: start_stall_def set_h2d_estimate_def lc_release_def Let_def rbind_eq_Inr
      split: prod.splits if_splits option.splits)

text \<open>The record after an applied event, and what its retry finds.\<close>

definition applied_record :: "lifecycle_event \<Rightarrow> real \<Rightarrow> lifecycle \<Rightarrow> bool" where
  "applied_record ev now l \<longleftrightarrow> (if le_event ev = StallStartedEvent then l_start l = Some ev \<and> l_terminal_at l = None
     else l_terminal_at l = Some now \<and> l_finish_accepted l)"

lemma apply_applied:
  assumes inv: "lc_inv L r" and run: "lc_apply ev r = Inr (res, r')" and disp: "ler_disposition res = Applied"
  shows "\<exists>l. map_of (r_records r') (le_lifecycle_id ev) = Some l \<and> applied_record ev (r_clock r (Suc (r_ticks r))) l"
proof -
  obtain r1 where r1: "lc_expire r = Inr r1" "lc_inv L r1" "r_clock r1 = r_clock r" "r_ticks r1 = Suc (r_ticks r)"
    using lc_expire_spec[OF inv] by blast
  let ?now = "r_clock r (Suc (r_ticks r))" and ?r1 = "r1\<lparr>r_ticks := Suc (Suc (r_ticks r))\<rparr>"
  obtain l where l: "map_of (r_records r1) (le_lifecycle_id ev) = Some l"
    using run disp r1 by (cases "map_of (r_records r1) (le_lifecycle_id ev)") (auto simp: lc_apply_def Let_def)
  obtain st l' r2 where d: "dispatch l ev ?now ?r1 = Inr (Applied, st, l', r2)" "r' = set_record (le_lifecycle_id ev) l' r2"
    using run disp r1 l by (auto simp: lc_apply_def Let_def read_clock_def rbind_eq_Inr split: if_splits)
  have i: "lc_inv L ?r1" "map_of (r_records ?r1) (le_lifecycle_id ev) = Some l" using r1 l by simp_all
  have "l_terminal_at l' = None" if "le_event ev = StallStartedEvent"
    using d(1) that by (auto simp: dispatch_def rbind_eq_Inr split: if_splits dest: start_stall_terminal)
  then show ?thesis using dispatch_applied[OF i d(1)] d(2) by (simp add: applied_record_def)
qed

lemma apply_retry:
  assumes inv: "lc_inv L r" and l: "map_of (r_records r) (le_lifecycle_id ev) = Some l" and "applied_record ev now l"
    and run: "lc_apply ev r = Inr (res, r')"
  shows "ler_disposition res = Duplicate \<and> ler_status_code res = 200 \<or> le_event ev \<noteq> StallStartedEvent
    \<and> ler_disposition res = Unknown \<and> ler_status_code res = 404 \<and> now + 60 \<le> r_clock r (r_ticks r)"
proof -
  obtain r1 where r1: "lc_expire r = Inr r1" using lc_expire_spec[OF inv] by blast
  note k = lc_expire_record[OF inv l r1]
  show ?thesis
  proof (cases "map_of (r_records r1) (le_lifecycle_id ev)")
    case None
    then show ?thesis using k assms(3) run r1
      by (auto simp: applied_record_def tombstone_seconds_def lc_apply_def Let_def split: if_splits)
  next
    case (Some l1)
    then have "l_start l1 = l_start l" "l_finish_accepted l1 = l_finish_accepted l" "l_terminal_at l \<noteq> None \<longrightarrow> l1 = l"
      using k by auto
    then have "dispatch l1 ev now' r'' = Inr (Duplicate, 200, l1, r'')" for now' r''
      using assms(3) by (auto simp: applied_record_def dispatch_def split: if_splits)
    then show ?thesis using run r1 Some by (auto simp: lc_apply_def Let_def read_clock_def rbind_eq_Inr)
  qed
qed

section \<open>Properties\<close>

definition demo_offload :: offload_config where
  "demo_offload = \<lparr>o_enabled = True, min_gpu_usage = 60/100, high_pressure_gpu_usage = 85/100, score_threshold = 1,
     backoff_steps = 8, eviction_window_blocks = 128, max_relief_blocks = 0, default_stall_s = 1, release_lead_s = 10/100,
     ewma_alpha = 50/100, transfer = \<lparr>d2h_bandwidth_gbps = 12, h2d_bandwidth_gbps = 12, d2h_base_time_s = 0,
       h2d_base_time_s = 0, submission_time_per_run_s = 3/1000000\<rparr>\<rparr>"

definition demo_metadata :: metadata where
  "demo_metadata = \<lparr>lifecycle_id = ''tc-1'', agent_type = ''coder'', agent_name = [], importance = 1, depth = 0,
     in_degree = 0, out_degree = 0, similarity = 0, application_started_at_s = 0, application_start_offset_s = 0,
     application_elapsed_s = 0, application_max_depth = 0, remaining_depth = 0, critical_path = False,
     near_completion = False, join_group = [], dependency_depth = 0, fanout_width = 1, memory_weight = 1,
     offload_eligible = True, reusable_prefix = True, model_fields_set = [''lifecycle_id'']\<rparr>"

definition demo_start :: lifecycle_event where
  "demo_start = \<lparr>le_event = StallStartedEvent, le_lifecycle_id = ''tc-1'', le_kind = ''tool'', le_estimated_duration_s = Some 10\<rparr>"

text \<open>A generation is associated and its stall starts, on a manager that holds a readable block.\<close>

definition demo_registry :: "registry res" where
  "demo_registry =
     rbind (lc_associate ''req'' demo_metadata (LifecycleRegistry demo_offload (Some demo_manager) (\<lambda>_. 0))) (\<lambda>(_, r).
     rbind (lc_apply demo_start (r\<lparr>r_manager := Some demo_ready\<rparr>)) (\<lambda>(_, r). Inr r))"

lemmas lc_eval = lc_associate_def lc_apply_def lc_expire_def read_clock_def LifecycleRegistry_def has_key_def set_record_def
  lc_count_def Lifecycle_def dispatch_def start_stall_def predict_def history_key_def set_h2d_estimate_def past_def
  demo_metadata_def demo_start_def demo_offload_def expire_one_def Let_def

lemma demo_registry_runs: "\<exists>r. demo_registry = Inr r \<and> length (r_records r) = 1 \<and> r_manager r = Some demo_ready
    \<and> (\<exists>l. map_of (r_records r) ''tc-1'' = Some l \<and> owns_preservation l)"
  by (simp add: demo_registry_def lc_eval owns_preservation_def)

lemma demo_ready_steps:
  "\<exists>m. mgr_step n (\<lambda>_. 0) demo_manager (\<lambda>_. 0) m \<and> mgr_step n (\<lambda>_. 0) m (\<lambda>_. 0) demo_ready"
proof -
  obtain out m where m: "prepare_store [[1]] demo_manager = Inr (out, m)" "complete_store [[1]] True m = Inr demo_ready"
    using demo_ready_run by (auto simp: rbind_eq_Inr)
  have "mgr_step n (\<lambda>_. 0) demo_manager (\<lambda>_. 0) m" by (rule mgr_step.store[OF _ m(1)]) simp
  moreover have "mgr_step n (\<lambda>_. 0) m (\<lambda>_. 0) demo_ready" by (rule mgr_step.stored[OF m(2)])
  ultimately show ?thesis by (intro exI conjI)
qed

lemma demo_assoc: "\<exists>res r1. lc_associate ''req'' demo_metadata (LifecycleRegistry demo_offload (Some demo_manager) (\<lambda>_. 0)) = Inr (res, r1)
    \<and> r_manager r1 = Some demo_manager"
  by (simp add: lc_eval)

lemma demo_registry_reach:
  assumes "demo_registry = Inr r"
  shows "lc_reach (\<lambda>_. 0) r"
proof -
  obtain res r1 out where s: "lc_associate ''req'' demo_metadata (LifecycleRegistry demo_offload (Some demo_manager) (\<lambda>_. 0)) = Inr (res, r1)"
    "lc_apply demo_start (r1\<lparr>r_manager := Some demo_ready\<rparr>) = Inr (out, r)"
    using assms unfolding demo_registry_def rbind_eq_Inr by (elim exE conjE) (simp split: prod.splits add: rbind_eq_Inr, blast)
  have mg: "r_manager r1 = Some demo_manager" using s(1) demo_assoc by auto
  have "lc_reach (\<lambda>_. 0) (LifecycleRegistry demo_offload (Some demo_manager) (\<lambda>_. 0))"
    by (rule lc_reach.start[OF demo_manager_make]) simp_all
  then have r1: "lc_reach (\<lambda>_. 0) r1" using s(1) by (rule lc_reach.associate)
  obtain m where st: "mgr_step (length (r_records r1)) (\<lambda>_. 0) demo_manager (\<lambda>_. 0) m"
    "mgr_step (length (r_records r1)) (\<lambda>_. 0) m (\<lambda>_. 0) demo_ready" using demo_ready_steps[of "length (r_records r1)"] by (elim exE conjE)
  have r2: "lc_reach (\<lambda>_. 0) (r1\<lparr>r_manager := Some m\<rparr>)" by (rule lc_reach.manager[OF r1 mg st(1)])
  have "lc_reach (\<lambda>_. 0) ((r1\<lparr>r_manager := Some m\<rparr>)\<lparr>r_manager := Some demo_ready\<rparr>)"
    by (rule lc_reach.manager[OF r2]) (use st(2) in simp_all)
  then have "lc_reach (\<lambda>_. 0) (r1\<lparr>r_manager := Some demo_ready\<rparr>)" by simp
  then show ?thesis using s(2) by (rule lc_reach.event)
qed



text \<open>
  \<^bold>\<open>C26\<close> A block that some lifecycle retains is resident and readable in the CPU tier, its reference count
  is exactly the number of lifecycles retaining it plus the loads in flight, and only a lifecycle
  that is stalled, not ended and not released retains anything.
\<close>

theorem retained_blocks_backed:
  assumes "lc_reach L r" and "map_of (r_records r) i = Some l" and "k \<in> set (l_retained l)"
  shows "owns_preservation l \<and> (\<exists>m b. r_manager r = Some m \<and> status_of m k = Some b \<and> is_ready b
    \<and> cs_ref_cnt b = int (pins (r_records r) k + L k) \<and> 0 < pins (r_records r) k)"
proof -
  note inv = lc_reach_inv[OF assms(1)]
  have ne: "l_retained l \<noteq> []" using assms(3) by auto
  have own: "owns_preservation l" using lc_inv_get[OF inv assms(2)] ne by (simp add: rec_ok_def)
  obtain m where m: "r_manager r = Some m"
    using inv ne all_vals_get[OF _ assms(2)] by (cases "r_manager r") (auto simp: lc_inv_def)
  have ref: "refs_ok L m (pins (r_records r))" using inv m by (simp add: lc_inv_def)
  have pos: "0 < pins (r_records r) k" by (rule pins_pos[OF assms(2,3)])
  then show ?thesis using own m refs_ok_pinned[OF ref, of k] by auto
qed

lemma demo_retained:
  "\<exists>r r' l. demo_registry = Inr r \<and> retain_ready ''tc-1'' [[1]] r = Inr ([[1]], r') \<and> room (\<lambda>_. 0) r \<and> r_manager r \<noteq> None
     \<and> map_of (r_records r') ''tc-1'' = Some l \<and> l_retained l = [[1]]
     \<and> (\<exists>r2. lc_expire r' = Inr r2 \<and> map_of (r_records r2) ''tc-1'' = Some l)"
  by (simp add: demo_registry_def lc_eval retain_ready_def owns_preservation_def demo_ready_def mgr_eval room_def
)

theorem retained_blocks_backed_witness:
  "\<exists>r r' l. demo_registry = Inr r \<and> retain_ready ''tc-1'' [[1]] r = Inr ([[1]], r')
     \<and> map_of (r_records r') ''tc-1'' = Some l \<and> owns_preservation l"
proof -
  obtain r r' l where r: "demo_registry = Inr r" "retain_ready ''tc-1'' [[1]] r = Inr ([[1]], r')" "room (\<lambda>_. 0) r"
    "r_manager r \<noteq> None" "map_of (r_records r') ''tc-1'' = Some l" "l_retained l = [[1]]" using demo_retained by blast
  have "lc_reach (\<lambda>_. 0) r'" by (rule lc_reach.retain[OF demo_registry_reach[OF r(1)] r(3,4,2)])
  from retained_blocks_backed[OF this r(5), of "[1]"] r show ?thesis by auto
qed

text \<open>
  \<^bold>\<open>C27\<close> Ownership is bounded in time: once expiry has run at some clock reading, every lifecycle that
  still retains blocks was started less than an hour before that reading, and neither its safety
  deadline nor its release deadline has been reached.
\<close>

theorem ownership_bounded:
  assumes "lc_reach L r" and "lc_expire r = Inr r'" and "map_of (r_records r') i = Some l" and "l_retained l \<noteq> []"
  shows "\<exists>t. l_started_at l = Some t \<and> r_clock r (r_ticks r) < t + 3600
    \<and> \<not> past (r_clock r (r_ticks r)) (l_safety_deadline l) \<and> \<not> past (r_clock r (r_ticks r)) (l_release_deadline l)"
proof -
  let ?now = "r_clock r (r_ticks r)"
  have inv: "lc_inv L r'" "all_vals (settled ?now) (r_records r')"
    using lc_expire_spec[OF lc_reach_inv[OF assms(1)]] assms(2) by auto
  note ok = lc_inv_get[OF inv(1) assms(3)]
  have own: "owns_preservation l" using ok assms(4) by (simp add: rec_ok_def)
  have st: "\<not> past ?now (l_safety_deadline l)" "\<not> past ?now (l_release_deadline l)"
    using all_vals_get[OF inv(2) assms(3)] own by (simp_all add: settled_def)
  obtain t d where t: "l_started_at l = Some t" "l_safety_deadline l = Some d" "d \<le> t + 3600"
    using ok own by (fastforce simp: rec_ok_def owns_preservation_def)
  have "?now < d" using st(1) t(2) by (simp add: past_def)
  then show ?thesis using t st by auto
qed

theorem ownership_bounded_witness:
  "\<exists>r r1 r' l t. demo_registry = Inr r \<and> retain_ready ''tc-1'' [[1]] r = Inr ([[1]], r1) \<and> lc_expire r1 = Inr r'
     \<and> map_of (r_records r') ''tc-1'' = Some l \<and> l_retained l = [[1]] \<and> l_started_at l = Some t
     \<and> r_clock r1 (r_ticks r1) < t + 3600"
proof -
  obtain r r1 r' l where r: "demo_registry = Inr r" "retain_ready ''tc-1'' [[1]] r = Inr ([[1]], r1)" "room (\<lambda>_. 0) r"
    "r_manager r \<noteq> None" "lc_expire r1 = Inr r'" "map_of (r_records r') ''tc-1'' = Some l" "l_retained l = [[1]]"
    using demo_retained by blast
  have "lc_reach (\<lambda>_. 0) r1" by (rule lc_reach.retain[OF demo_registry_reach[OF r(1)] r(3,4,2)])
  from ownership_bounded[OF this r(5,6)] r show ?thesis by auto
qed


definition demo_associated :: registry where
  "demo_associated = snd (projr (lc_associate ''req'' demo_metadata (LifecycleRegistry demo_offload (Some demo_manager) (\<lambda>_. 0))))"


end
