(* ===== verification/Kv_Single.thy ===== *)
theory Kv_Single
  imports Block_Pool
begin

text \<open>
  The managers of one attention type, \<^verbatim>\<open>vllm/v1/core/single_type_kv_cache_manager.py\<close>: which blocks each
  request holds, how many blocks a request still needs, the prefix-cache lookup of full attention,
  sliding-window attention and chunked local attention, and the blocks that leave the window. The
  block pool is shared by all managers, so every operation takes and returns it. Mamba,
  cross-attention and attention sinks are not modelled.
\<close>

section \<open>Specifications\<close>

definition floordiv :: "int \<Rightarrow> int \<Rightarrow> int res" where
  "floordiv a b = (if b = 0 then Inl ZeroDivisionError else Inr (a div b))"

definition cdiv :: "int \<Rightarrow> int \<Rightarrow> int res" where
  "cdiv a b = rbind (floordiv a (- b)) (\<lambda>q. Inr (- q))"

datatype spec_kind =
    FullAttentionSpec
  | TQFullAttentionSpec
  | MLAAttentionSpec
  | HiddenStateCacheSpec
  | SlidingWindowSpec int
  | SlidingWindowMLASpec int
  | ChunkedLocalAttentionSpec int

record kv_cache_spec =
  spec_kind :: spec_kind
  spec_block_size :: int

fun is_full_attention :: "spec_kind \<Rightarrow> bool" where
  "is_full_attention FullAttentionSpec = True"
| "is_full_attention TQFullAttentionSpec = True"
| "is_full_attention MLAAttentionSpec = True"
| "is_full_attention HiddenStateCacheSpec = True"
| "is_full_attention _ = False"

fun get_kv_cache_spec_kind :: "spec_kind \<Rightarrow> string" where
  "get_kv_cache_spec_kind (SlidingWindowMLASpec _) = ''sliding_window_mla''"
| "get_kv_cache_spec_kind MLAAttentionSpec = ''mla_attention''"
| "get_kv_cache_spec_kind HiddenStateCacheSpec = ''mla_attention''"
| "get_kv_cache_spec_kind FullAttentionSpec = ''full_attention''"
| "get_kv_cache_spec_kind TQFullAttentionSpec = ''full_attention''"
| "get_kv_cache_spec_kind (ChunkedLocalAttentionSpec _) = ''chunked_local_attention''"
| "get_kv_cache_spec_kind (SlidingWindowSpec _) = ''sliding_window''"

fun get_kv_cache_spec_sliding_window :: "spec_kind \<Rightarrow> int option" where
  "get_kv_cache_spec_sliding_window (SlidingWindowSpec w) = Some w"
| "get_kv_cache_spec_sliding_window (SlidingWindowMLASpec w) = Some w"
| "get_kv_cache_spec_sliding_window _ = None"

definition sliding_admission_blocks :: "int \<Rightarrow> int \<Rightarrow> int \<Rightarrow> int \<Rightarrow> int res" where
  "sliding_admission_blocks window bsz max_num_batched_tokens max_model_len =
     rbind (cdiv (min (window - 1 + max_num_batched_tokens) max_model_len) bsz) (\<lambda>n. Inr (n + 1))"

definition chunked_admission_blocks :: "int \<Rightarrow> int \<Rightarrow> int \<Rightarrow> int \<Rightarrow> int res" where
  "chunked_admission_blocks chunk bsz max_num_batched_tokens max_model_len =
     cdiv (min (chunk + max_num_batched_tokens) max_model_len) bsz"

section \<open>The manager\<close>

record single_manager =
  sm_spec :: kv_cache_spec
  sm_block_size :: int
  sm_max_admission :: "int option"
  new_block_ids :: "int list"
  req_to_blocks :: "(string, ref list) dict"
  num_cached_block :: "(string, nat) dict"
  kv_cache_group_id :: int

definition SingleTypeKVCacheManager :: "kv_cache_spec \<Rightarrow> int \<Rightarrow> int \<Rightarrow> int \<Rightarrow> int option \<Rightarrow> single_manager" where
  "SingleTypeKVCacheManager spec g dcp pcp cap =
     \<lparr>sm_spec = spec,
      sm_block_size = (if dcp * pcp > 1 then spec_block_size spec * (dcp * pcp) else spec_block_size spec),
      sm_max_admission = cap, new_block_ids = [], req_to_blocks = [], num_cached_block = [],
      kv_cache_group_id = g\<rparr>"

definition get_manager_for_kv_cache_spec ::
  "kv_cache_spec \<Rightarrow> int \<Rightarrow> int \<Rightarrow> int \<Rightarrow> int \<Rightarrow> int \<Rightarrow> single_manager res" where
  "get_manager_for_kv_cache_spec spec max_num_batched_tokens max_model_len g dcp pcp =
     rbind (case spec_kind spec of
              SlidingWindowSpec w \<Rightarrow>
                rbind (sliding_admission_blocks w (spec_block_size spec) max_num_batched_tokens max_model_len) (\<lambda>n. Inr (Some n))
            | SlidingWindowMLASpec w \<Rightarrow>
                rbind (sliding_admission_blocks w (spec_block_size spec) max_num_batched_tokens max_model_len) (\<lambda>n. Inr (Some n))
            | ChunkedLocalAttentionSpec c \<Rightarrow>
                rbind (chunked_admission_blocks c (spec_block_size spec) max_num_batched_tokens max_model_len) (\<lambda>n. Inr (Some n))
            | _ \<Rightarrow> Inr None) (\<lambda>cap.
       Inr (SingleTypeKVCacheManager spec g dcp pcp cap))"

text \<open>Reading a missing key of \<^verbatim>\<open>req_to_blocks\<close>, a \<^verbatim>\<open>defaultdict\<close>, with \<^verbatim>\<open>[]\<close> inserts an empty list.\<close>

definition blocks_of :: "string \<Rightarrow> single_manager \<Rightarrow> ref list" where
  "blocks_of i m = dict_get (req_to_blocks m) i []"

definition set_blocks :: "string \<Rightarrow> ref list \<Rightarrow> single_manager \<Rightarrow> single_manager" where
  "set_blocks i rs m = m\<lparr>req_to_blocks := dict_set i rs (req_to_blocks m)\<rparr>"

definition get_num_evictable_blocks :: "ref list \<Rightarrow> 'z free_queue_scheme \<Rightarrow> nat" where
  "get_num_evictable_blocks rs p = length (filter (\<lambda>r. ref_cnt (store p r) = 0 \<and> \<not> is_null (store p r)) rs)"

definition sliding_num_skipped_tokens :: "int \<Rightarrow> int \<Rightarrow> int" where
  "sliding_num_skipped_tokens window n = max 0 (n - window + 1)"

definition chunked_num_skipped_tokens :: "int \<Rightarrow> int \<Rightarrow> int res" where
  "chunked_num_skipped_tokens chunk n = rbind (floordiv n chunk) (\<lambda>q. Inr (q * chunk))"

fun get_num_skipped_tokens :: "spec_kind \<Rightarrow> int \<Rightarrow> int res" where
  "get_num_skipped_tokens (SlidingWindowSpec w) n = Inr (sliding_num_skipped_tokens w n)"
| "get_num_skipped_tokens (SlidingWindowMLASpec w) n = Inr (sliding_num_skipped_tokens w n)"
| "get_num_skipped_tokens (ChunkedLocalAttentionSpec c) n = chunked_num_skipped_tokens c n"
| "get_num_skipped_tokens _ n = Inr 0"

definition sm_get_num_blocks_to_allocate ::
  "string \<Rightarrow> int \<Rightarrow> ref list \<Rightarrow> int \<Rightarrow> bool \<Rightarrow> single_manager \<Rightarrow> 'z free_queue_scheme \<Rightarrow> int res" where
  "sm_get_num_blocks_to_allocate i tokens new_computed total_computed apply_cap m p =
     rbind (cdiv tokens (sm_block_size m)) (\<lambda>req.
       let req = (case sm_max_admission m of Some cap \<Rightarrow> if apply_cap then min req cap else req | None \<Rightarrow> req);
           held = int (length (blocks_of i m))
       in if has_key (num_cached_block m) i
          then rbind (py_assert (new_computed = [])) (\<lambda>_. Inr (max (req - held) 0))
          else rbind (get_num_skipped_tokens (spec_kind (sm_spec m)) total_computed) (\<lambda>skipped.
            let local_computed = int (length new_computed) + held;
                skipped_blocks = skipped div sm_block_size m;
                num_new = max (req - max skipped_blocks local_computed) 0;
                skipped_new = max 0 (skipped_blocks - held)
            in Inr (num_new + int (get_num_evictable_blocks (drop (nat skipped_new) new_computed) p))))"

text \<open>
  \<^verbatim>\<open>get_new_blocks\<close> at an \<^verbatim>\<open>int\<close>: a negative count pops nothing and is still subtracted from the number
  of free blocks.
\<close>

definition get_new_blocks_int :: "int \<Rightarrow> 'z block_pool_scheme \<Rightarrow> (ref list \<times> 'z block_pool_scheme) res" where
  "get_new_blocks_int n p =
     (if n > get_num_free_blocks p then Inl (ValueError ''Cannot get free blocks from the pool'')
      else if n < 0 then Inr ([], p\<lparr>num_free_blocks := num_free_blocks p - n\<rparr>)
      else get_new_blocks (nat n) p)"

definition note_new_blocks :: "ref list \<Rightarrow> block_store \<Rightarrow> single_manager \<Rightarrow> single_manager" where
  "note_new_blocks rs st m =
     (if spec_kind (sm_spec m) = FullAttentionSpec \<or> spec_kind (sm_spec m) = TQFullAttentionSpec
      then m\<lparr>new_block_ids := new_block_ids m @ map (\<lambda>r. block_id (st r)) rs\<rparr> else m)"

definition sm_allocate_new_computed_blocks ::
  "string \<Rightarrow> ref list \<Rightarrow> int \<Rightarrow> int \<Rightarrow> single_manager \<Rightarrow> 'z block_pool_scheme \<Rightarrow> (single_manager \<times> 'z block_pool_scheme) res" where
  "sm_allocate_new_computed_blocks i new_computed num_local num_external m p =
     (if has_key (num_cached_block m) i then rbind (py_assert (new_computed = [])) (\<lambda>_. Inr (m, p))
      else rbind (py_assert (blocks_of i m = [])) (\<lambda>_.
           let total = num_local + num_external
           in rbind (get_num_skipped_tokens (spec_kind (sm_spec m)) total) (\<lambda>skipped.
              rbind (floordiv skipped (sm_block_size m)) (\<lambda>skipped_blocks.
              let new_computed = (if skipped_blocks > 0 then drop (nat skipped_blocks) new_computed else new_computed);
                  num_external = (if skipped_blocks > 0 then min (total - skipped) num_external else num_external)
              in rbind (if enable_caching p then touch new_computed p
                        else rbind (py_assert (new_computed = [])) (\<lambda>_. Inr p)) (\<lambda>p.
                 let blocks = replicate (nat skipped_blocks) (null_block p) @ new_computed;
                     m = (set_blocks i blocks m)\<lparr>num_cached_block := dict_set i (length blocks) (num_cached_block m)\<rparr>
                 in if num_external > 0
                    then rbind (cdiv total (sm_block_size m)) (\<lambda>n.
                         rbind (get_new_blocks_int (n - int (length blocks)) p) (\<lambda>(new, p).
                           Inr (note_new_blocks new (store p) (set_blocks i (blocks @ new) m), p)))
                    else Inr (m, p))))))"

definition sm_allocate_new_blocks ::
  "string \<Rightarrow> int \<Rightarrow> single_manager \<Rightarrow> 'z block_pool_scheme \<Rightarrow> (ref list \<times> single_manager \<times> 'z block_pool_scheme) res" where
  "sm_allocate_new_blocks i tokens m p =
     (let blocks = blocks_of i m; m = set_blocks i blocks m
      in rbind (cdiv tokens (sm_block_size m)) (\<lambda>req.
           let n = req - int (length blocks)
           in if n \<le> 0 then Inr ([], m, p)
              else rbind (get_new_blocks (nat n) p) (\<lambda>(new, p).
                   Inr (new, note_new_blocks new (store p) (set_blocks i (blocks @ new) m), p))))"

definition sm_take_new_block_ids :: "single_manager \<Rightarrow> int list \<times> single_manager" where
  "sm_take_new_block_ids m = (new_block_ids m, m\<lparr>new_block_ids := []\<rparr>)"

text \<open>The unitary coordinator passes no alignment, so every full block is cached.\<close>

definition sm_cache_blocks ::
  "(bytes list \<Rightarrow> bytes) \<Rightarrow> 'r request_scheme \<Rightarrow> int \<Rightarrow> single_manager \<Rightarrow> 'z block_pool_scheme
     \<Rightarrow> (single_manager \<times> 'z block_pool_scheme) res" where
  "sm_cache_blocks sha r n m p =
     rbind (floordiv n (sm_block_size m)) (\<lambda>num_full.
       let i = request_id r; num_cached = dict_get (num_cached_block m) i 0
       in if int num_cached \<ge> num_full then Inr (m, p)
          else let blocks = blocks_of i m
               in rbind (cache_full_blocks sha r blocks num_cached (nat num_full) (sm_block_size m) (kv_cache_group_id m) None p) (\<lambda>p.
                    Inr ((set_blocks i blocks m)\<lparr>num_cached_block := dict_set i (nat num_full) (num_cached_block m)\<rparr>, p)))"

definition sm_free :: "string \<Rightarrow> single_manager \<Rightarrow> 'z block_pool_scheme \<Rightarrow> (single_manager \<times> 'z block_pool_scheme) res" where
  "sm_free i m p =
     rbind (free_blocks (rev (blocks_of i m)) p) (\<lambda>p.
       Inr (m\<lparr>req_to_blocks := dict_del i (req_to_blocks m), num_cached_block := dict_del i (num_cached_block m)\<rparr>, p))"

text \<open>The blocks of indices below \<open>n\<close>, from the last one down to the first null block, become null.\<close>

fun drop_skipped :: "ref \<Rightarrow> nat \<Rightarrow> ref list \<Rightarrow> ref list \<Rightarrow> ref list \<times> ref list" where
  "drop_skipped null 0 blocks removed = (blocks, removed)"
| "drop_skipped null (Suc i) blocks removed =
     (if blocks ! i = null then (blocks, removed)
      else drop_skipped null i (blocks[i := null]) (removed @ [blocks ! i]))"

definition sm_remove_skipped_blocks ::
  "string \<Rightarrow> int \<Rightarrow> single_manager \<Rightarrow> 'z block_pool_scheme \<Rightarrow> (single_manager \<times> 'z block_pool_scheme) res" where
  "sm_remove_skipped_blocks i computed m p =
     rbind (get_num_skipped_tokens (spec_kind (sm_spec m)) computed) (\<lambda>skipped.
       if skipped \<le> 0 then Inr (m, p)
       else let blocks = blocks_of i m
            in rbind (floordiv skipped (sm_block_size m)) (\<lambda>n.
                 let n = min n (int (length blocks));
                     (blocks, removed) = drop_skipped (null_block p) (nat n) blocks []
                 in rbind (free_blocks removed p) (\<lambda>p. Inr (set_blocks i blocks m, p))))"

definition sm_get_num_common_prefix_blocks :: "string \<Rightarrow> single_manager \<Rightarrow> 'z free_queue_scheme \<Rightarrow> nat \<times> single_manager" where
  "sm_get_num_common_prefix_blocks i m p =
     (if is_full_attention (spec_kind (sm_spec m))
      then let m = set_blocks i (blocks_of i m) m
           in (length (takeWhile (\<lambda>r. ref_cnt (store p r) = int (length (req_to_blocks m))) (blocks_of i m)), m)
      else (0, m))"

section \<open>Prefix-cache lookup\<close>

text \<open>
  A lookup gives one block per group for each position; the code keeps one list of positions per
  group. The trailing positions are dropped until the length is a multiple of the alignment.
\<close>

definition columns :: "nat \<Rightarrow> ref list list \<Rightarrow> ref list list" where
  "columns n hits = map (\<lambda>g. map (\<lambda>h. h ! g) hits) [0..<n]"

lemma not_aligned_nonempty: "int (length xs) * b mod a \<noteq> 0 \<Longrightarrow> length xs - Suc 0 < length xs"
  by (cases xs) simp_all

function trim_aligned :: "int \<Rightarrow> int \<Rightarrow> 'a list \<Rightarrow> 'a list res" where
  "trim_aligned bsz alignment hits =
     (if bsz = alignment then Inr hits
      else if alignment = 0 then Inl ZeroDivisionError
      else if int (length hits) * bsz mod alignment = 0 then Inr hits
      else trim_aligned bsz alignment (butlast hits))"
  by pat_completeness auto
termination
  by (relation "measure (\<lambda>(_, _, hits). length hits)") (auto dest: not_aligned_nonempty)

declare trim_aligned.simps [simp del]

text \<open>The hits of a chain of hashes, up to the first miss.\<close>

fun chain_hits :: "bytes list \<Rightarrow> int list \<Rightarrow> 'z block_pool_scheme \<Rightarrow> ref list list res" where
  "chain_hits [] gs p = Inr []"
| "chain_hits (h # hs) gs p =
     rbind (get_cached_block h gs p) (\<lambda>found.
       case found of
         Some (b # bs) \<Rightarrow> rbind (chain_hits hs gs p) (\<lambda>rest. Inr ((b # bs) # rest))
       | _ \<Rightarrow> Inr [])"

definition full_find_longest_cache_hit ::
  "bytes list \<Rightarrow> int \<Rightarrow> int list \<Rightarrow> int \<Rightarrow> bool \<Rightarrow> int \<Rightarrow> int \<Rightarrow> int \<Rightarrow> 'z block_pool_scheme \<Rightarrow> ref list list res" where
  "full_find_longest_cache_hit hs max_length gs bsz use_eagle alignment dcp pcp p =
     (let bsz = (if dcp * pcp > 1 then bsz * (dcp * pcp) else bsz)
      in rbind (floordiv max_length bsz) (\<lambda>n.
         rbind (if n < 0 then Inl (ValueError ''islice'') else Inr ()) (\<lambda>_.
         rbind (chain_hits (take (nat n) hs) gs p) (\<lambda>hits.
         rbind (if (use_eagle \<or> bsz \<noteq> alignment) \<and> gs = [] then Inl IndexError else Inr ()) (\<lambda>_.
         rbind (trim_aligned bsz alignment (if use_eagle then butlast hits else hits)) (\<lambda>hits.
           Inr (columns (length gs) hits)))))))"

text \<open>
  The search from the right: the run of contiguous hits that starts at the current position, and
  whether it is long enough for the window. Only a run that starts here survives the trimming.
\<close>

fun sliding_scan ::
  "bytes list \<Rightarrow> int list \<Rightarrow> int \<Rightarrow> int \<Rightarrow> bool \<Rightarrow> int \<Rightarrow> 'z block_pool_scheme \<Rightarrow> nat \<Rightarrow> ref list list
     \<Rightarrow> (bool \<times> nat \<times> ref list list) res"
where
  "sliding_scan hs gs bsz alignment use_eagle contiguous p 0 run = Inr (False, 0, run)"
| "sliding_scan hs gs bsz alignment use_eagle contiguous p (Suc i) run =
     (if i \<ge> length hs then Inl IndexError
      else rbind (get_cached_block (hs ! i) gs p) (\<lambda>found.
        case found of
          Some (b # bs) \<Rightarrow>
            rbind (if run = [] \<and> bsz \<noteq> alignment
                   then if alignment = 0 then Inl ZeroDivisionError
                        else Inr ((if use_eagle then int i else int i + 1) * bsz mod alignment \<noteq> 0)
                   else Inr False) (\<lambda>unaligned.
              if unaligned then sliding_scan hs gs bsz alignment use_eagle contiguous p i run
              else let run = (b # bs) # run
                   in if int (length run) \<ge> contiguous then Inr (True, i, run)
                      else sliding_scan hs gs bsz alignment use_eagle contiguous p i run)
        | _ \<Rightarrow> sliding_scan hs gs bsz alignment use_eagle contiguous p i []))"

definition sliding_find_longest_cache_hit ::
  "bytes list \<Rightarrow> int \<Rightarrow> int list \<Rightarrow> int \<Rightarrow> int \<Rightarrow> bool \<Rightarrow> int \<Rightarrow> int \<Rightarrow> int \<Rightarrow> 'z block_pool_scheme \<Rightarrow> ref list list res" where
  "sliding_find_longest_cache_hit hs max_length gs window bsz use_eagle alignment dcp pcp p =
     rbind (py_assert (dcp = 1)) (\<lambda>_. rbind (py_assert (pcp = 1)) (\<lambda>_.
     rbind (cdiv (window - 1) bsz) (\<lambda>contiguous.
     let contiguous = (if use_eagle then contiguous + 1 else contiguous)
     in rbind (floordiv max_length bsz) (\<lambda>n.
        rbind (sliding_scan hs gs bsz alignment use_eagle contiguous p (nat n) []) (\<lambda>(found, i, run).
        rbind (if gs = [] \<and> (\<not> found \<and> bsz \<noteq> alignment \<or> use_eagle) then Inl IndexError else Inr ()) (\<lambda>_.
        rbind (if found then Inr (replicate i (replicate (length gs) (null_block p)) @ run)
               else trim_aligned bsz alignment run) (\<lambda>hits.
        rbind (if use_eagle \<and> hits \<noteq> [] then trim_aligned bsz alignment (butlast hits) else Inr hits) (\<lambda>hits.
          Inr (columns (length gs) hits)))))))))"

text \<open>The loop over the positions inside the chunk.\<close>

fun chunk_hits :: "bytes list \<Rightarrow> int list \<Rightarrow> 'z block_pool_scheme \<Rightarrow> nat list \<Rightarrow> ref list list res" where
  "chunk_hits hs gs p [] = Inr []"
| "chunk_hits hs gs p (i # is) =
     (if i \<ge> length hs then Inl IndexError
      else rbind (get_cached_block (hs ! i) gs p) (\<lambda>found.
        case found of
          Some (b # bs) \<Rightarrow> rbind (chunk_hits hs gs p is) (\<lambda>rest. Inr ((b # bs) # rest))
        | _ \<Rightarrow> Inr []))"

definition chunked_find_longest_cache_hit ::
  "bytes list \<Rightarrow> int \<Rightarrow> int list \<Rightarrow> int \<Rightarrow> int \<Rightarrow> bool \<Rightarrow> int \<Rightarrow> int \<Rightarrow> int \<Rightarrow> 'z block_pool_scheme \<Rightarrow> ref list list res" where
  "chunked_find_longest_cache_hit hs max_length gs chunk bsz use_eagle alignment dcp pcp p =
     rbind (py_assert (\<not> use_eagle)) (\<lambda>_. rbind (py_assert (dcp = 1)) (\<lambda>_. rbind (py_assert (pcp = 1)) (\<lambda>_.
     rbind (py_assert (bsz = alignment)) (\<lambda>_.
     rbind (floordiv max_length bsz) (\<lambda>n.
     rbind (if max_length > 0 then rbind (floordiv max_length chunk) (\<lambda>q. Inr (q * chunk)) else Inr 0) (\<lambda>start.
       let first = nat (start div bsz)
       in rbind (chunk_hits hs gs p [first..<nat n]) (\<lambda>hits.
            Inr (columns (length gs) (replicate first (replicate (length gs) (null_block p)) @ hits)))))))))"

fun sm_find_longest_cache_hit ::
  "spec_kind \<Rightarrow> bytes list \<Rightarrow> int \<Rightarrow> int list \<Rightarrow> int \<Rightarrow> bool \<Rightarrow> int \<Rightarrow> int \<Rightarrow> int \<Rightarrow> 'z block_pool_scheme \<Rightarrow> ref list list res" where
  "sm_find_longest_cache_hit (SlidingWindowSpec w) hs max_length gs bsz eagle alignment dcp pcp p =
     sliding_find_longest_cache_hit hs max_length gs w bsz eagle alignment dcp pcp p"
| "sm_find_longest_cache_hit (SlidingWindowMLASpec w) hs max_length gs bsz eagle alignment dcp pcp p =
     sliding_find_longest_cache_hit hs max_length gs w bsz eagle alignment dcp pcp p"
| "sm_find_longest_cache_hit (ChunkedLocalAttentionSpec c) hs max_length gs bsz eagle alignment dcp pcp p =
     chunked_find_longest_cache_hit hs max_length gs c bsz eagle alignment dcp pcp p"
| "sm_find_longest_cache_hit _ hs max_length gs bsz eagle alignment dcp pcp p =
     full_find_longest_cache_hit hs max_length gs bsz eagle alignment dcp pcp p"

end
