(* ===== verification/Kv_Manager.thy ===== *)
theory Kv_Manager
  imports Kv_Single
begin

text \<open>
  The coordinator and the KV cache manager, \<^verbatim>\<open>vllm/v1/core/kv_cache_coordinator.py\<close> and
  \<^verbatim>\<open>vllm/v1/core/kv_cache_manager.py\<close>, for the coordinators without prefix caching and with one KV cache
  group. The state extends the block pool that the managers share. The arguments
  \<^verbatim>\<open>num_encoder_tokens\<close> and \<^verbatim>\<open>num_tokens_main_model\<close> are only read by the managers of cross-attention
  and Mamba, which are not modelled, and are left out.
\<close>

section \<open>Blocks of a request\<close>

text \<open>\<^verbatim>\<open>NoBlocks\<close> is the manager's precomputed empty object, which \<^verbatim>\<open>allocate_slots\<close> compares by identity.\<close>

datatype kv_blocks = NoBlocks | Blocks "ref list list"

fun kv_blocks_of :: "nat \<Rightarrow> kv_blocks \<Rightarrow> ref list list" where
  "kv_blocks_of n NoBlocks = replicate n []"
| "kv_blocks_of n (Blocks bs) = bs"

definition kv_blocks_add :: "nat \<Rightarrow> kv_blocks \<Rightarrow> kv_blocks \<Rightarrow> kv_blocks" where
  "kv_blocks_add n a b = Blocks (map (\<lambda>(x, y). x @ y) (zip (kv_blocks_of n a) (kv_blocks_of n b)))"

definition kv_get_block_ids :: "bool \<Rightarrow> block_store \<Rightarrow> ref list list \<Rightarrow> int list list option" where
  "kv_get_block_ids allow_none st bs =
     (if allow_none \<and> (\<forall>g \<in> set bs. g = []) then None else Some (map (map (\<lambda>r. block_id (st r))) bs))"

definition get_unhashed_block_ids :: "block_store \<Rightarrow> ref list list \<Rightarrow> int list res" where
  "get_unhashed_block_ids st bs =
     rbind (py_assert (length bs = 1)) (\<lambda>_.
       Inr (map (\<lambda>r. block_id (st r)) (filter (\<lambda>r. block_hash (st r) = None) (hd bs))))"

definition get_unhashed_block_ids_all_groups :: "block_store \<Rightarrow> ref list list \<Rightarrow> int list list" where
  "get_unhashed_block_ids_all_groups st bs =
     map (\<lambda>g. map (\<lambda>r. block_id (st r)) (filter (\<lambda>r. block_hash (st r) = None \<and> \<not> is_null (st r)) g)) bs"

definition kv_new_empty :: "ref list list \<Rightarrow> kv_blocks" where
  "kv_new_empty bs = Blocks (map (\<lambda>_. []) bs)"

section \<open>State\<close>

record prefix_cache_stats =
  pcs_reset :: bool
  pcs_requests :: int
  pcs_queries :: int
  pcs_hits :: int
  pcs_preempted_requests :: int
  pcs_preempted_queries :: int
  pcs_preempted_hits :: int

definition PrefixCacheStats :: prefix_cache_stats where
  "PrefixCacheStats = \<lparr>pcs_reset = False, pcs_requests = 0, pcs_queries = 0, pcs_hits = 0,
     pcs_preempted_requests = 0, pcs_preempted_queries = 0, pcs_preempted_hits = 0\<rparr>"

definition pcs_record :: "int \<Rightarrow> int \<Rightarrow> bool \<Rightarrow> prefix_cache_stats \<Rightarrow> prefix_cache_stats" where
  "pcs_record tokens num_hits preempted s =
     (if preempted
      then s\<lparr>pcs_preempted_requests := pcs_preempted_requests s + 1,
             pcs_preempted_queries := pcs_preempted_queries s + tokens,
             pcs_preempted_hits := pcs_preempted_hits s + num_hits\<rparr>
      else s\<lparr>pcs_requests := pcs_requests s + 1, pcs_queries := pcs_queries s + tokens, pcs_hits := pcs_hits s + num_hits\<rparr>)"

record kv_manager = block_pool +
  km_managers :: "single_manager list"
  km_max_model_len :: int
  km_dcp :: int
  km_pcp :: int
  km_eagle_groups :: "nat list"
  km_log_stats :: bool
  km_stats :: "prefix_cache_stats option"

text \<open>The arguments that the coordinators share; a group is its specification and \<^verbatim>\<open>is_eagle_group\<close>.\<close>

record kv_config =
  kc_num_blocks :: nat
  kc_groups :: "(kv_cache_spec \<times> bool) list"
  kc_max_model_len :: int
  kc_max_num_batched_tokens :: int
  kc_use_eagle :: bool
  kc_enable_caching :: bool
  kc_events :: bool
  kc_dcp :: int
  kc_pcp :: int
  kc_hash_block_size :: int
  kc_log_stats :: bool
  kc_use_int :: bool

definition eagle_group_ids :: "kv_config \<Rightarrow> nat list" where
  "eagle_group_ids c =
     (let flagged = filter (\<lambda>i. snd (kc_groups c ! i)) [0..<length (kc_groups c)]
      in if kc_use_eagle c \<and> flagged = [] then [0..<length (kc_groups c)] else flagged)"

definition make_managers :: "kv_config \<Rightarrow> single_manager list res" where
  "make_managers c = rfold (\<lambda>(i, spec, _) ms.
       rbind (get_manager_for_kv_cache_spec spec (kc_max_num_batched_tokens c) (kc_max_model_len c) (int i) (kc_dcp c) (kc_pcp c))
         (\<lambda>m. Inr (ms @ [m]))) (enumerate 0 (kc_groups c)) []"

definition KVCacheCoordinator :: "kv_config \<Rightarrow> kv_manager res" where
  "KVCacheCoordinator c =
     rbind (BlockPool (kc_num_blocks c) (kc_enable_caching c) (kc_hash_block_size c) (kc_events c) (kc_use_int c)) (\<lambda>p.
     rbind (make_managers c) (\<lambda>ms.
       Inr (block_pool.extend p
         \<lparr>km_managers = ms, km_max_model_len = kc_max_model_len c, km_dcp = kc_dcp c, km_pcp = kc_pcp c,
          km_eagle_groups = eagle_group_ids c, km_log_stats = kc_log_stats c,
          km_stats = (if kc_log_stats c then Some PrefixCacheStats else None)\<rparr>)))"

definition unitary_block_size :: "kv_cache_spec \<Rightarrow> int \<Rightarrow> int \<Rightarrow> int" where
  "unitary_block_size spec dcp pcp =
     spec_block_size spec * (if dcp > 1 then dcp else 1) * (if pcp > 1 then pcp else 1)"

definition UnitaryKVCacheCoordinator :: "kv_config \<Rightarrow> kv_manager res" where
  "UnitaryKVCacheCoordinator c =
     rbind (KVCacheCoordinator c) (\<lambda>k.
       case kc_groups c of
         [] \<Rightarrow> Inl IndexError
       | (spec, _) # rest \<Rightarrow>
           rbind (py_assert (\<not> kc_enable_caching c \<or> kc_hash_block_size c = unitary_block_size spec (kc_dcp c) (kc_pcp c))) (\<lambda>_.
           rbind (py_assert (rest = [])) (\<lambda>_. Inr k)))"

text \<open>\<^verbatim>\<open>None\<close> marks the configurations of the hybrid coordinator, which is not modelled.\<close>

definition get_kv_cache_coordinator :: "kv_config \<Rightarrow> kv_manager res option" where
  "get_kv_cache_coordinator c =
     (if \<not> kc_enable_caching c then Some (KVCacheCoordinator c)
      else if length (kc_groups c) = 1 then Some (UnitaryKVCacheCoordinator c)
      else None)"

definition KVCacheManager :: "kv_config \<Rightarrow> int option \<Rightarrow> kv_manager res option" where
  "KVCacheManager c max_num_batched_tokens =
     get_kv_cache_coordinator (c\<lparr>kc_max_num_batched_tokens :=
       (case max_num_batched_tokens of None \<Rightarrow> kc_max_model_len c | Some n \<Rightarrow> n)\<rparr>)"

section \<open>The coordinator\<close>

fun each_manager :: "(single_manager \<Rightarrow> 'p \<Rightarrow> (single_manager \<times> 'p) res) \<Rightarrow> single_manager list \<Rightarrow> 'p
    \<Rightarrow> (single_manager list \<times> 'p) res" where
  "each_manager f [] p = Inr ([], p)"
| "each_manager f (m # ms) p =
     rbind (f m p) (\<lambda>(m, p). rbind (each_manager f ms p) (\<lambda>(ms, p). Inr (m # ms, p)))"

definition with_managers ::
  "(single_manager \<Rightarrow> kv_manager \<Rightarrow> (single_manager \<times> kv_manager) res) \<Rightarrow> kv_manager \<Rightarrow> kv_manager res" where
  "with_managers f k = rbind (each_manager f (km_managers k) k) (\<lambda>(ms, k). Inr (k\<lparr>km_managers := ms\<rparr>))"

fun sum_blocks_to_allocate ::
  "string \<Rightarrow> int \<Rightarrow> ref list list \<Rightarrow> int \<Rightarrow> bool \<Rightarrow> single_manager list \<Rightarrow> 'z free_queue_scheme \<Rightarrow> int res" where
  "sum_blocks_to_allocate i tokens bs computed cap [] p = Inr 0"
| "sum_blocks_to_allocate i tokens bs computed cap (m # ms) p =
     (case bs of
        [] \<Rightarrow> Inl IndexError
      | b # bs \<Rightarrow>
          rbind (sm_get_num_blocks_to_allocate i tokens b computed cap m p) (\<lambda>n.
          rbind (sum_blocks_to_allocate i tokens bs computed cap ms p) (\<lambda>rest. Inr (n + rest))))"

definition get_num_blocks_to_allocate :: "string \<Rightarrow> int \<Rightarrow> ref list list \<Rightarrow> int \<Rightarrow> bool \<Rightarrow> kv_manager \<Rightarrow> int res" where
  "get_num_blocks_to_allocate i tokens bs computed cap k =
     sum_blocks_to_allocate i tokens bs computed cap (km_managers k) k"

fun each_new_computed ::
  "string \<Rightarrow> ref list list \<Rightarrow> int \<Rightarrow> int \<Rightarrow> single_manager list \<Rightarrow> 'z block_pool_scheme
     \<Rightarrow> (single_manager list \<times> 'z block_pool_scheme) res" where
  "each_new_computed i bs num_local num_external [] p = Inr ([], p)"
| "each_new_computed i bs num_local num_external (m # ms) p =
     (case bs of
        [] \<Rightarrow> Inl IndexError
      | b # bs \<Rightarrow>
          rbind (sm_allocate_new_computed_blocks i b num_local num_external m p) (\<lambda>(m, p).
          rbind (each_new_computed i bs num_local num_external ms p) (\<lambda>(ms, p). Inr (m # ms, p))))"

definition allocate_new_computed_blocks :: "string \<Rightarrow> ref list list \<Rightarrow> int \<Rightarrow> int \<Rightarrow> kv_manager \<Rightarrow> kv_manager res" where
  "allocate_new_computed_blocks i bs num_local num_external k =
     rbind (each_new_computed i bs num_local num_external (km_managers k) k) (\<lambda>(ms, k). Inr (k\<lparr>km_managers := ms\<rparr>))"

fun each_new_blocks ::
  "string \<Rightarrow> int \<Rightarrow> single_manager list \<Rightarrow> 'z block_pool_scheme
     \<Rightarrow> (ref list list \<times> single_manager list \<times> 'z block_pool_scheme) res" where
  "each_new_blocks i tokens [] p = Inr ([], [], p)"
| "each_new_blocks i tokens (m # ms) p =
     rbind (sm_allocate_new_blocks i tokens m p) (\<lambda>(new, m, p).
     rbind (each_new_blocks i tokens ms p) (\<lambda>(news, ms, p). Inr (new # news, m # ms, p)))"

definition allocate_new_blocks :: "string \<Rightarrow> int \<Rightarrow> kv_manager \<Rightarrow> (ref list list \<times> kv_manager) res" where
  "allocate_new_blocks i tokens k =
     rbind (each_new_blocks i tokens (km_managers k) k) (\<lambda>(news, ms, k). Inr (news, k\<lparr>km_managers := ms\<rparr>))"

definition co_cache_blocks :: "(bytes list \<Rightarrow> bytes) \<Rightarrow> 'r request_scheme \<Rightarrow> int \<Rightarrow> kv_manager \<Rightarrow> kv_manager res" where
  "co_cache_blocks sha r n = with_managers (sm_cache_blocks sha r n)"

definition co_free :: "string \<Rightarrow> kv_manager \<Rightarrow> kv_manager res" where
  "co_free i = with_managers (sm_free i)"

definition co_remove_skipped_blocks :: "string \<Rightarrow> int \<Rightarrow> kv_manager \<Rightarrow> kv_manager res" where
  "co_remove_skipped_blocks i computed = with_managers (sm_remove_skipped_blocks i computed)"

definition co_get_blocks :: "string \<Rightarrow> kv_manager \<Rightarrow> ref list list" where
  "co_get_blocks i k = map (blocks_of i) (km_managers k)"

definition find_longest_cache_hit :: "bytes list \<Rightarrow> int \<Rightarrow> kv_manager \<Rightarrow> (ref list list \<times> int) res" where
  "find_longest_cache_hit hs max_length k =
     (if \<not> enable_caching k then Inr (replicate (length (km_managers k)) [], 0)
      else case km_managers k of
             [] \<Rightarrow> Inl IndexError
           | m # _ \<Rightarrow>
               (let spec = sm_spec m; bsz = unitary_block_size spec (km_dcp k) (km_pcp k)
                in rbind (sm_find_longest_cache_hit (spec_kind spec) hs max_length [0] (spec_block_size spec)
                            (0 \<in> set (km_eagle_groups k)) bsz (km_dcp k) (km_pcp k) k) (\<lambda>hit.
                     case hit of [] \<Rightarrow> Inl IndexError | h # _ \<Rightarrow> Inr (hit, int (length h) * bsz))))"

section \<open>The manager\<close>

definition km_usage :: "kv_manager \<Rightarrow> real" where
  "km_usage k = get_usage k"

definition create_kv_cache_blocks :: "ref list list \<Rightarrow> kv_blocks" where
  "create_kv_cache_blocks bs = (if \<exists>g \<in> set bs. g \<noteq> [] then Blocks bs else NoBlocks)"

definition make_prefix_cache_stats :: "kv_manager \<Rightarrow> prefix_cache_stats option \<times> kv_manager" where
  "make_prefix_cache_stats k =
     (if \<not> km_log_stats k then (None, k) else (km_stats k, k\<lparr>km_stats := Some PrefixCacheStats\<rparr>))"

definition get_computed_blocks :: "'r request_scheme \<Rightarrow> kv_manager \<Rightarrow> (kv_blocks \<times> int \<times> kv_manager) res" where
  "get_computed_blocks r k =
     (if \<not> enable_caching k \<or> skip_reading_prefix_cache r then Inr (NoBlocks, 0, k)
      else rbind (find_longest_cache_hit (block_hashes r) (num_tokens r - 1) k) (\<lambda>(bs, n).
             if km_log_stats k
             then case km_stats k of
                    None \<Rightarrow> Inl AssertionError
                  | Some s \<Rightarrow> Inr (create_kv_cache_blocks bs, n,
                      k\<lparr>km_stats := Some (pcs_record (num_tokens r) n (num_preemptions r > 0) s)\<rparr>)
             else Inr (create_kv_cache_blocks bs, n, k)))"

text \<open>The blocks are cached up to the tokens that cannot be rejected.\<close>

definition cache_allocated :: "(bytes list \<Rightarrow> bytes) \<Rightarrow> 'r request_scheme \<Rightarrow> int \<Rightarrow> bool \<Rightarrow> ref list list \<Rightarrow> kv_manager
    \<Rightarrow> (kv_blocks option \<times> kv_manager) res" where
  "cache_allocated sha r tokens delay news k =
     (if \<not> enable_caching k \<or> delay then Inr (Some (create_kv_cache_blocks news), k)
      else rbind (co_cache_blocks sha r (min tokens (num_tokens r)) k) (\<lambda>k.
             Inr (Some (create_kv_cache_blocks news), k)))"

definition allocate_slots ::
  "(bytes list \<Rightarrow> bytes) \<Rightarrow> 'r request_scheme \<Rightarrow> int \<Rightarrow> int \<Rightarrow> kv_blocks \<Rightarrow> int \<Rightarrow> int \<Rightarrow> bool \<Rightarrow> bool \<Rightarrow> kv_manager
     \<Rightarrow> (kv_blocks option \<times> kv_manager) res" where
  "allocate_slots sha r num_new num_new_computed new_computed lookahead external delay full_fit k =
     (if num_new = 0 \<and> external = 0 then Inl (ValueError ''num_new_tokens must be greater than 0'')
      else
        let i = request_id r;
            bs = kv_blocks_of (length (km_managers k)) new_computed;
            num_local = num_computed_tokens r + num_new_computed;
            computed = min (num_local + external) (km_max_model_len k)
        in rbind (if full_fit
                  then rbind (get_num_blocks_to_allocate i (min (num_tokens r) (km_max_model_len k)) bs computed True k)
                         (\<lambda>n. Inr (n \<le> get_num_free_blocks k))
                  else Inr True) (\<lambda>fits.
           if \<not> fits then Inr (None, k)
           else
             let main = computed + num_new;
                 slots = min (main + lookahead) (km_max_model_len k)
             in rbind (co_remove_skipped_blocks i computed k) (\<lambda>k.
                rbind (get_num_blocks_to_allocate i slots bs (num_local + external) False k) (\<lambda>n.
                if n > get_num_free_blocks k then Inr (None, k)
                else rbind (if new_computed \<noteq> NoBlocks \<or> external > 0
                            then allocate_new_computed_blocks i bs num_local external k else Inr k) (\<lambda>k.
                     rbind (allocate_new_blocks i slots k) (\<lambda>(news, k).
                       cache_allocated sha r main delay news k))))))"

definition km_free :: "'r request_scheme \<Rightarrow> kv_manager \<Rightarrow> kv_manager res" where
  "km_free r k = co_free (request_id r) k"

definition km_remove_skipped_blocks :: "string \<Rightarrow> int \<Rightarrow> kv_manager \<Rightarrow> kv_manager res" where
  "km_remove_skipped_blocks i computed k = co_remove_skipped_blocks i computed k"

definition km_evict_blocks :: "nat list \<Rightarrow> kv_manager \<Rightarrow> kv_manager res" where
  "km_evict_blocks ids k = evict_blocks ids k"

definition km_reset_prefix_cache :: "kv_manager \<Rightarrow> (bool \<times> kv_manager) res" where
  "km_reset_prefix_cache k =
     (case reset_prefix_cache k of
        (False, k) \<Rightarrow> Inr (False, k)
      | (True, k) \<Rightarrow>
          if km_log_stats k
          then case km_stats k of
                 None \<Rightarrow> Inl AssertionError
               | Some s \<Rightarrow> Inr (True, k\<lparr>km_stats := Some (s\<lparr>pcs_reset := True\<rparr>)\<rparr>)
          else Inr (True, k))"

definition get_num_common_prefix_blocks :: "string \<Rightarrow> kv_manager \<Rightarrow> nat list \<times> kv_manager" where
  "get_num_common_prefix_blocks i k =
     (if \<not> enable_caching k then (map (\<lambda>_. 0) (km_managers k), k)
      else let rs = map (\<lambda>m. sm_get_num_common_prefix_blocks i m k) (km_managers k)
           in (map fst rs, k\<lparr>km_managers := map snd rs\<rparr>))"

text \<open>A stored event is annotated with the kind and the window of its group.\<close>

fun annotate_event :: "single_manager list \<Rightarrow> kv_cache_event \<Rightarrow> kv_cache_event \<times> (string \<times> int option) option" where
  "annotate_event ms (BlockStored e) =
     (BlockStored e,
      if bs_group_idx e < 0 \<or> bs_group_idx e \<ge> int (length ms) then None
      else let spec = spec_kind (sm_spec (ms ! nat (bs_group_idx e)))
           in Some (get_kv_cache_spec_kind spec, get_kv_cache_spec_sliding_window spec))"
| "annotate_event ms e = (e, None)"

definition km_take_events :: "kv_manager \<Rightarrow> (kv_cache_event \<times> (string \<times> int option) option) list \<times> kv_manager" where
  "km_take_events k = (case take_events k of (es, k) \<Rightarrow> (map (annotate_event (km_managers k)) es, k))"

definition km_get_blocks :: "string \<Rightarrow> kv_manager \<Rightarrow> kv_blocks" where
  "km_get_blocks i k = create_kv_cache_blocks (co_get_blocks i k)"

definition km_get_block_ids :: "string \<Rightarrow> kv_manager \<Rightarrow> int list list" where
  "km_get_block_ids i k =
     map (map (\<lambda>r. block_id (store k r))) (kv_blocks_of (length (km_managers k)) (km_get_blocks i k))"

definition km_cache_blocks :: "(bytes list \<Rightarrow> bytes) \<Rightarrow> 'r request_scheme \<Rightarrow> int \<Rightarrow> kv_manager \<Rightarrow> kv_manager res" where
  "km_cache_blocks sha r n k = (if enable_caching k then co_cache_blocks sha r n k else Inr k)"

definition km_take_new_block_ids :: "kv_manager \<Rightarrow> int list \<times> kv_manager" where
  "km_take_new_block_ids k =
     (concat (map (fst \<circ> sm_take_new_block_ids) (km_managers k)),
      k\<lparr>km_managers := map (snd \<circ> sm_take_new_block_ids) (km_managers k)\<rparr>)"

end
