(* ===== verification/Kv_Inv.thy ===== *)
theory Kv_Inv
  imports Kv_Manager
begin

text \<open>
  The invariant of a full-attention KV cache manager over the block pool: the blocks a request holds
  are distinct and live, a block's reference count is the number of requests that hold it, and the
  blocks of a request past its cached prefix carry no hash and belong to it alone. Each operation
  keeps the invariant, and what it does to the blocks of the request and to the free list is exact.
\<close>

section \<open>Sums over a dictionary\<close>

definition dict_total :: "('v \<Rightarrow> nat) \<Rightarrow> ('k, 'v) dict \<Rightarrow> nat" where
  "dict_total f d = sum_list (map (f \<circ> snd) d)"

lemma dict_total_simps [simp]: "dict_total f [] = 0" "dict_total f (x # d) = f (snd x) + dict_total f d"
  by (simp_all add: dict_total_def)

lemma dict_total_set:
  "f z = 0 \<Longrightarrow> dict_total f (dict_set k v d) + f (dict_get d k z) = dict_total f d + f v"
  by (induction d) (auto simp: dict_get_def split: if_splits)

lemma dict_total_del:
  assumes "wf_dict d" and "f z = 0"
  shows "dict_total f (dict_del k d) + f (dict_get d k z) = dict_total f d"
  using assms
proof (induction d)
  case (Cons x d)
  show ?case
  proof (cases "fst x = k")
    case True
    then have "k \<notin> fst ` set d" using Cons.prems(1) by (auto simp: image_iff)
    then have "dict_del k d = d" by (force simp: AList.delete_eq filter_id_conv)
    then show ?thesis using True by (cases x) (simp add: dict_get_def)
  next
    case False
    then show ?thesis using Cons by (cases x) (auto simp: dict_get_def)
  qed
qed (simp add: dict_get_def)

lemma dict_total_get: "f z = 0 \<Longrightarrow> f (dict_get d k z) \<le> dict_total f d"
  by (induction d) (auto simp: dict_get_def split: if_splits)

lemma dict_total_get2:
  assumes "k \<noteq> l" and "f z = 0"
  shows "f (dict_get d k z) + f (dict_get d l z) \<le> dict_total f d"
  using assms
proof (induction d)
  case (Cons x d)
  have "f (dict_get d k z) \<le> dict_total f d" "f (dict_get d l z) \<le> dict_total f d"
    by (rule dict_total_get[where f = f, OF Cons.prems(2)])+
  then show ?case using Cons by (cases x) (auto simp: dict_get_def split: if_splits)
qed (simp add: dict_get_def)

section \<open>The invariant\<close>

definition held :: "single_manager \<Rightarrow> nat \<Rightarrow> nat" where
  "held m b = dict_total (\<lambda>rs. count_list rs (Blk b)) (req_to_blocks m)"

definition cached_len :: "string \<Rightarrow> single_manager \<Rightarrow> nat" where
  "cached_len i m = dict_get (num_cached_block m) i 0"

text \<open>The blocks of a request of which the first \<open>n\<close> are cached.\<close>

definition list_ok :: "'z block_pool_scheme \<Rightarrow> ref list \<Rightarrow> nat \<Rightarrow> bool" where
  "list_ok p rs n \<longleftrightarrow> distinct rs \<and> n \<le> length rs \<and> (\<forall>r \<in> set rs. \<exists>b. r = Blk b \<and> live p b)
     \<and> (enable_caching p \<longrightarrow> (\<forall>r \<in> set (drop n rs). block_hash (store p r) = None \<and> ref_cnt (store p r) = 1))"

definition sm_config_ok :: "single_manager \<Rightarrow> bool" where
  "sm_config_ok m \<longleftrightarrow> 0 < sm_block_size m \<and> is_full_attention (spec_kind (sm_spec m)) \<and> sm_max_admission m = None
     \<and> 0 \<le> kv_cache_group_id m \<and> kv_cache_group_id m < 2 ^ 32"

definition sm_inv :: "single_manager \<Rightarrow> 'z block_pool_scheme \<Rightarrow> nat list \<Rightarrow> bool" where
  "sm_inv m p xs \<longleftrightarrow> pool_inv p xs \<and> sm_config_ok m \<and> wf_dict (req_to_blocks m) \<and> wf_dict (num_cached_block m)
     \<and> (\<forall>i. list_ok p (blocks_of i m) (cached_len i m))
     \<and> (\<forall>b. live p b \<longrightarrow> ref_cnt (store p (Blk b)) = int (held m b))"

definition same_sm :: "single_manager \<Rightarrow> single_manager \<Rightarrow> bool" where
  "same_sm m m' \<longleftrightarrow> sm_spec m' = sm_spec m \<and> sm_block_size m' = sm_block_size m
     \<and> sm_max_admission m' = sm_max_admission m \<and> kv_cache_group_id m' = kv_cache_group_id m"

lemma same_sm_refl [simp, intro]: "same_sm m m"
  by (simp add: same_sm_def)

lemma same_sm_trans [trans]: "same_sm a b \<Longrightarrow> same_sm b c \<Longrightarrow> same_sm a c"
  by (simp add: same_sm_def)

lemma sm_config_same: "same_sm m m' \<Longrightarrow> sm_config_ok m' = sm_config_ok m"
  by (simp add: same_sm_def sm_config_ok_def)

lemma sm_invD:
  assumes "sm_inv m p xs"
  shows "pool_inv p xs" "sm_config_ok m" "wf_dict (req_to_blocks m)" "wf_dict (num_cached_block m)"
    "list_ok p (blocks_of i m) (cached_len i m)" "live p b \<Longrightarrow> ref_cnt (store p (Blk b)) = int (held m b)"
  using assms by (simp_all add: sm_inv_def)

lemma blocks_of_set [simp]: "blocks_of j (set_blocks i rs m) = (if j = i then rs else blocks_of j m)"
  by (simp add: blocks_of_def set_blocks_def dict_get_def)

lemma set_blocks_frame [simp]:
  "num_cached_block (set_blocks i rs m) = num_cached_block m" "same_sm m (set_blocks i rs m)"
  "cached_len j (set_blocks i rs m) = cached_len j m" "sm_block_size (set_blocks i rs m) = sm_block_size m"
  "sm_spec (set_blocks i rs m) = sm_spec m"
  by (simp_all add: set_blocks_def same_sm_def cached_len_def)

lemma held_set: "held (set_blocks i rs m) b + count_list (blocks_of i m) (Blk b) = held m b + count_list rs (Blk b)"
  unfolding held_def blocks_of_def set_blocks_def
  using dict_total_set[of "\<lambda>rs. count_list rs (Blk b)" "[]" i rs "req_to_blocks m"] by simp

lemma held_ge2: "i \<noteq> j \<Longrightarrow> count_list (blocks_of i m) (Blk b) + count_list (blocks_of j m) (Blk b) \<le> held m b"
  unfolding held_def blocks_of_def
  using dict_total_get2[of i j "\<lambda>rs. count_list rs (Blk b)" "[]" "req_to_blocks m"] by simp

lemma list_ok_nil [simp]: "list_ok p [] 0"
  by (simp add: list_ok_def)

lemma count_pos: "r \<in> set rs \<Longrightarrow> 1 \<le> count_list rs r"
  by (metis One_nat_def Suc_leI count_list_0_iff not_gr_zero)

lemma count_distinct: "distinct rs \<Longrightarrow> count_list rs r = (if r \<in> set rs then 1 else 0)"
  by (induction rs) (auto simp: count_list_0_iff)

lemma count_map_Blk: "count_list (map Blk bs) (Blk b) = count_list bs b"
  by (induction bs) simp_all

lemma dict_set_set: "dict_set k v (dict_set k w d) = dict_set k v d"
  by (induction d) auto

lemma tail_exclusive:
  assumes inv: "sm_inv m p xs" and caching: "enable_caching p" and r: "r \<in> set (drop (cached_len i m) (blocks_of i m))" and "i \<noteq> j"
  shows "r \<notin> set (blocks_of j m)"
proof
  assume j: "r \<in> set (blocks_of j m)"
  have mem: "r \<in> set (blocks_of i m)" using r by (rule in_set_dropD)
  note ok = sm_invD(5)[OF inv, of i]
  obtain b where b: "r = Blk b" "live p b" using ok mem by (auto simp: list_ok_def)
  have "int (held m b) = 1" using ok r caching b sm_invD(6)[OF inv b(2)] by (auto simp: list_ok_def)
  then show False using held_ge2[OF assms(4), of m b] count_pos[OF mem] count_pos[OF j] b by auto
qed

text \<open>An operation that changes the blocks of one request.\<close>

lemma sm_inv_change:
  assumes inv: "sm_inv m p xs" and pool: "pool_inv p' xs'" "same_config p p'" and sm: "same_sm m m'"
    and wf: "wf_dict (req_to_blocks m')" "wf_dict (num_cached_block m')"
    and others: "\<And>j. j \<noteq> i \<Longrightarrow> blocks_of j m' = blocks_of j m \<and> cached_len j m' = cached_len j m"
    and ok: "list_ok p' (blocks_of i m') (cached_len i m')"
    and held: "\<And>b. held m' b + count_list (blocks_of i m) (Blk b) = held m b + count_list (blocks_of i m') (Blk b)"
    and refs: "\<And>b. live p b \<Longrightarrow> ref_cnt (store p' (Blk b)) + int (count_list (blocks_of i m) (Blk b)) =
       ref_cnt (store p (Blk b)) + int (count_list (blocks_of i m') (Blk b))"
    and tails: "\<And>j r. j \<noteq> i \<Longrightarrow> enable_caching p \<Longrightarrow> r \<in> set (drop (cached_len j m) (blocks_of j m)) \<Longrightarrow>
       block_hash (store p' r) = None \<and> ref_cnt (store p' r) = 1"
  shows "sm_inv m' p' xs'"
proof -
  have lv: "live p' = live p" using pool(2) by (auto simp: live_def same_config_def fun_eq_iff)
  have "list_ok p' (blocks_of j m') (cached_len j m')" for j
  proof (cases "j = i")
    case False
    then show ?thesis
      using sm_invD(5)[OF inv, of j] others[OF False] tails[OF False] by (auto simp: list_ok_def lv same_configD[OF pool(2)])
  qed (use ok in simp)
  moreover have "ref_cnt (store p' (Blk b)) = int (held m' b)" if "live p' b" for b
    using refs[of b] held[of b] sm_invD(6)[OF inv, of b] that lv by simp
  ultimately show ?thesis
    using pool(1) wf sm_config_same[OF sm] sm_invD(2)[OF inv] by (simp add: sm_inv_def)
qed

text \<open>What stays the same when the blocks of request \<open>i\<close> change.\<close>

definition frame :: "string \<Rightarrow> single_manager \<Rightarrow> single_manager \<Rightarrow> bool" where
  "frame i m m' \<longleftrightarrow> same_sm m m' \<and> (\<forall>j. j \<noteq> i \<longrightarrow> blocks_of j m' = blocks_of j m \<and> cached_len j m' = cached_len j m)"

lemma frame_refl [simp, intro]: "frame i m m"
  by (simp add: frame_def)

lemma frame_trans [trans]: "frame i a b \<Longrightarrow> frame i b c \<Longrightarrow> frame i a c"
  by (auto simp: frame_def intro: same_sm_trans)

lemma note_new_frame [simp]:
  "blocks_of j (note_new_blocks rs st m) = blocks_of j m" "cached_len j (note_new_blocks rs st m) = cached_len j m"
  "num_cached_block (note_new_blocks rs st m) = num_cached_block m" "req_to_blocks (note_new_blocks rs st m) = req_to_blocks m"
  "held (note_new_blocks rs st m) b = held m b" "same_sm m (note_new_blocks rs st m)" "frame i m (note_new_blocks rs st m)"
  by (simp_all add: note_new_blocks_def blocks_of_def cached_len_def held_def same_sm_def frame_def)

lemma frame_set_blocks [simp]: "frame i m (set_blocks i rs m)"
  by (simp add: frame_def)

lemma wf_set_blocks [simp]: "wf_dict (req_to_blocks m) \<Longrightarrow> wf_dict (req_to_blocks (set_blocks i rs m))"
  by (simp add: set_blocks_def)

lemma sm_inv_config: "sm_inv m p xs \<Longrightarrow> 0 < sm_block_size m"
  by (simp add: sm_inv_def sm_config_ok_def)

text \<open>Setting the blocks of a request to what they are only adds an empty entry.\<close>

lemma sm_inv_touch_entry:
  assumes "sm_inv m p xs"
  shows "sm_inv (set_blocks i (blocks_of i m) m) p xs"
proof (rule sm_inv_change[OF assms, where i = i])
  show "pool_inv p xs" by (rule sm_invD(1)[OF assms])
  show "list_ok p (blocks_of i (set_blocks i (blocks_of i m) m)) (cached_len i (set_blocks i (blocks_of i m) m))"
    using sm_invD(5)[OF assms] by simp
  show "held (set_blocks i (blocks_of i m) m) b + count_list (blocks_of i m) (Blk b) =
      held m b + count_list (blocks_of i (set_blocks i (blocks_of i m) m)) (Blk b)" for b
    using held_set[of i "blocks_of i m" m b] by simp
  show "block_hash (store p r) = None \<and> ref_cnt (store p r) = 1"
    if "j \<noteq> i" "enable_caching p" "r \<in> set (drop (cached_len j m) (blocks_of j m))" for j r
    using sm_invD(5)[OF assms, of j] that by (simp add: list_ok_def)
qed (use sm_invD(3,4)[OF assms] in simp_all)

section \<open>Allocation\<close>

abbreviation ceil_blocks :: "int \<Rightarrow> single_manager \<Rightarrow> int" where
  "ceil_blocks t m \<equiv> - (t div - sm_block_size m)"

lemma cdiv_sm [simp]: "0 < sm_block_size m \<Longrightarrow> cdiv t (sm_block_size m) = Inr (ceil_blocks t m)"
  by (simp add: cdiv_def floordiv_def)

lemma data_of_frame:
  assumes "data_of k = data_of k'"
  shows "ref_cnt k = ref_cnt k'" "block_hash k = block_hash k'"
  using assms by (simp_all add: data_of_def)

text \<open>Appending newly allocated blocks to a request.\<close>

lemma append_new_spec:
  assumes inv: "sm_inv m p xs" and n: "n \<le> length xs"
  shows "\<exists>p'. get_new_blocks n p = Inr (map Blk (take n xs), p') \<and> same_config p p'
    \<and> sm_inv (set_blocks i (blocks_of i m @ map Blk (take n xs)) m) p' (drop n xs)"
proof -
  let ?new = "take n xs" and ?m = "set_blocks i (blocks_of i m @ map Blk (take n xs)) m"
  obtain p' where p': "get_new_blocks n p = Inr (map Blk ?new, p')" "pool_inv p' (drop n xs)" "same_config p p'"
    "\<forall>b. data_of (store p' (Blk b)) = data_of (if b \<in> set ?new then taken (enable_caching p) (store p (Blk b)) else store p (Blk b))"
    using get_new_blocks_spec[OF sm_invD(1)[OF inv] n] by blast
  have d: "distinct ?new" using fq_repr_distinct[OF pool_invD(1)[OF sm_invD(1)[OF inv]]] by simp
  have free: "live p b \<and> ref_cnt (store p (Blk b)) = 0" if "b \<in> set ?new" for b
    using pool_inv_free[OF sm_invD(1)[OF inv], of b] in_set_takeD[OF that] by blast
  have old: "ref_cnt (store p' (Blk b)) = ref_cnt (store p (Blk b)) \<and> block_hash (store p' (Blk b)) = block_hash (store p (Blk b))"
    if "b \<notin> set ?new" for b
    using p'(4)[rule_format, of b] that by (simp add: data_of_def)
  have new: "ref_cnt (store p' (Blk b)) = 1 \<and> (enable_caching p \<longrightarrow> block_hash (store p' (Blk b)) = None)" if "b \<in> set ?new" for b
    using p'(4)[rule_format, of b] that free[OF that] by (simp add: data_of_def taken_def)
  have fresh: "b \<notin> set ?new" if "Blk b \<in> set (blocks_of j m)" for b j
  proof
    assume "b \<in> set ?new"
    then have "held m b = 0" using free[of b] sm_invD(6)[OF inv, of b] by simp
    moreover have "count_list (blocks_of j m) (Blk b) \<le> held m b"
      unfolding held_def blocks_of_def by (rule dict_total_get) simp
    ultimately show False using count_pos[OF that] by simp
  qed
  have stay: "ref_cnt (store p' r) = ref_cnt (store p r) \<and> block_hash (store p' r) = block_hash (store p r)"
    if "r \<in> set (blocks_of j m)" for r j
    using sm_invD(5)[OF inv, of j] that fresh[of _ j] old by (auto simp: list_ok_def)
  have tail: "block_hash (store p' r) = None \<and> ref_cnt (store p' r) = 1"
    if "enable_caching p" "r \<in> set (drop (cached_len j m) (blocks_of j m))" for r j
    using sm_invD(5)[OF inv, of j] that stay[of r j] in_set_dropD[OF that(2)] by (auto simp: list_ok_def)
  have lv: "live p' = live p" using p'(3) by (auto simp: live_def same_config_def fun_eq_iff)
  have "sm_inv ?m p' (drop n xs)"
  proof (rule sm_inv_change[OF inv p'(2,3), where i = i])
    have "distinct (blocks_of i m @ map Blk ?new)"
      using sm_invD(5)[OF inv, of i] d fresh by (auto simp: list_ok_def distinct_map inj_on_def)
    moreover have "\<forall>r \<in> set (blocks_of i m @ map Blk ?new). \<exists>b. r = Blk b \<and> live p' b"
      using sm_invD(5)[OF inv, of i] free by (auto simp: list_ok_def lv)
    moreover have "block_hash (store p' r) = None \<and> ref_cnt (store p' r) = 1"
      if "enable_caching p" "r \<in> set (drop (cached_len i m) (blocks_of i m @ map Blk ?new))" for r
    proof -
      have "r \<in> set (drop (cached_len i m) (blocks_of i m)) \<or> r \<in> set (map Blk ?new)"
        using that(2) by (auto simp del: set_map dest: in_set_dropD)
      then show ?thesis using that(1) tail[of r i] new by auto
    qed
    ultimately show "list_ok p' (blocks_of i ?m) (cached_len i ?m)"
      using sm_invD(5)[OF inv, of i] by (simp add: list_ok_def same_configD[OF p'(3)])
    show "held ?m b + count_list (blocks_of i m) (Blk b) = held m b + count_list (blocks_of i ?m) (Blk b)" for b
      using held_set[of i "blocks_of i m @ map Blk ?new" m b] by simp
    show "ref_cnt (store p' (Blk b)) + int (count_list (blocks_of i m) (Blk b)) =
        ref_cnt (store p (Blk b)) + int (count_list (blocks_of i ?m) (Blk b))" if "live p b" for b
    proof -
      have "count_list (map Blk ?new) (Blk b) = (if b \<in> set ?new then 1 else 0)"
        using d by (subst count_distinct) (auto simp: distinct_map inj_on_def)
      then show ?thesis using new[of b] old[of b] free[of b] by (cases "b \<in> set ?new") auto
    qed
  qed (use sm_invD(3,4)[OF inv] tail in auto)
  then show ?thesis using p' by blast
qed

lemma sm_inv_note [simp]: "sm_inv (note_new_blocks rs st m) p xs = sm_inv m p xs"
  using sm_config_same[of m "note_new_blocks rs st m"] by (simp add: sm_inv_def)

lemma new_blocks_spec:
  assumes inv: "sm_inv m p xs" and n: "nat (ceil_blocks t m - int (length (blocks_of i m))) \<le> length xs" (is "?n \<le> _")
  shows "\<exists>m' p'. sm_allocate_new_blocks i t m p = Inr (map Blk (take ?n xs), m', p') \<and> sm_inv m' p' (drop ?n xs)
    \<and> same_config p p' \<and> frame i m m' \<and> blocks_of i m' = blocks_of i m @ map Blk (take ?n xs)
    \<and> num_cached_block m' = num_cached_block m"
proof (cases "ceil_blocks t m - int (length (blocks_of i m)) \<le> 0")
  case True
  then show ?thesis
    using sm_inv_touch_entry[OF inv, of i] sm_inv_config[OF inv] by (simp add: sm_allocate_new_blocks_def Let_def)
next
  case False
  have m1: "sm_inv (set_blocks i (blocks_of i m) m) p xs" by (rule sm_inv_touch_entry[OF inv])
  have setset: "set_blocks i rs (set_blocks i rs' m) = set_blocks i rs m" for rs rs'
    by (simp add: set_blocks_def dict_set_set)
  obtain p' where p': "get_new_blocks ?n p = Inr (map Blk (take ?n xs), p')" "same_config p p'"
    "sm_inv (set_blocks i (blocks_of i m @ map Blk (take ?n xs)) m) p' (drop ?n xs)"
    using append_new_spec[OF inv n, of i] by blast
  show ?thesis using False p' sm_inv_config[OF inv]
    by (auto simp: sm_allocate_new_blocks_def Let_def setset intro: frame_trans[OF frame_set_blocks note_new_frame(7)])
qed

text \<open>The blocks of a prefix-cache hit: live, distinct, and carrying a hash.\<close>

definition hit_ok :: "'z block_pool_scheme \<Rightarrow> nat list \<Rightarrow> bool" where
  "hit_ok p bs \<longleftrightarrow> distinct bs \<and> (\<forall>b \<in> set bs. live p b \<and> block_hash (store p (Blk b)) \<noteq> None)"

definition set_cached :: "string \<Rightarrow> nat \<Rightarrow> single_manager \<Rightarrow> single_manager" where
  "set_cached i n m = m\<lparr>num_cached_block := dict_set i n (num_cached_block m)\<rparr>"

lemma set_cached_frame [simp]:
  "blocks_of j (set_cached i n m) = blocks_of j m" "cached_len j (set_cached i n m) = (if j = i then n else cached_len j m)"
  "held (set_cached i n m) b = held m b" "same_sm m (set_cached i n m)" "req_to_blocks (set_cached i n m) = req_to_blocks m"
  "has_key (num_cached_block (set_cached i n m)) j = (j = i \<or> has_key (num_cached_block m) j)"
  "frame i m (set_cached i n m)" "sm_block_size (set_cached i n m) = sm_block_size m"
  "wf_dict (num_cached_block m) \<Longrightarrow> wf_dict (num_cached_block (set_cached i n m))"
  by (auto simp: set_cached_def blocks_of_def cached_len_def held_def same_sm_def frame_def dict_get_def has_key_def)

lemma evictable_iff:
  assumes "pool_inv p xs" and "\<forall>b \<in> set bs. live p b"
  shows "get_num_evictable_blocks (map Blk bs) p = length (filter (\<lambda>b. b \<in> set xs) bs)"
proof -
  have "(ref_cnt (store p (Blk b)) = 0 \<and> \<not> is_null (store p (Blk b))) = (b \<in> set xs)" if "b \<in> set bs" for b
    using pool_inv_free[OF assms(1), of b] pool_inv_block(2)[OF assms(1), of b] assms(2) that by (auto simp: live_def)
  then show ?thesis by (simp add: get_num_evictable_blocks_def filter_map comp_def cong: filter_cong)
qed

lemma adopt_spec:
  assumes inv: "sm_inv m p xs" and hit: "hit_ok p bs" and none: "blocks_of i m = []"
  shows "\<exists>p'. touch (map Blk bs) p = Inr p' \<and> same_config p p'
    \<and> sm_inv (set_cached i (length bs) (set_blocks i (map Blk bs) m)) p' (filter (\<lambda>b. b \<notin> set bs) xs)"
proof -
  let ?m = "set_cached i (length bs) (set_blocks i (map Blk bs) m)"
  have "\<forall>b \<in> set bs. b < num_gpu_blocks p" using hit by (auto simp: hit_ok_def live_def)
  then obtain p' where p': "touch (map Blk bs) p = Inr p'" "pool_inv p' (filter (\<lambda>b. b \<notin> set bs) xs)" "same_cache p p'"
    "\<forall>c. ref_cnt (store p' (Blk c)) = ref_cnt (store p (Blk c)) + int (count_list bs c)"
    using touch_spec[OF sm_invD(1)[OF inv]] by blast
  note cfg = same_cacheD(1)[OF p'(3)]
  have lv: "live p' = live p" using cfg by (auto simp: live_def same_config_def fun_eq_iff)
  have "sm_inv ?m p' (filter (\<lambda>b. b \<notin> set bs) xs)"
  proof (rule sm_inv_change[OF inv p'(2) cfg, where i = i])
    show "list_ok p' (blocks_of i ?m) (cached_len i ?m)"
      using hit by (auto simp: list_ok_def hit_ok_def distinct_map inj_on_def lv)
    show "held ?m b + count_list (blocks_of i m) (Blk b) = held m b + count_list (blocks_of i ?m) (Blk b)" for b
      using held_set[of i "map Blk bs" m b] by simp
    show "ref_cnt (store p' (Blk b)) + int (count_list (blocks_of i m) (Blk b)) =
        ref_cnt (store p (Blk b)) + int (count_list (blocks_of i ?m) (Blk b))" for b
      using p'(4) none by (simp add: count_map_Blk)
    show "block_hash (store p' r) = None \<and> ref_cnt (store p' r) = 1"
      if j: "j \<noteq> i" "enable_caching p" "r \<in> set (drop (cached_len j m) (blocks_of j m))" for j r
    proof -
      obtain b where b: "r = Blk b" "block_hash (store p r) = None" "ref_cnt (store p r) = 1"
        using sm_invD(5)[OF inv, of j] j in_set_dropD[OF j(3)] by (auto simp: list_ok_def)
      then have "b \<notin> set bs" using hit by (auto simp: hit_ok_def)
      then show ?thesis using b p'(4) same_cacheD(4)[OF p'(3), of r] by (auto simp: count_list_0_iff)
    qed
    show "same_sm m ?m" by (simp add: same_sm_def set_cached_def set_blocks_def)
  qed (use sm_invD(3,4)[OF inv] in auto)
  then show ?thesis using p' cfg by blast
qed

lemma full_skipped [simp]: "is_full_attention k \<Longrightarrow> get_num_skipped_tokens k n = Inr 0"
  by (cases k) simp_all

lemma sm_full: "sm_inv m p xs \<Longrightarrow> is_full_attention (spec_kind (sm_spec m)) \<and> sm_max_admission m = None"
  by (simp add: sm_inv_def sm_config_ok_def)

lemma free_count: "pool_inv p xs \<Longrightarrow> get_num_free_blocks p = int (length xs)"
  by (simp add: get_num_free_blocks_def fq_repr_num[OF pool_invD(1)])

text \<open>Demand: the blocks to append, plus the hits that leave the free list.\<close>

lemma demand_spec:
  assumes inv: "sm_inv m p xs" and "has_key (num_cached_block m) i \<Longrightarrow> new = []"
  shows "sm_get_num_blocks_to_allocate i t new c cap m p =
    Inr (max (ceil_blocks t m - int (length new + length (blocks_of i m))) 0 + int (get_num_evictable_blocks new p))"
proof -
  have b: "0 < sm_block_size m" "is_full_attention (spec_kind (sm_spec m))" "sm_max_admission m = None"
    using sm_inv_config[OF inv] sm_full[OF inv] by auto
  show ?thesis
  proof (cases "has_key (num_cached_block m) i")
    case True
    then show ?thesis using assms(2) b by (simp add: sm_get_num_blocks_to_allocate_def get_num_evictable_blocks_def)
  next
    case False
    then show ?thesis using b by (simp add: sm_get_num_blocks_to_allocate_def Let_def add.commute)
  qed
qed

lemma num_cached_set_cached: "num_cached_block (set_cached i n m) = dict_set i n (num_cached_block m)"
  by (simp add: set_cached_def)

lemma setc: "(set_blocks i rs m)\<lparr>num_cached_block := dict_set i n (num_cached_block m)\<rparr> = set_cached i n (set_blocks i rs m)"
  by (simp add: set_cached_def)

text \<open>The blocks allocated for externally computed tokens.\<close>

definition external_blocks :: "int \<Rightarrow> int \<Rightarrow> nat \<Rightarrow> single_manager \<Rightarrow> nat" where
  "external_blocks num_local num_external n m =
     (if num_external > 0 then nat (ceil_blocks (num_local + num_external) m - int n) else 0)"

lemma set_cached_blocks: "set_blocks i rs (set_cached i n (set_blocks i rs' m)) = set_cached i n (set_blocks i rs m)"
  by (simp add: set_cached_def set_blocks_def dict_set_set)

lemma new_computed_spec:
  assumes inv: "sm_inv m p xs" and hit: "hit_ok p bs" and none: "blocks_of i m = []" "\<not> has_key (num_cached_block m) i"
    and caching: "enable_caching p \<or> bs = []" and nn: "num_external > 0 \<Longrightarrow> int (length bs) \<le> ceil_blocks (num_local + num_external) m"
  defines "ys \<equiv> filter (\<lambda>b. b \<notin> set bs) xs" and "e \<equiv> external_blocks num_local num_external (length bs) m"
  assumes fit: "e \<le> length ys"
  shows "\<exists>m' p'. sm_allocate_new_computed_blocks i (map Blk bs) num_local num_external m p = Inr (m', p')
    \<and> sm_inv m' p' (drop e ys) \<and> same_config p p' \<and> frame i m m'
    \<and> blocks_of i m' = map Blk bs @ map Blk (take e ys) \<and> num_cached_block m' = dict_set i (length bs) (num_cached_block m)"
proof -
  let ?m = "set_cached i (length bs) (set_blocks i (map Blk bs) m)"
  obtain p1 where p1: "touch (map Blk bs) p = Inr p1" "same_config p p1" "sm_inv ?m p1 ys"
    using adopt_spec[OF inv hit none(1)] unfolding ys_def by blast
  have t: "(if enable_caching p then touch (map Blk bs) p else rbind (py_assert (map Blk bs = [])) (\<lambda>_. Inr p)) = Inr p1"
    using p1(1) caching by (auto simp: touch_def)
  have b: "0 < sm_block_size m" "is_full_attention (spec_kind (sm_spec m))"
    using sm_inv_config[OF inv] sm_full[OF inv] by auto
  obtain p2 where p2: "get_new_blocks e p1 = Inr (map Blk (take e ys), p2)" "same_config p1 p2"
    "sm_inv (set_cached i (length bs) (set_blocks i (map Blk bs @ map Blk (take e ys)) m)) p2 (drop e ys)"
    using append_new_spec[OF p1(3) fit, of i] by (auto simp: set_cached_blocks)
  have fr: "frame i m (set_cached i n (set_blocks i rs m))" for n rs
    by (auto simp: frame_def same_sm_def set_cached_def set_blocks_def blocks_of_def cached_len_def dict_get_def)
  show ?thesis
  proof (cases "num_external > 0")
    case True
    then have e: "e = nat (ceil_blocks (num_local + num_external) m - int (length bs))" by (simp add: e_def external_blocks_def)
    have "get_new_blocks_int (ceil_blocks (num_local + num_external) m - int (length bs)) p1 = Inr (map Blk (take e ys), p2)"
      using p2(1) nn[OF True] fit free_count[OF sm_invD(1)[OF p1(3)]] e by (auto simp: get_new_blocks_int_def)
    then show ?thesis
      using True t b none p2 same_config_trans[OF p1(2) p2(2)] frame_trans[OF fr note_new_frame(7)]
      by (auto simp: sm_allocate_new_computed_blocks_def Let_def floordiv_def setc set_cached_blocks num_cached_set_cached)
  next
    case False
    then show ?thesis
      using t b none p1 fr
      by (auto simp: sm_allocate_new_computed_blocks_def Let_def floordiv_def e_def external_blocks_def setc num_cached_set_cached)
  qed
qed

section \<open>Caching and freeing\<close>

lemma list_ok_Blk: "list_ok p rs n \<Longrightarrow> \<exists>bs. rs = map Blk bs \<and> distinct bs \<and> (\<forall>b \<in> set bs. live p b)"
proof -
  assume ok: "list_ok p rs n"
  then have "\<forall>r \<in> set rs. \<exists>b. r = Blk b" by (auto simp: list_ok_def)
  then obtain bs where bs: "rs = map Blk bs" by (metis ex_map_conv)
  then have "\<forall>b \<in> set bs. live p b" using ok by (auto simp: list_ok_def)
  moreover have "distinct bs" using ok bs by (simp add: list_ok_def distinct_map)
  ultimately show ?thesis using bs by blast
qed

lemma to_cache_None: "0 \<notin> set bs \<Longrightarrow> map fst (to_cache None i bs) = bs"
  by (induction bs arbitrary: i) auto

lemma cache_sm_spec:
  assumes inv: "sm_inv m p xs" and caching: "enable_caching p" and bsz: "sm_block_size m = hash_block_size p" and "0 \<le> n"
    and len: "n div sm_block_size m \<le> int (length (blocks_of (request_id r) m))"
    and hs: "n div sm_block_size m \<le> int (length (block_hashes r))"
  shows "\<exists>m' p'. sm_cache_blocks sha r n m p = Inr (m', p') \<and> sm_inv m' p' xs \<and> same_config p p' \<and> frame (request_id r) m m'
    \<and> blocks_of (request_id r) m' = blocks_of (request_id r) m"
proof -
  let ?i = "request_id r" let ?nf = "nat (n div sm_block_size m)" let ?nc = "cached_len ?i m"
  have b: "0 < sm_block_size m" by (rule sm_inv_config[OF inv])
  have fd: "floordiv n (sm_block_size m) = Inr (n div sm_block_size m)" using b by (simp add: floordiv_def)
  have nn: "0 \<le> n div sm_block_size m" using b assms(4) by (simp add: pos_imp_zdiv_nonneg_iff)
  show ?thesis
  proof (cases "?nf \<le> ?nc")
    case True
    then have "n div sm_block_size m \<le> int (dict_get (num_cached_block m) ?i 0)" using nn by (simp add: cached_len_def nat_le_iff)
    then have "sm_cache_blocks sha r n m p = Inr (m, p)"
      using fd by (simp add: sm_cache_blocks_def Let_def cached_len_def)
    then show ?thesis using inv by auto
  next
    case False
    then have lt: "?nc < ?nf" by simp
    obtain bs where bs: "blocks_of ?i m = map Blk bs" "distinct bs" "\<forall>b \<in> set bs. live p b"
      using list_ok_Blk[OF sm_invD(5)[OF inv, of ?i]] by blast
    let ?A = "to_cache None 0 (take (?nf - ?nc) (drop ?nc bs))"
    have nz: "0 \<notin> set (take (?nf - ?nc) (drop ?nc bs))"
      using bs(3) by (auto simp: live_def dest: in_set_takeD in_set_dropD)
    have fstA: "map fst ?A = take (?nf - ?nc) (drop ?nc bs)" by (rule to_cache_None[OF nz])
    have tailA: "Blk b \<in> set (drop ?nc (blocks_of ?i m))" if "b \<in> fst ` set ?A" for b
    proof -
      have "b \<in> set (take (?nf - ?nc) (drop ?nc bs))" using that fstA by (metis list.set_map)
      then show ?thesis using bs(1) by (auto simp: drop_map dest: in_set_takeD)
    qed
    have tail: "block_hash (store p s) = None \<and> ref_cnt (store p s) = 1" if "s \<in> set (drop (cached_len j m) (blocks_of j m))" for s j
      using sm_invD(5)[OF inv, of j] caching that by (simp add: list_ok_def)
    have rng: "\<forall>b \<in> set bs. b < num_gpu_blocks p" using bs(3) by (simp add: live_def)
    have "\<exists>gb. to_bytes4 (kv_cache_group_id m) = Inr gb"
      using sm_invD(2)[OF inv] by (simp add: sm_config_ok_def to_bytes4_def)
    then obtain gb where gb: "to_bytes4 (kv_cache_group_id m) = Inr gb" ..
    have lens: "?nf \<le> length bs" "?nf \<le> length (block_hashes_at (hash_block_size p) (sm_block_size m) (block_hashes r))"
      using len hs nn bs(1) bsz by (auto simp: block_hashes_at_def)
    have "\<exists>p'. cache_full_blocks sha r (map Blk bs) ?nc ?nf (sm_block_size m) (kv_cache_group_id m) None p = Inr p'"
    proof (rule cache_full_blocks_total[OF sm_invD(1)[OF inv] rng gb _ b _ lens(2,1)])
      show "distinct (map fst ?A)" using bs(2) by (simp add: fstA)
      have "block_hash (store p (Blk c)) = None" if "c \<in> fst ` set ?A" for c using tail[OF tailA[OF that]] by simp
      then show "\<forall>(c, j) \<in> set ?A. block_hash (store p (Blk c)) = None" by force
    qed (use b bsz in simp_all)
    then obtain p' where run: "cache_full_blocks sha r (map Blk bs) ?nc ?nf (sm_block_size m) (kv_cache_group_id m) None p = Inr p'" ..
    obtain q es hs' where q: "pool_inv p' xs" "caches hs' gb ?A p q" "p' = q\<lparr>kv_event_queue := es\<rparr>"
      using cache_full_blocks_sound[OF sm_invD(1)[OF inv] rng gb run lt] by blast
    let ?m = "set_cached ?i ?nf (set_blocks ?i (blocks_of ?i m) m)"
    have cfg: "same_config p p'" and ref: "ref_cnt (store p' (Blk c)) = ref_cnt (store p (Blk c))" for c
      using q(2,3) by (simp_all add: caches_def same_config_def)
    have hash: "block_hash (store p' (Blk c)) = block_hash (store p (Blk c))" if "c \<notin> fst ` set ?A" for c
      using q(2,3) map_of_eq_None_iff[of ?A c] that by (simp add: caches_def)
    have keep: "block_hash (store p' s) = None \<and> ref_cnt (store p' s) = 1"
      if s: "s \<in> set (drop (cached_len j m) (blocks_of j m))" "\<And>b. s = Blk b \<Longrightarrow> b \<notin> fst ` set ?A" for s j
    proof -
      obtain b where "s = Blk b" using sm_invD(5)[OF inv, of j] in_set_dropD[OF s(1)] by (auto simp: list_ok_def)
      then show ?thesis using tail[OF s(1)] s(2) hash ref by simp
    qed
    have dj: "b \<notin> fst ` set ?A" if "Blk b \<in> set (drop ?nf (blocks_of ?i m))" for b
    proof -
      have "b \<in> set (drop ?nf bs)" using that bs(1) by (auto simp: drop_map)
      moreover have "set (drop ?nf bs) \<inter> set (take ?nf bs) = {}"
        using bs(2) by (metis append_take_drop_id distinct_append inf_commute)
      moreover have "set (take (?nf - ?nc) (drop ?nc bs)) \<subseteq> set (take ?nf bs)"
        using lt by (simp add: take_drop set_drop_subset)
      ultimately show ?thesis using fstA by (metis disjoint_iff list.set_map subsetD)
    qed
    have "sm_inv ?m p' xs"
    proof (rule sm_inv_change[OF inv q(1) cfg, where i = ?i])
      have "set (drop ?nf (blocks_of ?i m)) \<subseteq> set (drop ?nc (blocks_of ?i m))"
        using lt by (intro set_drop_subset_set_drop) simp
      then have "block_hash (store p' s) = None \<and> ref_cnt (store p' s) = 1" if "s \<in> set (drop ?nf (blocks_of ?i m))" for s
        using that dj by (intro keep[of s ?i]) auto
      then show "list_ok p' (blocks_of ?i ?m) (cached_len ?i ?m)"
        using sm_invD(5)[OF inv, of ?i] lens(1) bs(1) cfg by (auto simp: list_ok_def live_def same_config_def)
      show "held ?m b + count_list (blocks_of ?i m) (Blk b) = held m b + count_list (blocks_of ?i ?m) (Blk b)" for b
        using held_set[of ?i "blocks_of ?i m" m b] by simp
      show "block_hash (store p' s) = None \<and> ref_cnt (store p' s) = 1"
        if "j \<noteq> ?i" "enable_caching p" "s \<in> set (drop (cached_len j m) (blocks_of j m))" for j s
        using keep[OF that(3)] tail_exclusive[OF inv caching that(3,1)] tailA in_set_dropD by fast
      show "same_sm m ?m" by (simp add: same_sm_def set_cached_def set_blocks_def)
    qed (use sm_invD(3,4)[OF inv] ref in auto)
    moreover have "frame ?i m ?m"
      by (auto simp: frame_def same_sm_def set_cached_def set_blocks_def blocks_of_def cached_len_def dict_get_def)
    moreover have "sm_cache_blocks sha r n m p = Inr (?m, p')"
      using fd nn lt run bs(1) by (simp add: sm_cache_blocks_def Let_def cached_len_def setc)
    ultimately show ?thesis using cfg by auto
  qed
qed

lemma free_sm_spec:
  assumes inv: "sm_inv m p xs"
  shows "\<exists>m' p'. sm_free i m p = Inr (m', p') \<and> same_config p p' \<and> frame i m m' \<and> blocks_of i m' = []
    \<and> \<not> has_key (num_cached_block m') i \<and> cached_map p' = cached_map p
    \<and> sm_inv m' p' (xs @ filter (\<lambda>b. held m b = 1) (map (\<lambda>r. case r of Blk b \<Rightarrow> b) (rev (blocks_of i m))))"
proof -
  obtain bs where bs: "blocks_of i m = map Blk bs" "distinct bs" "\<forall>b \<in> set bs. live p b"
    using list_ok_Blk[OF sm_invD(5)[OF inv, of i]] by blast
  have own: "1 \<le> ref_cnt (store p (Blk b))" if "b \<in> set bs" for b
  proof -
    have "count_list (blocks_of i m) (Blk b) \<le> held m b" unfolding held_def blocks_of_def by (rule dict_total_get) simp
    then show ?thesis using that bs sm_invD(6)[OF inv, of b] count_pos[of "Blk b" "blocks_of i m"] by auto
  qed
  obtain p' where p': "free_blocks (map Blk (rev bs)) p = Inr p'"
    "pool_inv p' (xs @ filter (\<lambda>b. b \<noteq> 0 \<and> ref_cnt (store p (Blk b)) = 1) (rev bs))" "same_cache p p'"
    "\<forall>c. ref_cnt (store p' (Blk c)) = ref_cnt (store p (Blk c)) - int (count_list (rev bs) c)"
    using free_blocks_spec[OF sm_invD(1)[OF inv], of "rev bs"] bs own by (auto simp: live_def)
  let ?m = "m\<lparr>req_to_blocks := dict_del i (req_to_blocks m), num_cached_block := dict_del i (num_cached_block m)\<rparr>"
  have bl: "blocks_of j ?m = (if j = i then [] else blocks_of j m)" "cached_len j ?m = (if j = i then 0 else cached_len j m)" for j
    by (simp_all add: blocks_of_def cached_len_def dict_get_def)
  have sel: "filter (\<lambda>b. b \<noteq> 0 \<and> ref_cnt (store p (Blk b)) = 1) (rev bs) = filter (\<lambda>b. held m b = 1) (rev bs)"
    using bs(3) sm_invD(6)[OF inv] by (intro filter_cong) (auto simp: live_def)
  note cfg = same_cacheD(1)[OF p'(3)]
  have "sm_inv ?m p' (xs @ filter (\<lambda>b. held m b = 1) (rev bs))"
  proof (rule sm_inv_change[OF inv p'(2)[unfolded sel] cfg, where i = i])
    show "list_ok p' (blocks_of i ?m) (cached_len i ?m)" by (simp add: bl)
    show "held ?m b + count_list (blocks_of i m) (Blk b) = held m b + count_list (blocks_of i ?m) (Blk b)" for b
      using dict_total_del[OF sm_invD(3)[OF inv], of "\<lambda>rs. count_list rs (Blk b)" "[]" i]
      by (simp add: bl held_def blocks_of_def[symmetric])
    show "ref_cnt (store p' (Blk b)) + int (count_list (blocks_of i m) (Blk b)) =
        ref_cnt (store p (Blk b)) + int (count_list (blocks_of i ?m) (Blk b))" for b
      using p'(4) bs(1) by (simp add: bl count_map_Blk)
    show "block_hash (store p' r) = None \<and> ref_cnt (store p' r) = 1"
      if r: "j \<noteq> i" "enable_caching p" "r \<in> set (drop (cached_len j m) (blocks_of j m))" for j r
    proof -
      obtain b where b: "r = Blk b" "block_hash (store p r) = None" "ref_cnt (store p r) = 1"
        using sm_invD(5)[OF inv, of j] r in_set_dropD[OF r(3)] by (auto simp: list_ok_def)
      have "b \<notin> set bs" using tail_exclusive[OF inv r(2,3,1)] b(1) bs(1) by auto
      then show ?thesis using b p'(4) same_cacheD(4)[OF p'(3), of r] by (simp add: count_list_0_iff)
    qed
  qed (use sm_invD(3,4)[OF inv] bl in \<open>auto simp: same_sm_def\<close>)
  moreover have "map (\<lambda>r. case r of Blk b \<Rightarrow> b) (rev (blocks_of i m)) = rev bs"
    using bs(1) by (simp add: rev_map comp_def)
  moreover have "frame i m ?m" by (simp add: frame_def same_sm_def bl)
  moreover have "sm_free i m p = Inr (?m, p')" using p'(1) bs(1) by (simp add: sm_free_def rev_map)
  ultimately show ?thesis using cfg same_cacheD(2)[OF p'(3)] bl by (auto simp: has_key_def)
qed

section \<open>The manager\<close>

text \<open>
  The invariant of a KV cache manager with one full-attention group. With prefix caching its block
  size is the hash block size, which the unitary coordinator asserts.
\<close>

definition kv_inv :: "kv_manager \<Rightarrow> single_manager \<Rightarrow> nat list \<Rightarrow> bool" where
  "kv_inv k m xs \<longleftrightarrow> km_managers k = [m] \<and> sm_inv m k xs \<and> 1 \<le> km_dcp k \<and> 1 \<le> km_pcp k
     \<and> (enable_caching k \<longrightarrow> sm_block_size m = hash_block_size k
          \<and> sm_block_size m = unitary_block_size (sm_spec m) (km_dcp k) (km_pcp k) \<and> kv_cache_group_id m = 0)"

lemma pool_inv_more [simp]:
  "pool_inv_upto F (k\<lparr>km_managers := ms\<rparr>) xs = pool_inv_upto F k xs"
  "live (k\<lparr>km_managers := ms\<rparr>) = live k" "same_config (k\<lparr>km_managers := ms\<rparr>) k' = same_config k k'"
  "same_config k' (k\<lparr>km_managers := ms\<rparr>) = same_config k' k"
  by (auto simp: pool_inv_upto_def fq_repr_def blocks_ok_def cache_ok_def counts_ok_def live_def same_config_def fun_eq_iff)

lemma sm_inv_more [simp]: "sm_inv m (k\<lparr>km_managers := ms\<rparr>) xs = sm_inv m k xs"
  by (simp add: sm_inv_def list_ok_def)

end
