(* ===== verification/Kv_Alloc.thy ===== *)
theory Kv_Alloc
  imports Kv_Inv
begin

text \<open>
  The operations of the KV cache manager with one full-attention group: what a slot allocation does
  to the request and to the free list, caching, freeing and the prefix-cache lookup.
\<close>

section \<open>Fields that the block pool does not write\<close>

definition keeps :: "'z block_pool_scheme \<Rightarrow> 'z block_pool_scheme \<Rightarrow> bool" where
  "keeps p p' \<longleftrightarrow> block_pool.more p' = block_pool.more p"

lemma keeps_refl [simp, intro]: "keeps p p"
  by (simp add: keeps_def)

lemma keeps_trans [trans]: "keeps a b \<Longrightarrow> keeps b c \<Longrightarrow> keeps a c"
  by (simp add: keeps_def)

lemma keeps_queue [intro]: "free_queue.more p' = free_queue.more p \<Longrightarrow> keeps p p'"
  by (cases p, cases p') (simp add: keeps_def)

lemma keeps_updates [simp]:
  "keeps p (p\<lparr>cached_map := c\<rparr>)" "keeps p (p\<lparr>kv_event_queue := es\<rparr>)" "keeps p (upd_block r f p)"
  "keeps p (p\<lparr>num_free_blocks := n\<rparr>)"
  by (simp_all add: keeps_def upd_block_def)

lemma keeps_evict: "keeps p (snd (maybe_evict_cached_block r p))"
  by (auto simp: maybe_evict_cached_block_def keeps_def upd_block_def Let_def split: option.splits prod.splits)

lemma keeps_take_block: "take_block r p = Inr p' \<Longrightarrow> keeps p p'"
  using keeps_evict[of p r] by (auto simp: take_block_def Let_def rbind_eq_Inr incr_ref_def keeps_def upd_block_def split: if_splits)

lemma keeps_rfold:
  assumes "rfold f xs p = Inr p'" and "\<And>x p p'. f x p = Inr p' \<Longrightarrow> keeps p p'"
  shows "keeps p p'"
  by (rule rfold_invariant[OF assms(1), where P = "keeps p"]) (use assms(2) keeps_trans in blast)+

lemma keeps_get_new_blocks: "get_new_blocks n p = Inr (rs, p') \<Longrightarrow> keeps p p'"
proof -
  assume "get_new_blocks n p = Inr (rs, p')"
  then obtain q where q: "popleft_n n p = Inr (rs, q)" "rfold take_block rs q = Inr p'"
    by (auto simp: get_new_blocks_def rbind_eq_Inr split: if_splits)
  have "keeps p q" using q(1)
    by (intro keeps_queue) (auto simp: popleft_n_def rbind_eq_Inr Let_def split: if_splits)
  moreover have "keeps q p'" by (rule keeps_rfold[OF q(2)]) (rule keeps_take_block)
  ultimately show ?thesis by (rule keeps_trans)
qed

lemma keeps_touch_one: "touch_one r p = Inr p' \<Longrightarrow> keeps p p'"
  by (intro keeps_queue)
    (auto simp: touch_one_def queue_remove_def rbind_eq_Inr incr_ref_def upd_block_def Let_def split: if_splits option.splits)

lemma keeps_touch: "touch rs p = Inr p' \<Longrightarrow> keeps p p'"
  unfolding touch_def by (erule keeps_rfold) (rule keeps_touch_one)

lemma keeps_decr: "keeps p (fold decr_ref rs p)"
proof (induction rs arbitrary: p)
  case (Cons r rs)
  have "keeps p (decr_ref r p)" by (simp add: decr_ref_def)
  then show ?case using keeps_trans[OF _ Cons] by simp
qed simp

lemma keeps_append_n: "append_n bs p = Inr p' \<Longrightarrow> keeps p p'"
  by (intro keeps_queue) (auto simp: append_n_def Let_def split: if_splits option.splits prod.splits)

lemma keeps_free_blocks: "free_blocks rs p = Inr p' \<Longrightarrow> keeps p p'"
  unfolding free_blocks_def Let_def by (rule keeps_trans[OF keeps_decr keeps_append_n])

lemma keeps_cache_loop: "cache_loop hs msk g i rs p nh = Inr (p', nh') \<Longrightarrow> keeps p p'"
proof (induction rs arbitrary: i p nh)
  case (Cons r rs)
  show ?case
  proof (cases "skip_block p msk i r")
    case True
    then show ?thesis using Cons by simp
  next
    case False
    then obtain key b where k: "set_block_hash key (store p r) = Inr b"
      "cache_loop hs msk g (i + 1) rs ((upd_block r (\<lambda>_. b) p)\<lparr>cached_map := map_insert key r (store (upd_block r (\<lambda>_. b) p)) (cached_map p)\<rparr>)
        (nh @ [maybe_convert_block_hash (use_int_hashes p) (hs ! i)]) = Inr (p', nh')"
      using Cons.prems by (auto simp: rbind_eq_Inr Let_def split: if_splits)
    have "keeps p ((upd_block r (\<lambda>_. b) p)\<lparr>cached_map := c\<rparr>)" for c by (simp add: keeps_def upd_block_def)
    then show ?thesis using Cons.IH[OF k(2)] by (rule keeps_trans)
  qed
qed simp

lemma keeps_cache_full_blocks:
  assumes "cache_full_blocks sha r bs nc nf bsz g msk p = Inr p'"
  shows "keeps p p'"
proof (cases "nc < nf")
  case True
  then obtain hs q nh es where q: "cache_loop hs msk g 0 (take (nf - nc) (drop nc bs)) p [] = Inr (q, nh)"
    "p' = q \<or> p' = q\<lparr>kv_event_queue := es\<rparr>"
    using assms by (auto simp: cache_full_blocks_def Let_def rbind_eq_Inr split: if_splits)
  then show ?thesis using keeps_cache_loop[OF q(1)] by (auto simp: keeps_def)
next
  case False
  then show ?thesis using assms by (simp add: cache_full_blocks_def)
qed

lemma keeps_new_blocks: "sm_allocate_new_blocks i t m p = Inr (new, m', p') \<Longrightarrow> keeps p p'"
  by (auto simp: sm_allocate_new_blocks_def Let_def rbind_eq_Inr split: if_splits dest: keeps_get_new_blocks)

lemma keeps_get_new_blocks_int: "get_new_blocks_int n p = Inr (rs, p') \<Longrightarrow> keeps p p'"
  by (auto simp: get_new_blocks_int_def split: if_splits dest: keeps_get_new_blocks)

lemma keeps_new_computed:
  assumes "sm_allocate_new_computed_blocks i bs l e m p = Inr (m', p')"
  shows "keeps p p'"
  using assms unfolding sm_allocate_new_computed_blocks_def Let_def
  by (auto simp: rbind_eq_Inr split: if_splits dest!: keeps_touch keeps_get_new_blocks_int intro: keeps_trans)

lemma keeps_cache_sm: "sm_cache_blocks sha r n m p = Inr (m', p') \<Longrightarrow> keeps p p'"
  by (auto simp: sm_cache_blocks_def Let_def rbind_eq_Inr split: if_splits dest: keeps_cache_full_blocks)

lemma keeps_free_sm: "sm_free i m p = Inr (m', p') \<Longrightarrow> keeps p p'"
  by (auto simp: sm_free_def rbind_eq_Inr dest: keeps_free_blocks)

section \<open>Operations on the manager\<close>

definition km_static :: "kv_manager \<Rightarrow> kv_manager \<Rightarrow> bool" where
  "km_static k k' \<longleftrightarrow> km_max_model_len k' = km_max_model_len k \<and> km_dcp k' = km_dcp k \<and> km_pcp k' = km_pcp k
     \<and> km_eagle_groups k' = km_eagle_groups k \<and> km_log_stats k' = km_log_stats k \<and> km_stats k' = km_stats k"

lemma keeps_km: "keeps k k' \<Longrightarrow> km_managers k' = km_managers k \<and> km_static k k'"
  by (cases k, cases k') (simp add: keeps_def km_static_def block_pool.defs)

text \<open>The manager after an operation on the blocks of request \<open>i\<close>.\<close>

definition kv_next :: "string \<Rightarrow> kv_manager \<Rightarrow> single_manager \<Rightarrow> kv_manager \<Rightarrow> single_manager \<Rightarrow> nat list \<Rightarrow> bool" where
  "kv_next i k m k' m' xs' \<longleftrightarrow> kv_inv k' m' xs' \<and> same_config k k' \<and> frame i m m' \<and> km_static k k'"

lemma kv_invD:
  assumes "kv_inv k m xs"
  shows "km_managers k = [m]" "sm_inv m k xs" "1 \<le> km_dcp k" "1 \<le> km_pcp k"
    "enable_caching k \<Longrightarrow> sm_block_size m = hash_block_size k"
    "enable_caching k \<Longrightarrow> sm_block_size m = unitary_block_size (sm_spec m) (km_dcp k) (km_pcp k)"
  using assms by (auto simp: kv_inv_def)

lemma kv_next_trans [trans]: "kv_next i k m k1 m1 ys \<Longrightarrow> kv_next i k1 m1 k2 m2 zs \<Longrightarrow> kv_next i k m k2 m2 zs"
  unfolding kv_next_def km_static_def using same_config_trans frame_trans by auto

lemma kv_nextI:
  assumes "kv_inv k m xs" and "sm_inv m' k1 xs'" "same_config k k1" "frame i m m'" "keeps k k1"
  shows "kv_next i k m (k1\<lparr>km_managers := [m']\<rparr>) m' xs'"
  using assms keeps_km[OF assms(5)]
  by (auto simp: kv_next_def kv_inv_def km_static_def frame_def same_sm_def same_config_def)

lemma km_new_blocks:
  assumes inv: "kv_inv k m xs" and n: "nat (ceil_blocks t m - int (length (blocks_of i m))) \<le> length xs" (is "?n \<le> _")
  shows "\<exists>k' m'. allocate_new_blocks i t k = Inr ([map Blk (take ?n xs)], k') \<and> kv_next i k m k' m' (drop ?n xs)
    \<and> blocks_of i m' = blocks_of i m @ map Blk (take ?n xs) \<and> num_cached_block m' = num_cached_block m"
proof -
  obtain m' k1 where r: "sm_allocate_new_blocks i t m k = Inr (map Blk (take ?n xs), m', k1)" "sm_inv m' k1 (drop ?n xs)"
    "same_config k k1" "frame i m m'" "blocks_of i m' = blocks_of i m @ map Blk (take ?n xs)" "num_cached_block m' = num_cached_block m"
    using new_blocks_spec[OF kv_invD(2)[OF inv] n] by blast
  have "kv_next i k m (k1\<lparr>km_managers := [m']\<rparr>) m' (drop ?n xs)"
    by (rule kv_nextI[OF inv r(2,3,4) keeps_new_blocks[OF r(1)]])
  then show ?thesis using r kv_invD(1)[OF inv] by (simp add: allocate_new_blocks_def) blast
qed

lemma km_new_computed:
  assumes inv: "kv_inv k m xs" and "hit_ok k bs" "blocks_of i m = []" "\<not> has_key (num_cached_block m) i" "enable_caching k \<or> bs = []"
    and "num_external > 0 \<Longrightarrow> int (length bs) \<le> ceil_blocks (num_local + num_external) m"
  defines "ys \<equiv> filter (\<lambda>b. b \<notin> set bs) xs" and "e \<equiv> external_blocks num_local num_external (length bs) m"
  assumes "e \<le> length ys"
  shows "\<exists>k' m'. allocate_new_computed_blocks i [map Blk bs] num_local num_external k = Inr k' \<and> kv_next i k m k' m' (drop e ys)
    \<and> blocks_of i m' = map Blk bs @ map Blk (take e ys)"
proof -
  obtain m' k1 where r: "sm_allocate_new_computed_blocks i (map Blk bs) num_local num_external m k = Inr (m', k1)"
    "sm_inv m' k1 (drop e ys)" "same_config k k1" "frame i m m'" "blocks_of i m' = map Blk bs @ map Blk (take e ys)"
    using new_computed_spec[OF kv_invD(2)[OF inv] assms(2-6)] assms(9) unfolding ys_def e_def by blast
  have "kv_next i k m (k1\<lparr>km_managers := [m']\<rparr>) m' (drop e ys)"
    by (rule kv_nextI[OF inv r(2,3,4) keeps_new_computed[OF r(1)]])
  then show ?thesis using r kv_invD(1)[OF inv] by (simp add: allocate_new_computed_blocks_def) blast
qed

lemma km_cache:
  assumes inv: "kv_inv k m xs" and "enable_caching k" "0 \<le> n" and "n div sm_block_size m \<le> int (length (blocks_of (request_id r) m))"
    "n div sm_block_size m \<le> int (length (block_hashes r))"
  shows "\<exists>k' m'. co_cache_blocks sha r n k = Inr k' \<and> kv_next (request_id r) k m k' m' xs \<and> blocks_of (request_id r) m' = blocks_of (request_id r) m"
proof -
  obtain m' k1 where r: "sm_cache_blocks sha r n m k = Inr (m', k1)" "sm_inv m' k1 xs" "same_config k k1" "frame (request_id r) m m'"
    "blocks_of (request_id r) m' = blocks_of (request_id r) m"
    using cache_sm_spec[OF kv_invD(2)[OF inv] assms(2) kv_invD(5)[OF inv assms(2)] assms(3-5)] by blast
  have "kv_next (request_id r) k m (k1\<lparr>km_managers := [m']\<rparr>) m' xs"
    by (rule kv_nextI[OF inv r(2,3,4) keeps_cache_sm[OF r(1)]])
  then show ?thesis using r kv_invD(1)[OF inv] by (simp add: co_cache_blocks_def with_managers_def) blast
qed

lemma km_free_spec:
  assumes inv: "kv_inv k m xs"
  shows "\<exists>k' m'. co_free i k = Inr k' \<and> blocks_of i m' = [] \<and> \<not> has_key (num_cached_block m') i \<and> cached_map k' = cached_map k
    \<and> kv_next i k m k' m' (xs @ filter (\<lambda>b. held m b = 1) (map (\<lambda>r. case r of Blk b \<Rightarrow> b) (rev (blocks_of i m))))"
proof -
  let ?ys = "xs @ filter (\<lambda>b. held m b = 1) (map (\<lambda>r. case r of Blk b \<Rightarrow> b) (rev (blocks_of i m)))"
  obtain m' k1 where r: "sm_free i m k = Inr (m', k1)" "sm_inv m' k1 ?ys" "same_config k k1" "frame i m m'"
    "blocks_of i m' = []" "\<not> has_key (num_cached_block m') i" "cached_map k1 = cached_map k"
    using free_sm_spec[OF kv_invD(2)[OF inv], of i] by blast
  have "kv_next i k m (k1\<lparr>km_managers := [m']\<rparr>) m' ?ys" by (rule kv_nextI[OF inv r(2,3,4) keeps_free_sm[OF r(1)]])
  then show ?thesis using r kv_invD(1)[OF inv] by (simp add: co_free_def with_managers_def) fastforce
qed

section \<open>Slot allocation\<close>

lemma ceil_mono: "0 < b \<Longrightarrow> s \<le> t \<Longrightarrow> - (s div - b) \<le> - (t div - (b::int))"
  using zdiv_mono1[of "- t" "- s" b] by (simp add: div_minus_right)

lemma div_le_ceil: "0 < b \<Longrightarrow> s \<le> t \<Longrightarrow> s div b \<le> - (t div - (b::int))"
proof -
  assume b: "0 < b" "s \<le> t"
  have "(- t) div b * b \<le> - t" using b(1) by (simp add: minus_mod_eq_div_mult [symmetric])
  then have "t \<le> - (- t div b) * b" by simp
  then have "s \<le> - (- t div b) * b" using b(2) by linarith
  then have "s div b \<le> (- (- t div b) * b) div b" using b(1) by (rule zdiv_mono1)
  also have "\<dots> = - (- t div b)" using b(1) by (intro nonzero_mult_div_cancel_right) simp
  finally show ?thesis by (simp add: div_minus_right)
qed

lemma count_le_ceil: "0 < b \<Longrightarrow> n * b \<le> t \<Longrightarrow> n \<le> - (t div - (b::int))"
  using div_le_ceil[of b "n * b" t] by simp

definition slot_demand :: "single_manager \<Rightarrow> nat list \<Rightarrow> string \<Rightarrow> nat list \<Rightarrow> int \<Rightarrow> nat" where
  "slot_demand m xs i bs t =
     nat (ceil_blocks t m - int (length bs + length (blocks_of i m))) + length (filter (\<lambda>b. b \<in> set xs) bs)"

lemma demand_kv:
  assumes inv: "kv_inv k m xs" and hit: "hit_ok k bs" and "has_key (num_cached_block m) i \<Longrightarrow> bs = []"
  shows "get_num_blocks_to_allocate i t [map Blk bs] c cap k = Inr (int (slot_demand m xs i bs t))"
proof -
  have "\<forall>b \<in> set bs. live k b" using hit by (simp add: hit_ok_def)
  note ev = evictable_iff[OF sm_invD(1)[OF kv_invD(2)[OF inv]] this]
  have "sm_get_num_blocks_to_allocate i t (map Blk bs) c cap m k = Inr (int (slot_demand m xs i bs t))"
    using demand_spec[OF kv_invD(2)[OF inv], of i "map Blk bs" t c cap] assms(3) by (simp add: ev slot_demand_def)
  then show ?thesis using kv_invD(1)[OF inv] by (simp add: get_num_blocks_to_allocate_def)
qed

lemma remove_skipped_kv:
  assumes inv: "kv_inv k m xs"
  shows "co_remove_skipped_blocks i n k = Inr k"
proof -
  have "sm_remove_skipped_blocks i n m k = Inr (m, k)"
    using sm_full[OF kv_invD(2)[OF inv]] by (simp add: sm_remove_skipped_blocks_def)
  moreover have "k\<lparr>km_managers := [m]\<rparr> = k" using kv_invD(1)[OF inv] by (cases k) simp
  ultimately show ?thesis using kv_invD(1)[OF inv] by (simp add: co_remove_skipped_blocks_def with_managers_def)
qed

text \<open>A request that fits the model and, with prefix caching, has the hashes of its full blocks.\<close>

definition request_ok :: "'r request_scheme \<Rightarrow> kv_manager \<Rightarrow> single_manager \<Rightarrow> bool" where
  "request_ok r k m \<longleftrightarrow> 0 \<le> num_computed_tokens r \<and> num_tokens r \<le> km_max_model_len k
     \<and> (enable_caching k \<longrightarrow> num_tokens r div sm_block_size m \<le> int (length (block_hashes r)))"

lemma cache_allocated_spec:
  assumes inv: "kv_inv k m xs" and ok: "request_ok r k m" and "0 \<le> main"
    and len: "ceil_blocks (min main (km_max_model_len k)) m \<le> int (length (blocks_of (request_id r) m))"
  shows "\<exists>k' m'. cache_allocated sha r main delay news k = Inr (Some (create_kv_cache_blocks news), k')
    \<and> kv_next (request_id r) k m k' m' xs \<and> blocks_of (request_id r) m' = blocks_of (request_id r) m"
proof (cases "\<not> enable_caching k \<or> delay")
  case True
  have "kv_next (request_id r) k m k m xs" using inv by (simp add: kv_next_def km_static_def)
  then show ?thesis using True by (auto simp: cache_allocated_def)
next
  case False
  have b: "0 < sm_block_size m" by (rule sm_inv_config[OF kv_invD(2)[OF inv]])
  let ?n = "min main (num_tokens r)"
  have "0 \<le> ?n" using assms(3) by (simp add: num_tokens_def)
  moreover have "?n div sm_block_size m \<le> int (length (blocks_of (request_id r) m))"
    using div_le_ceil[OF b, of ?n "min main (km_max_model_len k)"] ok len unfolding request_ok_def by linarith
  moreover have "?n div sm_block_size m \<le> int (length (block_hashes r))"
    using zdiv_mono1[of ?n "num_tokens r", OF _ b] ok False by (simp add: request_ok_def)
  ultimately obtain k' m' where "co_cache_blocks sha r ?n k = Inr k'" "kv_next (request_id r) k m k' m' xs"
    "blocks_of (request_id r) m' = blocks_of (request_id r) m"
    using km_cache[OF inv, of ?n r sha] False by blast
  then show ?thesis using False by (auto simp: cache_allocated_def)
qed

lemma filter_split_length:
  assumes "distinct bs" "distinct xs"
  shows "length (filter (\<lambda>b. b \<notin> set bs) xs) + length (filter (\<lambda>b. b \<in> set xs) bs) = length xs"
proof -
  have "length (filter (\<lambda>b. b \<in> set xs) bs) = card (set xs \<inter> set bs)"
    using assms(1) by (metis distinct_card distinct_filter set_filter inf_commute Collect_conj_eq Collect_mem_eq)
  moreover have "length (filter (\<lambda>b. b \<in> set bs) xs) = card (set xs \<inter> set bs)"
    using assms(2) by (metis distinct_card distinct_filter set_filter Collect_conj_eq Collect_mem_eq)
  ultimately show ?thesis using sum_length_filter_compl[of "\<lambda>b. b \<in> set bs" xs] by simp
qed

text \<open>The arguments of an allocation: new work, hits only for a request that holds nothing yet.\<close>

definition slots_of :: "'r request_scheme \<Rightarrow> int \<Rightarrow> int \<Rightarrow> int \<Rightarrow> int \<Rightarrow> kv_manager \<Rightarrow> int" where
  "slots_of r num_new num_new_computed lookahead external k =
     min (num_computed_tokens r + num_new_computed + external + num_new + lookahead) (km_max_model_len k)"

definition args_ok :: "'r request_scheme \<Rightarrow> int \<Rightarrow> int \<Rightarrow> kv_blocks \<Rightarrow> int \<Rightarrow> int \<Rightarrow> nat list \<Rightarrow> kv_manager \<Rightarrow> single_manager \<Rightarrow> bool" where
  "args_ok r num_new num_new_computed hits lookahead external bs k m \<longleftrightarrow> request_ok r k m
     \<and> 0 \<le> num_new \<and> 0 \<le> external \<and> 0 < num_new + external \<and> 0 \<le> lookahead \<and> 0 \<le> num_new_computed
     \<and> num_computed_tokens r + num_new_computed + external \<le> km_max_model_len k
     \<and> int (length bs) * sm_block_size m \<le> num_new_computed
     \<and> kv_blocks_of 1 hits = [map Blk bs] \<and> hit_ok k bs \<and> (enable_caching k \<or> bs = [])
     \<and> (hits \<noteq> NoBlocks \<or> 0 < external \<longrightarrow> blocks_of (request_id r) m = [] \<and> \<not> has_key (num_cached_block m) (request_id r))"

text \<open>First stage: the hits and the blocks of the externally computed tokens.\<close>

lemma adopt_stage:
  assumes inv: "kv_inv k m xs" and a: "args_ok r num_new nnc hits la ext bs k m"
    and fit: "slot_demand m xs (request_id r) bs (slots_of r num_new nnc la ext k) \<le> length xs"
  defines "ys \<equiv> filter (\<lambda>b. b \<notin> set bs) xs"
    and "e \<equiv> external_blocks (num_computed_tokens r + nnc) ext (length bs) m"
  shows "\<exists>k' m'. (if hits \<noteq> NoBlocks \<or> ext > 0
       then allocate_new_computed_blocks (request_id r) [map Blk bs] (num_computed_tokens r + nnc) ext k else Inr k) = Inr k'
    \<and> kv_next (request_id r) k m k' m' (drop e ys)
    \<and> blocks_of (request_id r) m' = blocks_of (request_id r) m @ map Blk (bs @ take e ys)
    \<and> int (length bs + length (blocks_of (request_id r) m) + e) \<le> max (ceil_blocks (slots_of r num_new nnc la ext k) m)
         (int (length bs + length (blocks_of (request_id r) m)))
    \<and> e \<le> length ys"
proof -
  let ?i = "request_id r" and ?local = "num_computed_tokens r + nnc" and ?slots = "slots_of r num_new nnc la ext k"
  have b: "0 < sm_block_size m" by (rule sm_inv_config[OF kv_invD(2)[OF inv]])
  have len: "length ys + length (filter (\<lambda>b. b \<in> set xs) bs) = length xs" unfolding ys_def
    by (rule filter_split_length)
      (use a fq_repr_distinct[OF pool_invD(1)[OF sm_invD(1)[OF kv_invD(2)[OF inv]]]] in \<open>auto simp: args_ok_def hit_ok_def\<close>)
  show ?thesis
  proof (cases "hits \<noteq> NoBlocks \<or> ext > 0")
    case True
    then have none: "blocks_of ?i m = []" "\<not> has_key (num_cached_block m) ?i" using a by (auto simp: args_ok_def)
    have le: "ceil_blocks (?local + ext) m \<le> ceil_blocks ?slots m"
      by (rule ceil_mono[OF b]) (use a in \<open>auto simp: args_ok_def slots_of_def\<close>)
    have nn: "int (length bs) \<le> ceil_blocks (?local + ext) m"
      by (rule count_le_ceil[OF b]) (use a in \<open>auto simp: args_ok_def request_ok_def\<close>)
    have e: "e \<le> nat (ceil_blocks ?slots m - int (length bs))" using le by (auto simp: e_def external_blocks_def)
    then have "e \<le> length ys" using fit len none by (simp add: slot_demand_def)
    then obtain k' m' where "allocate_new_computed_blocks ?i [map Blk bs] ?local ext k = Inr k'" "kv_next ?i k m k' m' (drop e ys)"
      "blocks_of ?i m' = map Blk bs @ map Blk (take e ys)"
      using km_new_computed[OF inv _ none, of bs ext ?local] a nn unfolding ys_def e_def args_ok_def by blast
    then show ?thesis using True none e nn le \<open>e \<le> length ys\<close> by auto
  next
    case False
    then have "bs = []" "e = 0" using a by (auto simp: args_ok_def e_def external_blocks_def)
    then have "ys = xs" by (simp add: ys_def)
    moreover have "kv_next ?i k m k m xs" using inv by (simp add: kv_next_def km_static_def)
    ultimately show ?thesis using False \<open>bs = []\<close> \<open>e = 0\<close> by auto
  qed
qed

lemma allocate_slots_spec:
  assumes inv: "kv_inv k m xs" and a: "args_ok r num_new nnc hits la ext bs k m"
  defines "d \<equiv> slot_demand m xs (request_id r) bs (slots_of r num_new nnc la ext k)"
    and "full \<equiv> slot_demand m xs (request_id r) bs (min (num_tokens r) (km_max_model_len k))"
  shows "if (full_fit \<and> length xs < full) \<or> length xs < d
    then allocate_slots sha r num_new nnc hits la ext delay full_fit k = Inr (None, k)
    else \<exists>news k' m' ys new. allocate_slots sha r num_new nnc hits la ext delay full_fit k = Inr (Some news, k')
       \<and> kv_next (request_id r) k m k' m' ys \<and> length ys + d = length xs
       \<and> blocks_of (request_id r) m' = blocks_of (request_id r) m @ map Blk (bs @ new) \<and> set new \<subseteq> set xs
       \<and> length new + length (filter (\<lambda>b. b \<in> set xs) bs) = d
       \<and> ceil_blocks (slots_of r num_new nnc la ext k) m \<le> int (length (blocks_of (request_id r) m'))
       \<and> (ext = 0 \<longrightarrow> news = create_kv_cache_blocks [map Blk new])"
proof -
  let ?i = "request_id r" and ?slots = "slots_of r num_new nnc la ext k"
  let ?local = "num_computed_tokens r + nnc"
  have nb: "kv_blocks_of (length (km_managers k)) hits = [map Blk bs]" using a kv_invD(1)[OF inv] by (simp add: args_ok_def)
  have hb: "has_key (num_cached_block m) ?i \<Longrightarrow> bs = []" using a by (cases hits) (auto simp: args_ok_def)
  have hit: "hit_ok k bs" using a by (simp add: args_ok_def)
  have min1: "min (?local + ext) (km_max_model_len k) = ?local + ext" using a by (simp add: args_ok_def)
  have z: "(num_new = 0 \<and> ext = 0) = False" using a by (auto simp: args_ok_def)
  have free: "get_num_free_blocks k = int (length xs)" by (rule free_count[OF sm_invD(1)[OF kv_invD(2)[OF inv]]])
  have sl: "min (?local + ext + num_new + la) (km_max_model_len k) = ?slots" by (simp add: slots_of_def add_ac)
  have b: "0 < sm_block_size m" by (rule sm_inv_config[OF kv_invD(2)[OF inv]])
  have dem: "get_num_blocks_to_allocate ?i t [map Blk bs] c cap k = Inr (int (slot_demand m xs ?i bs t))" for t c cap
    by (rule demand_kv[OF inv hit]) (rule hb)
  have run: "allocate_slots sha r num_new nnc hits la ext delay full_fit k =
    (if (full_fit \<and> length xs < full) \<or> length xs < d then Inr (None, k)
     else rbind (if hits \<noteq> NoBlocks \<or> ext > 0 then allocate_new_computed_blocks ?i [map Blk bs] ?local ext k else Inr k) (\<lambda>k.
          rbind (allocate_new_blocks ?i ?slots k) (\<lambda>(news, k). cache_allocated sha r (?local + ext + num_new) delay news k)))"
    unfolding allocate_slots_def z if_False Let_def nb min1 sl dem remove_skipped_kv[OF inv] free d_def full_def
    by (simp add: not_less dem free)
  show ?thesis
  proof (cases "(full_fit \<and> length xs < full) \<or> length xs < d")
    case True
    then show ?thesis using run z by auto
  next
    case False
    let ?ys = "filter (\<lambda>b. b \<notin> set bs) xs" and ?e = "external_blocks ?local ext (length bs) m"
    obtain k1 m1 where k1: "(if hits \<noteq> NoBlocks \<or> ext > 0 then allocate_new_computed_blocks ?i [map Blk bs] ?local ext k else Inr k) = Inr k1"
      "kv_next ?i k m k1 m1 (drop ?e ?ys)" "blocks_of ?i m1 = blocks_of ?i m @ map Blk (bs @ take ?e ?ys)"
      "int (length bs + length (blocks_of ?i m) + ?e) \<le> max (ceil_blocks ?slots m) (int (length bs + length (blocks_of ?i m)))"
      "?e \<le> length ?ys"
      using adopt_stage[OF inv a] False unfolding d_def by (auto simp: not_less)
    have i1: "kv_inv k1 m1 (drop ?e ?ys)" and bs1: "sm_block_size m1 = sm_block_size m" "km_max_model_len k1 = km_max_model_len k"
      using k1(2) by (auto simp: kv_next_def frame_def same_sm_def km_static_def)
    have len: "length ?ys + length (filter (\<lambda>b. b \<in> set xs) bs) = length xs"
      by (rule filter_split_length)
        (use a fq_repr_distinct[OF pool_invD(1)[OF sm_invD(1)[OF kv_invD(2)[OF inv]]]] in \<open>auto simp: args_ok_def hit_ok_def\<close>)
    let ?n = "nat (ceil_blocks ?slots m1 - int (length (blocks_of ?i m1)))"
    have l1: "length (blocks_of ?i m1) = length (blocks_of ?i m) + length bs + ?e" using k1(3,5) by simp
    have n: "?e + ?n + length (filter (\<lambda>b. b \<in> set xs) bs) = d"
      using k1(4) l1 bs1 by (auto simp: d_def slot_demand_def max_def split: if_splits)
    have fits: "?n \<le> length (drop ?e ?ys)" using n len False k1(5) by auto
    obtain k2 m2 where k2: "allocate_new_blocks ?i ?slots k1 = Inr ([map Blk (take ?n (drop ?e ?ys))], k2)"
      "kv_next ?i k1 m1 k2 m2 (drop ?n (drop ?e ?ys))" "blocks_of ?i m2 = blocks_of ?i m1 @ map Blk (take ?n (drop ?e ?ys))"
      using km_new_blocks[OF i1 fits] by blast
    let ?main = "?local + ext + num_new"
    have i2: "kv_next ?i k m k2 m2 (drop ?n (drop ?e ?ys))" by (rule kv_next_trans[OF k1(2) k2(2)])
    have s2: "sm_block_size m2 = sm_block_size m" "km_max_model_len k2 = km_max_model_len k" "enable_caching k2 = enable_caching k"
      using i2 by (auto simp: kv_next_def frame_def same_sm_def km_static_def same_config_def)
    have big: "ceil_blocks ?slots m \<le> int (length (blocks_of ?i m2))" using k2(3) fits bs1 by simp
    have "ceil_blocks (min ?main (km_max_model_len k2)) m2 \<le> ceil_blocks ?slots m" unfolding s2
      by (rule ceil_mono[OF b]) (use a in \<open>auto simp: args_ok_def slots_of_def\<close>)
    then have "ceil_blocks (min ?main (km_max_model_len k2)) m2 \<le> int (length (blocks_of ?i m2))" using big by linarith
    moreover have "request_ok r k2 m2" "0 \<le> ?main" using a s2 by (auto simp: args_ok_def request_ok_def)
    ultimately obtain k3 m3 where k3: "cache_allocated sha r ?main delay [map Blk (take ?n (drop ?e ?ys))] k2 =
        Inr (Some (create_kv_cache_blocks [map Blk (take ?n (drop ?e ?ys))]), k3)"
      "kv_next ?i k2 m2 k3 m3 (drop ?n (drop ?e ?ys))" "blocks_of ?i m3 = blocks_of ?i m2"
      using cache_allocated_spec[of k2 m2] i2 unfolding kv_next_def by blast
    let ?new = "take ?e ?ys @ take ?n (drop ?e ?ys)"
    have f1: "kv_next ?i k m k3 m3 (drop ?n (drop ?e ?ys))" by (rule kv_next_trans[OF i2 k3(2)])
    have f2: "length (drop ?n (drop ?e ?ys)) + d = length xs" using n len fits k1(5) by simp
    have f3: "blocks_of ?i m3 = blocks_of ?i m @ map Blk (bs @ ?new)" using k1(3) k2(3) k3(3) by simp
    have f4: "length ?new + length (filter (\<lambda>b. b \<in> set xs) bs) = d" using n fits k1(5) by simp
    have f5: "set ?new \<subseteq> set xs" by (auto dest!: in_set_takeD in_set_dropD)
    have f6: "allocate_slots sha r num_new nnc hits la ext delay full_fit k =
        Inr (Some (create_kv_cache_blocks [map Blk (take ?n (drop ?e ?ys))]), k3)"
      using run False k1(1) k2(1) k3(1) by simp
    have f7: "ceil_blocks ?slots m \<le> int (length (blocks_of ?i m3))" using big k3(3) by simp
    have "take ?e ?ys = []" if "ext = 0" using that by (simp add: external_blocks_def)
    then have f8: "ext = 0 \<longrightarrow> create_kv_cache_blocks [map Blk (take ?n (drop ?e ?ys))] = create_kv_cache_blocks [map Blk ?new]"
      by (metis append_Nil)
    show ?thesis unfolding if_not_P[OF False] by (intro exI conjI) (rule f6 f1 f2 f3 f5 f4 f7 f8)+
  qed
qed

section \<open>The prefix-cache lookup\<close>

lemma holds_inj: "holds_block p h g b \<Longrightarrow> holds_block p h' g b \<Longrightarrow> h = h'"
  by (auto simp: holds_block_def make_block_hash_with_group_id_def rbind_def split: sum.splits)

lemma holds_hashed: "holds_block p h g b \<Longrightarrow> live p b \<and> block_hash (store p (Blk b)) \<noteq> None"
  by (auto simp: holds_block_def split: sum.splits)

lemma chain_hits_spec:
  assumes inv: "pool_inv p xs"
  shows "\<exists>bs. chain_hits hs [0] p = Inr (map (\<lambda>b. [Blk b]) bs) \<and> length bs \<le> length hs
    \<and> (\<forall>j < length bs. holds_block p (hs ! j) 0 (bs ! j)) \<and> (length bs < length hs \<longrightarrow> (\<forall>b. \<not> holds_block p (hs ! length bs) 0 b))"
proof (induction hs)
  case (Cons h hs)
  obtain bs where bs: "chain_hits hs [0] p = Inr (map (\<lambda>b. [Blk b]) bs)" "length bs \<le> length hs"
    "\<forall>j < length bs. holds_block p (hs ! j) 0 (bs ! j)" "length bs < length hs \<longrightarrow> (\<forall>b. \<not> holds_block p (hs ! length bs) 0 b)"
    using Cons by blast
  consider (hit) c where "get_cached_block h [0] p = Inr (Some [Blk c])" "holds_block p h 0 c"
    | (miss) "get_cached_block h [0] p = Inr None" "\<forall>b. \<not> holds_block p h 0 b"
    using get_cached_block_spec[OF inv, of "[0]" h] by (auto simp: list_all2_Cons1)
  then show ?case
  proof cases
    case hit
    have "\<forall>j < length (c # bs). holds_block p ((h # hs) ! j) 0 ((c # bs) ! j)"
      using bs(3) hit(2) by (auto simp: less_Suc_eq_0_disj)
    then show ?thesis using hit bs by (intro exI[of _ "c # bs"]) simp
  next
    case miss
    then show ?thesis by (intro exI[of _ "[]"]) simp
  qed
qed simp

lemma hits_ok:
  assumes "\<forall>j < length bs. holds_block p (hs ! j) 0 (bs ! j)" and "distinct hs" "length bs \<le> length hs"
  shows "hit_ok p bs"
proof -
  have "i = j" if "i < length bs" "j < length bs" "bs ! i = bs ! j" for i j
  proof -
    have "holds_block p (hs ! i) 0 (bs ! i)" "holds_block p (hs ! j) 0 (bs ! i)"
      using assms(1)[rule_format, OF that(1)] assms(1)[rule_format, OF that(2)] that(3) by simp_all
    then have "hs ! i = hs ! j" by (rule holds_inj)
    then show ?thesis using nth_eq_iff_index_eq[OF assms(2), of i j] that assms(3) by simp
  qed
  then have "distinct bs" by (auto simp: distinct_conv_nth)
  moreover have "live p b \<and> block_hash (store p (Blk b)) \<noteq> None" if "b \<in> set bs" for b
    using that assms(1) holds_hashed by (metis in_set_conv_nth)
  ultimately show ?thesis by (simp add: hit_ok_def)
qed

lemma full_dispatch:
  "is_full_attention s \<Longrightarrow> sm_find_longest_cache_hit s hs n gs bsz e al dcp pcp p = full_find_longest_cache_hit hs n gs bsz e al dcp pcp p"
  by (cases s) simp_all

lemma columns_one: "columns (Suc 0) (map (\<lambda>b. [Blk b]) bs) = [map Blk bs]"
  by (simp add: columns_def)

text \<open>Without the drop for draft models, the hit ends at the length limit, at the end of the hashes or at a miss.\<close>

definition hit_spec :: "bytes list \<Rightarrow> int \<Rightarrow> bool \<Rightarrow> 'z block_pool_scheme \<Rightarrow> int \<Rightarrow> nat list \<Rightarrow> bool" where
  "hit_spec hs n eagle p bsz bs \<longleftrightarrow> (\<forall>j < length bs. holds_block p (hs ! j) 0 (bs ! j)) \<and> length bs \<le> length hs
     \<and> int (length bs) * bsz \<le> n
     \<and> (eagle \<or> int (length bs) = n div bsz \<or> length bs = length hs \<or> (\<forall>b. \<not> holds_block p (hs ! length bs) 0 b))"

lemma div_mult_le_int: "0 < b \<Longrightarrow> c \<le> n div b \<Longrightarrow> c * b \<le> (n::int)"
  using mult_right_mono[of c "n div b" b] pos_mod_sign[of b n] div_mult_mod_eq[of n b] by linarith

lemma parallel_block_size:
  assumes "1 \<le> dcp" "1 \<le> pcp"
  shows "(if dcp * pcp > 1 then spec_block_size s * (dcp * pcp) else spec_block_size s) = unitary_block_size s dcp pcp"
proof (cases "dcp = 1 \<or> pcp = 1")
  case True
  then show ?thesis using assms by (auto simp: unitary_block_size_def)
next
  case False
  then have "1 < dcp" "1 < pcp" using assms by auto
  moreover from this have "1 < dcp * pcp" by (simp add: less_1_mult)
  ultimately show ?thesis by (simp add: unitary_block_size_def)
qed

lemma find_longest_spec:
  assumes inv: "kv_inv k m xs" and caching: "enable_caching k" and n: "0 \<le> n"
  shows "\<exists>bs. find_longest_cache_hit hs n k = Inr ([map Blk bs], int (length bs) * sm_block_size m)
    \<and> hit_spec hs n (0 \<in> set (km_eagle_groups k)) k (sm_block_size m) bs"
proof -
  let ?b = "sm_block_size m" and ?eagle = "0 \<in> set (km_eagle_groups k)"
  have b: "0 < ?b" and full: "is_full_attention (spec_kind (sm_spec m))"
    using sm_inv_config[OF kv_invD(2)[OF inv]] sm_full[OF kv_invD(2)[OF inv]] by auto
  have bs: "(if km_dcp k * km_pcp k > 1 then spec_block_size (sm_spec m) * (km_dcp k * km_pcp k) else spec_block_size (sm_spec m)) = ?b"
    unfolding kv_invD(6)[OF inv caching] by (rule parallel_block_size[OF kv_invD(3,4)[OF inv]])
  obtain cs where cs: "chain_hits (take (nat (n div ?b)) hs) [0] k = Inr (map (\<lambda>b. [Blk b]) cs)"
    "length cs \<le> length (take (nat (n div ?b)) hs)" "\<forall>j < length cs. holds_block k (take (nat (n div ?b)) hs ! j) 0 (cs ! j)"
    "length cs < length (take (nat (n div ?b)) hs) \<longrightarrow> (\<forall>b. \<not> holds_block k (take (nat (n div ?b)) hs ! length cs) 0 b)"
    using chain_hits_spec[OF sm_invD(1)[OF kv_invD(2)[OF inv]]] by blast
  let ?bs = "if ?eagle then butlast cs else cs"
  have nn: "0 \<le> n div ?b" using b n by (simp add: pos_imp_zdiv_nonneg_iff)
  have len: "int (length ?bs) \<le> n div ?b" "length ?bs \<le> length hs" using cs(2) nn by auto
  have drop_last: "(if ?eagle then butlast (map (\<lambda>b. [Blk b]) cs) else map (\<lambda>b. [Blk b]) cs) = map (\<lambda>b. [Blk b]) ?bs"
    by (simp add: map_butlast)
  have trim: "trim_aligned ?b ?b hits = Inr hits" for hits :: "ref list list" by (subst trim_aligned.simps) simp
  have div0: "floordiv n ?b = Inr (n div ?b)" "(n div ?b < 0) = False" using b nn by (auto simp: floordiv_def)
  have "full_find_longest_cache_hit hs n [0] (spec_block_size (sm_spec m)) ?eagle ?b (km_dcp k) (km_pcp k) k = Inr [map Blk ?bs]"
    unfolding full_find_longest_cache_hit_def Let_def bs div0 rbind_simps if_False cs(1) drop_last trim
    by (simp add: columns_one trim drop_last)
  then have "find_longest_cache_hit hs n k = Inr ([map Blk ?bs], int (length ?bs) * ?b)"
    using caching kv_invD(1)[OF inv] unfolding find_longest_cache_hit_def Let_def
    by (simp add: full_dispatch[OF full] kv_invD(6)[OF inv caching, symmetric])
  moreover have "\<forall>j < length ?bs. holds_block k (hs ! j) 0 (?bs ! j)" using cs(2,3) by (auto simp: nth_butlast)
  moreover have "int (length ?bs) * ?b \<le> n"
    using div_mult_le_int[OF b len(1)] .
  moreover have "?eagle \<or> int (length ?bs) = n div ?b \<or> length ?bs = length hs \<or> (\<forall>b. \<not> holds_block k (hs ! length ?bs) 0 b)"
    using cs(2,4) nn by (cases "length cs < length (take (nat (n div ?b)) hs)") (auto simp: min_def split: if_splits)
  ultimately show ?thesis using len(2) by (intro exI[of _ ?bs]) (simp add: hit_spec_def)
qed

end
