(* ===== verification/Pool_Reach.thy ===== *)
theory Pool_Reach
  imports Block_Pool "HOL-Library.Multiset"
begin

text \<open>
  The block pool under its clients: the cache events as a description of the prefix cache, the pools
  reachable by the operations of \<^verbatim>\<open>BlockPool\<close>, and the properties of the pool.
\<close>

section \<open>The event stream\<close>

text \<open>
  A consumer of the cache events keeps the multiset of cached blocks, by hash and group, that the
  events describe (a hash can be cached in several blocks of a group).
\<close>

type_synonym adverts = "(external_block_hash \<times> int) multiset"

fun replay_event :: "kv_cache_event \<Rightarrow> adverts \<Rightarrow> adverts" where
  "replay_event (BlockStored e) M = M + mset (map (\<lambda>h. (h, bs_group_idx e)) (bs_block_hashes e))"
| "replay_event (BlockRemoved e) M = M - mset (map (\<lambda>h. (h, br_group_idx e)) (br_block_hashes e))"
| "replay_event AllBlocksCleared M = {#}"

definition advert :: "bool \<Rightarrow> bytes \<Rightarrow> external_block_hash \<times> int" where
  "advert use_int key = (maybe_convert_block_hash use_int (get_block_hash key), get_group_id key)"

definition hashed :: "'z block_pool_scheme \<Rightarrow> nat set" where
  "hashed p = {b. live p b \<and> block_hash (store p (Blk b)) \<noteq> None}"

definition advertised :: "'z block_pool_scheme \<Rightarrow> adverts" where
  "advertised p = image_mset (\<lambda>b. advert (use_int_hashes p) (the (block_hash (store p (Blk b))))) (mset_set (hashed p))"

lemma finite_hashed [simp]: "finite (hashed p)"
  by (rule finite_subset[of _ "{..<num_gpu_blocks p}"]) (auto simp: hashed_def live_def)

lemma advertised_cong:
  assumes "same_config p p'" and "\<And>b. live p b \<Longrightarrow> block_hash (store p' (Blk b)) = block_hash (store p (Blk b))"
  shows "advertised p' = advertised p"
proof -
  have "hashed p' = hashed p" using assms by (auto simp: hashed_def same_configD)
  moreover have "block_hash (store p' (Blk b)) = block_hash (store p (Blk b))" if "b \<in> hashed p" for b
    using that assms(2) by (simp add: hashed_def)
  ultimately show ?thesis
    by (auto simp: advertised_def same_configD[OF assms(1)] intro!: image_mset_cong)
qed

lemma advertised_drop:
  assumes "same_config p p'" and "live p b" "block_hash (store p (Blk b)) = Some h"
    and "block_hash (store p' (Blk b)) = None"
    and "\<And>c. c \<noteq> b \<Longrightarrow> block_hash (store p' (Blk c)) = block_hash (store p (Blk c))"
  shows "advertised p = add_mset (advert (use_int_hashes p) h) (advertised p')"
proof -
  have h: "hashed p = insert b (hashed p')" "b \<notin> hashed p'"
    using assms by (auto simp: hashed_def same_configD) (metis option.distinct(1))+
  moreover have "block_hash (store p' (Blk c)) = block_hash (store p (Blk c))" if "c \<in> hashed p'" for c
    using that h(2) assms(5)[of c] by blast
  ultimately show ?thesis
    using assms(3) by (auto simp: advertised_def same_configD[OF assms(1)] intro!: image_mset_cong)
qed

lemma advertised_add:
  assumes c: "same_config p p'" and A: "distinct (map fst A)" "\<forall>(b, j) \<in> set A. live p b \<and> block_hash (store p (Blk b)) = None"
    and h: "\<And>b. block_hash (store p' (Blk b)) = (case map_of A b of Some j \<Rightarrow> Some (key j) | None \<Rightarrow> block_hash (store p (Blk b)))"
  shows "advertised p' = advertised p + mset (map (\<lambda>(b, j). advert (use_int_hashes p) (key j)) A)"
proof -
  let ?f = "\<lambda>b. advert (use_int_hashes p) (the (block_hash (store p' (Blk b))))"
  have H: "hashed p' = hashed p \<union> set (map fst A)" "hashed p \<inter> set (map fst A) = {}"
    using A(2) h by (force simp: hashed_def same_configD[OF c] map_of_eq_None_iff split: option.splits)+
  have "image_mset ?f (mset_set (hashed p)) = advertised p"
    unfolding advertised_def
  proof (rule image_mset_cong)
    fix b assume "b \<in># mset_set (hashed p)"
    then have "b \<notin> fst ` set A" using H(2) by auto
    then show "?f b = advert (use_int_hashes p) (the (block_hash (store p (Blk b))))"
      using h[of b] by (simp add: map_of_eq_None_iff[THEN iffD2])
  qed
  moreover have "image_mset ?f (mset_set (set (map fst A))) = mset (map (\<lambda>(b, j). advert (use_int_hashes p) (key j)) A)"
  proof -
    have "map ?f (map fst A) = map (\<lambda>(b, j). advert (use_int_hashes p) (key j)) A"
      using A(1) h by auto
    then show ?thesis using A(1) by (metis mset_map mset_set_set)
  qed
  ultimately show ?thesis
    using H by (simp add: advertised_def same_configD[OF c] mset_set_Union)
qed

text \<open>What an operation emits describes what it does to the cache.\<close>

definition emits :: "'z block_pool_scheme \<Rightarrow> 'z block_pool_scheme \<Rightarrow> bool" where
  "emits p p' \<longleftrightarrow> same_config p p' \<and> (\<exists>es. kv_event_queue p' = kv_event_queue p @ es
     \<and> (enable_kv_cache_events p \<longrightarrow> advertised p' = fold replay_event es (advertised p)))"

lemma emits_refl [simp, intro]: "emits p p"
  unfolding emits_def by (auto intro: exI[of _ "[]"])

lemma emits_trans [trans]: "emits a b \<Longrightarrow> emits b c \<Longrightarrow> emits a c"
  unfolding emits_def by (auto simp: same_configD intro: same_config_trans)

lemma emits_same_hashes:
  assumes "same_config p p'" and "kv_event_queue p' = kv_event_queue p"
    and "\<And>b. live p b \<Longrightarrow> block_hash (store p' (Blk b)) = block_hash (store p (Blk b))"
  shows "emits p p'"
  using assms advertised_cong[OF assms(1,3)] unfolding emits_def by (auto intro: exI[of _ "[]"])

lemma same_cache_emits: "same_cache p p' \<Longrightarrow> emits p p'"
  by (rule emits_same_hashes) (auto simp: same_cache_def)

lemma evict_emits:
  assumes inv: "pool_inv_upto F p xs" and b: "b < num_gpu_blocks p"
  shows "emits p (snd (maybe_evict_cached_block (Blk b) p))"
proof -
  obtain q where q: "snd (maybe_evict_cached_block (Blk b) p) = q" "same_config p q"
    "store q = (store p)(Blk b := (store p (Blk b))\<lparr>block_hash := None\<rparr>)"
    "kv_event_queue q = kv_event_queue p @ evict_events p b"
    using evict_spec[OF inv b] by auto
  show ?thesis
  proof (cases "block_hash (store p (Blk b))")
    case None
    then have "emits p q"
      by (intro emits_same_hashes) (use q in \<open>auto simp: evict_events_def\<close>)
    then show ?thesis by (simp add: q(1))
  next
    case (Some h)
    have lv: "live p b"
      using pool_invD(3)[OF inv] Some b by (cases b) (auto simp: cache_ok_def live_def)
    have "advertised p = add_mset (advert (use_int_hashes p) h) (advertised q)"
      by (rule advertised_drop[OF q(2) lv Some]) (simp_all add: q(3))
    then have "emits p q"
      using q(2,4) Some by (auto simp: emits_def evict_events_def removed_event_def advert_def)
    then show ?thesis by (simp add: q(1))
  qed
qed

lemma take_block_emits:
  assumes inv: "pool_inv_upto F p xs" and b: "b \<in> F" and run: "take_block (Blk b) p = Inr p'"
  shows "emits p p'"
proof -
  note f = counts_in_hand[OF inv b]
  define q where "q = (if enable_caching p then snd (maybe_evict_cached_block (Blk b) p) else p)"
  have "emits p q" using evict_emits[OF inv f(2)] by (simp add: q_def)
  moreover have "p' = incr_ref (Blk b) q"
    using run by (auto simp: take_block_def Let_def q_def rbind_eq_Inr split: if_splits)
  moreover have "emits q (incr_ref (Blk b) q)"
    unfolding incr_ref_set by (rule same_cache_emits) simp
  ultimately show ?thesis using emits_trans by blast
qed

lemma take_blocks_emits:
  assumes "pool_inv_upto F p xs" and "distinct ys" and "set ys \<subseteq> F"
    and "rfold take_block (map Blk ys) p = Inr p'"
  shows "emits p p'"
  using assms
proof (induction ys arbitrary: F p)
  case Nil
  then show ?case by simp
next
  case (Cons b ys)
  obtain p1 where p1: "take_block (Blk b) p = Inr p1" "pool_inv_upto (F - {b}) p1 xs"
    using take_block_spec[of F p xs b] Cons.prems by auto
  have "emits p p1" by (rule take_block_emits[OF Cons.prems(1) _ p1(1)]) (use Cons.prems(3) in simp)
  also have "emits p1 p'" by (rule Cons.IH[OF p1(2)]) (use Cons.prems p1(1) in auto)
  finally show ?case .
qed

lemma get_new_blocks_emits:
  assumes inv: "pool_inv p xs" and run: "get_new_blocks n p = Inr (rs, p')"
  shows "emits p p'"
proof -
  have n: "n \<le> length xs"
    using run fq_repr_num[OF pool_invD(1)[OF inv]]
    by (auto simp: get_new_blocks_def get_num_free_blocks_def split: if_splits)
  have d: "distinct xs" using pool_invD(1)[OF inv] by (rule fq_repr_distinct)
  obtain p1 where p1: "popleft_n n p = Inr (map Blk (take n xs), p1)" "fq_next p p1 (drop n xs)"
    using popleft_n_repr[of p "take n xs" "drop n xs"] pool_invD(1)[OF inv] n by auto
  have "set (drop n xs) \<union> set (take n xs) = set xs" by (metis append_take_drop_id set_append Un_commute)
  moreover have "set (drop n xs) \<inter> set (take n xs) = {}"
    using d by (metis append_take_drop_id distinct_append inf_commute)
  ultimately have i1: "pool_inv_upto (set (take n xs)) p1 (drop n xs)" "same_cache p p1"
    using pool_inv_fq_next[OF inv p1(2), of "set (take n xs)"] by (auto simp: same_cache_def same_dataD)
  have "emits p p1" by (rule same_cache_emits[OF i1(2)])
  also have "emits p1 p'"
    by (rule take_blocks_emits[OF i1(1), of "take n xs"]) (use d run p1(1) n in \<open>auto simp: get_new_blocks_def rbind_eq_Inr split: if_splits\<close>)
  finally show ?thesis .
qed

lemma evict_blocks_emits:
  assumes "pool_inv p xs" and "evict_blocks ids p = Inr p'"
  shows "pool_inv p' xs \<and> emits p p'"
  using assms
proof (induction ids arbitrary: p)
  case Nil
  then show ?case by (simp add: evict_blocks_def)
next
  case (Cons i ids)
  let ?q = "snd (maybe_evict_cached_block (Blk i) p)"
  have i: "i < num_gpu_blocks p" and run: "evict_blocks ids ?q = Inr p'"
    using Cons.prems(2) by (auto simp: evict_blocks_def evict_one_def rbind_eq_Inr)
  have "pool_inv ?q xs" using evict_spec[OF Cons.prems(1) i] by auto
  then show ?case using Cons.IH[OF _ run] evict_emits[OF Cons.prems(1) i] emits_trans by blast
qed

lemma cache_full_blocks_emits:
  assumes inv: "pool_inv p xs" and bs: "\<forall>b \<in> set bs. b < num_gpu_blocks p" and g: "0 \<le> g" "g < 2 ^ 32"
    and run: "cache_full_blocks sha r (map Blk bs) nc nf bsz g msk p = Inr p'"
  shows "pool_inv p' xs \<and> emits p p'"
proof (cases "nc < nf")
  case True
  let ?A = "to_cache msk 0 (take (nf - nc) (drop nc bs))"
  let ?hs = "drop nc (block_hashes_at (hash_block_size p) bsz (block_hashes r))"
  obtain gb where gb: "to_bytes4 g = Inr gb" using g by (simp add: to_bytes4_def)
  have key: "advert u (h @ gb) = (maybe_convert_block_hash u h, g)" for u h
    using hash_key_roundtrip[of h g "h @ gb"] gb by (simp add: advert_def make_block_hash_with_group_id_def)
  obtain q es where q: "pool_inv p' xs" "caches ?hs gb ?A p q" "p' = q\<lparr>kv_event_queue := kv_event_queue p @ es\<rparr>"
    "distinct (map fst ?A)" "\<forall>(b, j) \<in> set ?A. block_hash (store p (Blk b)) = None"
    "if enable_kv_cache_events p
       then \<exists>e. es = [BlockStored e] \<and> bs_group_idx e = g \<and> bs_block_hashes e =
              map (\<lambda>(b, j). maybe_convert_block_hash (use_int_hashes p) (?hs ! j)) ?A
       else es = []"
    using cache_full_blocks_sound[OF inv bs gb run True] by blast
  have "live p b" if "(b, j) \<in> set ?A" for b j
    using to_cache_range[OF that] bs by (auto simp: live_def dest: in_set_takeD in_set_dropD)
  then have A: "\<forall>(b, j) \<in> set ?A. live p b \<and> block_hash (store p (Blk b)) = None" using q(5) by auto
  have c: "same_config p p'" using q(2,3) by (simp add: caches_def)
  have "advertised p' = advertised p + mset (map (\<lambda>(b, j). advert (use_int_hashes p) (?hs ! j @ gb)) ?A)"
    by (rule advertised_add[OF c q(4) A]) (use q(2,3) in \<open>simp add: caches_def\<close>)
  then have "emits p p'"
    using c q(3,6) by (auto simp: emits_def key case_prod_unfold comp_def split: if_splits)
  then show ?thesis using q(1) by blast
next
  case False
  then show ?thesis using run inv by (simp add: cache_full_blocks_def)
qed

lemma reset_emits:
  assumes inv: "pool_inv p xs"
  shows "pool_inv (snd (reset_prefix_cache p)) xs \<and> emits p (snd (reset_prefix_cache p))"
proof -
  have "hashed (cleared p) = {}"
    using cleared_inv(2)[OF inv] cleared_frame(1)[of p] by (auto simp: hashed_def live_def same_configD)
  then have "hashed ((cleared p)\<lparr>kv_event_queue := e\<rparr>) = {}" for e by (simp add: hashed_def)
  then have "advertised ((cleared p)\<lparr>kv_event_queue := e\<rparr>) = {#}" for e by (simp add: advertised_def)
  then show ?thesis
    using cleared_inv(1)[OF inv] cleared_frame(1,3)[of p] inv
    by (auto simp: reset_prefix_cache_spec[OF inv] emits_def)
qed

section \<open>Reachable pools\<close>

text \<open>
  The pool under its clients: blocks are allocated, shared, freed by an owner, cached when full,
  evicted on request, and events are collected. \<open>d\<close> holds the events delivered so far.
\<close>

inductive pool_reach :: "(bytes list \<Rightarrow> bytes) \<Rightarrow> block_pool \<Rightarrow> kv_cache_event list \<Rightarrow> bool"
  for sha :: "bytes list \<Rightarrow> bytes" where
  init: "BlockPool n caching hsz events use_int = Inr p \<Longrightarrow> pool_reach sha p []"
| alloc: "pool_reach sha p d \<Longrightarrow> get_new_blocks n p = Inr (rs, p') \<Longrightarrow> pool_reach sha p' d"
| share: "pool_reach sha p d \<Longrightarrow> \<forall>b \<in> set bs. b < num_gpu_blocks p \<Longrightarrow> touch (map Blk bs) p = Inr p' \<Longrightarrow>
    pool_reach sha p' d"
| free: "pool_reach sha p d \<Longrightarrow> distinct (filter (\<lambda>b. b \<noteq> 0) bs) \<Longrightarrow>
    \<forall>b \<in> set bs. b < num_gpu_blocks p \<and> (0 < b \<longrightarrow> 1 \<le> ref_cnt (store p (Blk b))) \<Longrightarrow>
    free_blocks (map Blk bs) p = Inr p' \<Longrightarrow> pool_reach sha p' d"
| cache: "pool_reach sha p d \<Longrightarrow> \<forall>b \<in> set bs. b < num_gpu_blocks p \<Longrightarrow> 0 \<le> g \<Longrightarrow> g < 2 ^ 32 \<Longrightarrow>
    cache_full_blocks sha (r :: request) (map Blk bs) nc nf bsz g msk p = Inr p' \<Longrightarrow> pool_reach sha p' d"
| evict: "pool_reach sha p d \<Longrightarrow> evict_blocks ids p = Inr p' \<Longrightarrow> pool_reach sha p' d"
| reset: "pool_reach sha p d \<Longrightarrow> reset_prefix_cache p = (ok, p') \<Longrightarrow> pool_reach sha p' d"
| deliver: "pool_reach sha p d \<Longrightarrow> take_events p = (es, p') \<Longrightarrow> pool_reach sha p' (d @ es)"

definition history_ok :: "block_pool \<Rightarrow> kv_cache_event list \<Rightarrow> bool" where
  "history_ok p d \<longleftrightarrow> (enable_kv_cache_events p \<longrightarrow>
     fold replay_event (d @ kv_event_queue p) {#} = advertised p)"

lemma history_emits: "history_ok p d \<Longrightarrow> emits p p' \<Longrightarrow> history_ok p' d"
  by (auto simp: history_ok_def emits_def same_configD)

lemma BlockPool_positive: "BlockPool n caching hsz events use_int = Inr p \<Longrightarrow> 0 < n"
  by (auto simp: BlockPool_def rbind_eq_Inr)

lemma pool_reach_inv:
  assumes "pool_reach sha p d"
  shows "(\<exists>xs. pool_inv p xs) \<and> history_ok p d"
  using assms
proof (induction rule: pool_reach.induct)
  case (init n caching hsz events use_int p)
  have "pool_inv p [1..<n]" "kv_event_queue p = []" "\<forall>b. block_hash (store p (Blk b)) = None"
    using BlockPool_spec[OF BlockPool_positive[OF init], of caching hsz events use_int] init by auto
  then show ?case by (auto simp: history_ok_def advertised_def hashed_def)
next
  case (alloc p d n rs p')
  then obtain xs where xs: "pool_inv p xs" by blast
  moreover have "n \<le> length xs"
    using alloc.hyps(2) get_new_blocks_too_many[OF xs] by (metis Inl_Inr_False not_le)
  ultimately have "pool_inv p' (drop n xs)"
    using get_new_blocks_spec[OF xs, of n] alloc.hyps(2) by auto
  then show ?case
    using get_new_blocks_emits[OF xs alloc.hyps(2)] alloc.IH history_emits by blast
next
  case (share p d bs p')
  then obtain xs where xs: "pool_inv p xs" "history_ok p d" by blast
  have "pool_inv p' (filter (\<lambda>b. b \<notin> set bs) xs)" "same_cache p p'"
    using touch_spec[OF xs(1) share.hyps(2)] share.hyps(3) by auto
  then show ?case using history_emits[OF xs(2) same_cache_emits] by blast
next
  case (free p d bs p')
  then obtain xs where xs: "pool_inv p xs" "history_ok p d" by blast
  have "\<exists>ys. pool_inv p' ys" "same_cache p p'"
    using free_blocks_spec[OF xs(1) free.hyps(2,3)] free.hyps(4) by auto
  then show ?case using history_emits[OF xs(2) same_cache_emits] by blast
next
  case (cache p d bs g r nc nf bsz msk p')
  then obtain xs where xs: "pool_inv p xs" "history_ok p d" by blast
  from cache_full_blocks_emits[OF xs(1) cache.hyps(2-5)] show ?case
    using history_emits[OF xs(2)] by blast
next
  case (evict p d ids p')
  then obtain xs where xs: "pool_inv p xs" "history_ok p d" by blast
  from evict_blocks_emits[OF xs(1) evict.hyps(2)] show ?case
    using history_emits[OF xs(2)] by blast
next
  case (reset p d ok p')
  then obtain xs where xs: "pool_inv p xs" "history_ok p d" by blast
  have "p' = snd (reset_prefix_cache p)" using reset.hyps(2) by simp
  then show ?case using reset_emits[OF xs(1)] history_emits[OF xs(2)] by blast
next
  case (deliver p d es p')
  then show ?case
    by (auto simp: take_events_def history_ok_def advertised_def hashed_def split: if_splits)
qed

inductive_cases pool_reachE: "pool_reach sha p d"

lemma cache_loop_index:
  assumes "pool_inv p xs" and "\<forall>b \<in> set bs. b < num_gpu_blocks p"
    and "cache_loop hs msk g i (map Blk bs) p nh = Inr res" and "(b, j) \<in> set (to_cache msk i bs)"
  shows "j < length hs"
  using assms
proof (induction bs arbitrary: i p nh)
  case Nil
  then show ?case by simp
next
  case (Cons c bs)
  have c: "c < num_gpu_blocks p" using Cons.prems(2) by simp
  show ?case
  proof (cases "c = 0 \<or> (case msk of None \<Rightarrow> False | Some m \<Rightarrow> \<not> m ! i)")
    case True
    then show ?thesis
      using Cons.IH[OF Cons.prems(1), of "i + 1" nh] Cons.prems(2-4)
        skip_block_iff[OF Cons.prems(1) c, of msk i] by simp
  next
    case False
    have h: "block_hash (store p (Blk c)) = None" "i < length hs"
      using Cons.prems(3) skip_block_iff[OF Cons.prems(1) c, of msk i] False by (auto split: if_splits)
    obtain gb where gb: "to_bytes4 g = Inr gb"
      using Cons.prems(3) skip_block_iff[OF Cons.prems(1) c, of msk i] False h
      by (auto simp: make_block_hash_with_group_id_def rbind_eq_Inr)
    let ?q = "cache_block (hs ! i @ gb) (Blk c) p"
    have "pool_inv ?q xs" using cache_block_inv[OF Cons.prems(1) _ h(1)] c False by (simp add: live_def)
    from Cons.IH[OF this, of "i + 1"] Cons.prems(2-4) h(2) False
      cache_loop_step[OF Cons.prems(1) gb c False h, of "map Blk bs" nh]
    show ?thesis by auto
  qed
qed

lemma cache_index_bound:
  assumes "pool_inv p xs" and "\<forall>b \<in> set bs. b < num_gpu_blocks p"
    and "cache_full_blocks sha r (map Blk bs) nc nf bsz g msk p = Inr p'" and "nc < nf"
    and "(b, j) \<in> set (to_cache msk 0 (take (nf - nc) (drop nc bs)))"
  shows "j < length (drop nc (block_hashes_at (hash_block_size p) bsz (block_hashes r)))"
proof -
  obtain v hs' res where v: "hash_view (hash_block_size p) bsz (block_hashes r) = Inr v"
    "bh_from v nc = Inr hs'"
    and loop: "cache_loop hs' msk g 0 (map Blk (take (nf - nc) (drop nc bs))) p [] = Inr res"
    using assms(3,4)
    by (auto simp: cache_full_blocks_def rbind_eq_Inr hash_view_def take_map drop_map Let_def
        split: prod.splits)
  have "\<forall>b \<in> set (take (nf - nc) (drop nc bs)). b < num_gpu_blocks p"
    using assms(2) by (meson in_set_dropD in_set_takeD)
  from cache_loop_index[OF assms(1) this loop assms(5)] show ?thesis
    using hash_view_from[OF v] by simp
qed

section \<open>Properties\<close>

text \<open>
  C9: whatever its clients did, a pool is well formed: a block is in the free list exactly when it
  is not the null block and nobody references it, the prefix cache holds exactly the blocks that
  carry a hash, and the free and the referenced blocks add up to all blocks but the null block.
\<close>

theorem pool_well_formed:
  assumes "pool_reach sha p d"
  shows "\<exists>xs. pool_inv p xs
    \<and> num_free_blocks p + int (card {b. live p b \<and> 0 < ref_cnt (store p (Blk b))}) = int (num_gpu_blocks p) - 1"
  using pool_reach_inv[OF assms] pool_conservation by blast

text \<open>
  C11: a consumer that replays the cache events delivered so far and those still queued obtains
  exactly the multiset of cached blocks (by external hash and group).
\<close>

theorem events_describe_cache:
  assumes "pool_reach sha p d" and "enable_kv_cache_events p"
  shows "fold replay_event (d @ kv_event_queue p) {#} = advertised p"
  using pool_reach_inv[OF assms(1)] assms(2) by (simp add: history_ok_def)

text \<open>
  C12: allocation hands out the \<open>n\<close> least recently freed blocks in order, raises \<^verbatim>\<open>ValueError\<close> exactly
  when there are fewer, gives each block one owner and (with caching) removes its hash from the
  prefix cache, and changes no other block.
\<close>

theorem get_new_blocks_correct:
  assumes "pool_inv p xs"
  shows "if length xs < n
    then get_new_blocks n p = Inl (ValueError ''Cannot get free blocks from the pool'')
    else \<exists>p'. get_new_blocks n p = Inr (map Blk (take n xs), p') \<and> pool_inv p' (drop n xs)
      \<and> (\<forall>b \<in> set (take n xs). ref_cnt (store p (Blk b)) = 0 \<and> ref_cnt (store p' (Blk b)) = 1
            \<and> b \<noteq> 0 \<and> (enable_caching p \<longrightarrow> block_hash (store p' (Blk b)) = None))
      \<and> (\<forall>b. b \<notin> set (take n xs) \<longrightarrow> ref_cnt (store p' (Blk b)) = ref_cnt (store p (Blk b))
            \<and> block_hash (store p' (Blk b)) = block_hash (store p (Blk b)))"
proof (cases "length xs < n")
  case True
  then show ?thesis using get_new_blocks_too_many[OF assms] by simp
next
  case False
  then obtain p' where p': "get_new_blocks n p = Inr (map Blk (take n xs), p')" "pool_inv p' (drop n xs)"
    "\<forall>b. data_of (store p' (Blk b)) = data_of (if b \<in> set (take n xs)
          then taken (enable_caching p) (store p (Blk b)) else store p (Blk b))"
    using get_new_blocks_spec[OF assms, of n] by auto
  have "ref_cnt (store p (Blk b)) = 0 \<and> b \<noteq> 0" if "b \<in> set (take n xs)" for b
    using pool_inv_free[OF assms, of b] in_set_takeD[OF that] by (simp add: live_def)
  then show ?thesis using False p' by (auto simp: data_of_def taken_def)
qed

text \<open>
  C13: sharing blocks and freeing them again restores every reference count and the prefix cache;
  the blocks that were free become the most recently freed ones, in the order of the list.
\<close>

theorem touch_free_roundtrip:
  assumes "pool_inv p xs" and "distinct bs" and "\<forall>b \<in> set bs. live p b"
  shows "\<exists>p1 p2. touch (map Blk bs) p = Inr p1 \<and> free_blocks (map Blk bs) p1 = Inr p2
    \<and> pool_inv p2 (filter (\<lambda>b. b \<notin> set bs) xs @ filter (\<lambda>b. b \<in> set xs) bs)
    \<and> cached_map p2 = cached_map p \<and> (\<forall>b. ref_cnt (store p2 (Blk b)) = ref_cnt (store p (Blk b)))"
proof -
  obtain p1 where p1: "touch (map Blk bs) p = Inr p1" "pool_inv p1 (filter (\<lambda>b. b \<notin> set bs) xs)" "same_cache p p1"
    "\<forall>c. ref_cnt (store p1 (Blk c)) = ref_cnt (store p (Blk c)) + int (count_list bs c)"
    using touch_spec[OF assms(1), of bs] assms(3) by (auto simp: live_def)
  have one: "count_list bs b = 1" if "b \<in> set bs" for b
    using assms(2) that by (induction bs) (auto simp: count_list_0_iff)
  have nn: "0 \<le> ref_cnt (store p (Blk b))" if "b \<in> set bs" for b
    using pool_invD(4)[OF assms(1)] assms(3) that by (auto simp: counts_ok_def)
  have "filter (\<lambda>b. b \<noteq> 0 \<and> ref_cnt (store p1 (Blk b)) = 1) bs = filter (\<lambda>b. b \<in> set xs) bs"
    using pool_inv_free[OF assms(1)] assms(3) p1(4) one
    by (intro filter_cong) (auto simp: live_def)
  then show ?thesis
    using free_blocks_spec[OF p1(2), of bs] assms(2,3) p1 one nn same_cacheD(2,5)[OF p1(3)]
    by (auto simp: live_def same_cache_def)
qed

text \<open>
  C14: after caching the full blocks of a request, each of them carries the hash of its position
  under the group, and looking the hash up finds a block with that hash (possibly an older
  duplicate).
\<close>

theorem cached_blocks_found:
  assumes "pool_inv p xs" and "\<forall>b \<in> set bs. b < num_gpu_blocks p" and "0 \<le> g" "g < 2 ^ 32" and "nc < nf"
    and "cache_full_blocks sha r (map Blk bs) nc nf bsz g msk p = Inr p'"
    and "(b, j) \<in> set (to_cache msk 0 (take (nf - nc) (drop nc bs)))"
  defines "h \<equiv> block_hashes_at (hash_block_size p) bsz (block_hashes r) ! (nc + j)"
  shows "holds_block p' h g b \<and> (\<exists>c. get_cached_block h [g] p' = Inr (Some [Blk c]) \<and> holds_block p' h g c)"
proof -
  let ?A = "to_cache msk 0 (take (nf - nc) (drop nc bs))"
  let ?hs = "block_hashes_at (hash_block_size p) bsz (block_hashes r)"
  obtain gb where gb: "to_bytes4 g = Inr gb" using assms(3,4) by (simp add: to_bytes4_def)
  obtain q es where q: "pool_inv p' xs" "caches (drop nc ?hs) gb ?A p q"
    "p' = q\<lparr>kv_event_queue := kv_event_queue p @ es\<rparr>" "distinct (map fst ?A)"
    using cache_full_blocks_sound[OF assms(1,2) gb assms(6,5)] by blast
  have "j < length (drop nc ?hs)"
    by (rule cache_index_bound[OF assms(1,2,6,5,7)])
  then have "drop nc ?hs ! j = h" by (simp add: h_def)
  moreover have "map_of ?A b = Some j" using assms(7) q(4) by simp
  ultimately have "block_hash (store p' (Blk b)) = Some (h @ gb)" using q(2,3) by (simp add: caches_def)
  moreover have "live p' b"
    using to_cache_range[OF assms(7)] assms(2) q(2,3)
    by (auto simp: live_def caches_def same_config_def dest: in_set_takeD in_set_dropD)
  ultimately have "holds_block p' h g b"
    using gb by (simp add: holds_block_def make_block_hash_with_group_id_def)
  then show ?thesis
    using get_cached_block_spec[OF q(1), of "[g]" h] assms(3,4) by (auto simp: list_all2_Cons1)
qed

text \<open>
  C15: looking up a block hash for several groups never raises, returns one block per group that
  holds exactly this hash under this group, and misses only if some group has no such block.
\<close>

theorem get_cached_block_correct:
  assumes "pool_inv p xs" and "\<forall>g \<in> set gs. 0 \<le> g \<and> g < 2 ^ 32"
  shows "(\<exists>bs. get_cached_block h gs p = Inr (Some (map Blk bs)) \<and> list_all2 (holds_block p h) gs bs)
    \<or> (get_cached_block h gs p = Inr None \<and> (\<exists>g \<in> set gs. \<forall>b. \<not> holds_block p h g b))"
  using get_cached_block_spec[OF assms] .

text \<open>
  C16: the frontier observed without touching the pool is what the next allocation does: the ids are
  those of the blocks it returns, in order, and the hashes are those it evicts.
\<close>

theorem peek_predicts_allocation:
  assumes "pool_inv p xs" and "0 \<le> limit" "limit \<le> num_free_blocks p"
  shows "\<exists>bs p'. get_new_blocks (nat limit) p = Inr (map Blk bs, p') \<and>
    peek_free_block_frontier limit p = Inr (map (\<lambda>b. (int b, block_hash (store p (Blk b)))) bs) \<and>
    (enable_caching p \<longrightarrow> hashed p' = hashed p - set bs)"
proof -
  have n: "nat limit \<le> length xs" using assms fq_repr_num[OF pool_invD(1)[OF assms(1)]] by simp
  then obtain p' where p': "get_new_blocks (nat limit) p = Inr (map Blk (take (nat limit) xs), p')" "same_config p p'"
    "\<forall>b. data_of (store p' (Blk b)) = data_of (if b \<in> set (take (nat limit) xs)
          then taken (enable_caching p) (store p (Blk b)) else store p (Blk b))"
    using get_new_blocks_spec[OF assms(1), of "nat limit"] by auto
  have "enable_caching p \<longrightarrow> hashed p' = hashed p - set (take (nat limit) xs)"
    using p'(2,3) by (auto simp: hashed_def same_configD data_of_def taken_def split: if_splits)
  then show ?thesis using p'(1) peek_spec[OF assms(1,2)] by blast
qed

section \<open>A concrete pool\<close>

text \<open>
  A pool of four blocks that allocated two blocks and cached the first under the hash \<open>[7]\<close> of a
  one-block request.
\<close>

definition example_request :: request where
  "example_request = \<lparr>request_id = ''r'', obj_id = 0, req_priority = 0, arrival_time = 0, status = RUNNING,
     max_tokens = 1, num_prompt_tokens = 2, all_token_ids = [5, 6], output_token_ids = [],
     num_computed_tokens = 2, lora_request = None, cache_salt = None, prompt_embeds = None,
     mm_features = [], block_hashes = [[7]], skip_reading_prefix_cache = False, num_preemptions = 0\<rparr>"

lemma example_pool:
  "\<exists>p0 p1 p2. BlockPool 4 True 2 True False = Inr p0 \<and> get_new_blocks 2 p0 = Inr ([Blk 1, Blk 2], p1)
    \<and> cache_full_blocks (\<lambda>_. []) example_request [Blk 1, Blk 2] 0 1 2 0 None p1 = Inr p2
    \<and> pool_inv p0 [1, 2, 3] \<and> pool_inv p1 [3] \<and> pool_inv p2 [3]
    \<and> num_gpu_blocks p0 = 4 \<and> num_gpu_blocks p1 = 4 \<and> num_gpu_blocks p2 = 4
    \<and> hash_block_size p1 = 2 \<and> enable_kv_cache_events p2 \<and> enable_caching p0"
proof -
  have upt: "[1..<4] = [1, 2, 3::nat]" by (simp add: upt_conv_Cons)
  obtain p0 where p0: "BlockPool 4 True 2 True False = Inr p0" "pool_inv p0 [1, 2, 3]" "num_gpu_blocks p0 = 4"
    "enable_caching p0" "hash_block_size p0 = 2" "enable_kv_cache_events p0"
    "\<forall>b. ref_cnt (store p0 (Blk b)) = 0 \<and> block_hash (store p0 (Blk b)) = None"
    using BlockPool_spec[of 4 True 2 True False] upt by auto
  obtain p1 where p1: "get_new_blocks 2 p0 = Inr ([Blk 1, Blk 2], p1)" "pool_inv p1 [3]" "same_config p0 p1"
    "\<forall>b. data_of (store p1 (Blk b)) = data_of (if b \<in> set [1, 2]
          then taken (enable_caching p0) (store p0 (Blk b)) else store p0 (Blk b))"
    using get_new_blocks_spec[OF p0(2), of 2] by (auto simp: numeral_2_eq_2)
  have none: "block_hash (store p1 (Blk b)) = None" for b
    using p1(4)[rule_format, of b] p0(7) by (auto simp: data_of_def taken_def split: if_splits)
  have c1: "num_gpu_blocks p1 = 4" "hash_block_size p1 = 2" "enable_kv_cache_events p1"
    using p0 by (simp_all add: same_configD[OF p1(3)])
  have "\<exists>p2. cache_full_blocks (\<lambda>_. []) example_request (map Blk [1, 2]) 0 1 2 0 None p1 = Inr p2"
    by (rule cache_full_blocks_total[OF p1(2)])
       (simp_all add: c1 none to_bytes4_def example_request_def block_hashes_at_def)
  then obtain p2 where p2: "cache_full_blocks (\<lambda>_. []) example_request (map Blk [1, 2]) 0 1 2 0 None p1 = Inr p2" ..
  have "pool_inv p2 [3] \<and> emits p1 p2"
    by (rule cache_full_blocks_emits[OF p1(2) _ _ _ p2]) (simp_all add: c1)
  moreover from this have "same_config p1 p2" by (simp add: emits_def)
  ultimately show ?thesis using p0 p1 p2 c1 by (auto simp: same_configD)
qed

theorem pool_well_formed_witness:
  "\<exists>p xs. pool_reach (\<lambda>_. []) p [] \<and> num_gpu_blocks p = 4 \<and> pool_inv p xs
    \<and> num_free_blocks p + int (card {b. live p b \<and> 0 < ref_cnt (store p (Blk b))}) = int (num_gpu_blocks p) - 1"
proof -
  obtain p0 p1 where p: "BlockPool 4 True 2 True False = Inr p0" "get_new_blocks 2 p0 = Inr ([Blk 1, Blk 2], p1)"
    "num_gpu_blocks p1 = 4"
    using example_pool by blast
  have r: "pool_reach (\<lambda>_. []) p1 []" by (rule pool_reach.alloc[OF pool_reach.init[OF p(1)] p(2)])
  then show ?thesis using pool_well_formed[OF r] p(3) by blast
qed

lemma example_reach:
  "\<exists>p. pool_reach (\<lambda>_. []) p [] \<and> enable_kv_cache_events p \<and> num_gpu_blocks p = 4"
proof -
  obtain p0 p1 p2 where p: "BlockPool 4 True 2 True False = Inr p0" "get_new_blocks 2 p0 = Inr ([Blk 1, Blk 2], p1)"
    "cache_full_blocks (\<lambda>_. []) example_request [Blk 1, Blk 2] 0 1 2 0 None p1 = Inr p2"
    "num_gpu_blocks p1 = 4" "num_gpu_blocks p2 = 4" "enable_kv_cache_events p2"
    using example_pool by blast
  have "pool_reach (\<lambda>_. []) p1 []" by (rule pool_reach.alloc[OF pool_reach.init[OF p(1)] p(2)])
  then have "pool_reach (\<lambda>_. []) p2 []"
    by (rule pool_reach.cache[of _ _ _ "[1, 2]" 0 example_request 0 1 2 None]) (use p in simp_all)
  then show ?thesis using p by blast
qed

theorem events_describe_cache_witness:
  "\<exists>p. pool_reach (\<lambda>_. []) p [] \<and> enable_kv_cache_events p \<and> num_gpu_blocks p = 4
    \<and> fold replay_event ([] @ kv_event_queue p) {#} = advertised p"
  using example_reach events_describe_cache by blast

theorem get_new_blocks_correct_witness:
  "\<exists>(p :: block_pool) p'. pool_inv p [1, 2, 3] \<and> get_new_blocks 2 p = Inr ([Blk 1, Blk 2], p') \<and> pool_inv p' [3]
    \<and> ref_cnt (store p' (Blk 1)) = 1 \<and> block_hash (store p' (Blk 1)) = None
    \<and> get_new_blocks 5 p = Inl (ValueError ''Cannot get free blocks from the pool'')"
proof -
  obtain p :: block_pool where p: "pool_inv p [1, 2, 3]" "enable_caching p" using example_pool by blast
  show ?thesis
    using get_new_blocks_correct[OF p(1), of 2] get_new_blocks_correct[OF p(1), of 5] p
    by (auto simp: numeral_2_eq_2)
qed

theorem touch_free_roundtrip_witness:
  "\<exists>(p :: block_pool) p1 p2. pool_inv p [1, 2, 3] \<and> touch [Blk 2, Blk 1] p = Inr p1
    \<and> free_blocks [Blk 2, Blk 1] p1 = Inr p2 \<and> pool_inv p2 [3, 2, 1]"
proof -
  obtain p :: block_pool where p: "pool_inv p [1, 2, 3]" "num_gpu_blocks p = 4" using example_pool by blast
  then show ?thesis using touch_free_roundtrip[OF p(1), of "[2, 1]"] by (auto simp: live_def)
qed

theorem cached_blocks_found_witness:
  "\<exists>(p :: block_pool) p'. pool_inv p [3]
    \<and> cache_full_blocks (\<lambda>_. []) example_request [Blk 1, Blk 2] 0 1 2 0 None p = Inr p'
    \<and> holds_block p' [7] 0 1 \<and> (\<exists>c. get_cached_block [7] [0] p' = Inr (Some [Blk c]) \<and> holds_block p' [7] 0 c)"
proof -
  obtain p1 p2 :: block_pool where p: "cache_full_blocks (\<lambda>_. []) example_request [Blk 1, Blk 2] 0 1 2 0 None p1 = Inr p2"
    "pool_inv p1 [3]" "num_gpu_blocks p1 = 4" "hash_block_size p1 = 2"
    using example_pool by blast
  then show ?thesis
    using cached_blocks_found[OF p(2), of "[1, 2]" 0 0 1 "\<lambda>_. []" example_request 2 None p2 1 0]
    by (simp add: block_hashes_at_def example_request_def) blast
qed

theorem get_cached_block_correct_witness:
  "\<exists>(p :: block_pool). pool_inv p [3] \<and>
    ((\<exists>bs. get_cached_block [7] [0] p = Inr (Some (map Blk bs)) \<and> list_all2 (holds_block p [7]) [0] bs)
     \<or> (get_cached_block [7] [0] p = Inr None \<and> (\<exists>g \<in> set [0]. \<forall>b. \<not> holds_block p [7] g b)))"
proof -
  obtain p :: block_pool where p: "pool_inv p [3]" using example_pool by blast
  then show ?thesis using get_cached_block_correct[OF p, of "[0]" "[7]"] by (intro exI[of _ p]) simp
qed

theorem peek_predicts_allocation_witness:
  "\<exists>(p :: block_pool) p' bs. pool_inv p [1, 2, 3] \<and> get_new_blocks 2 p = Inr (map Blk bs, p')
    \<and> peek_free_block_frontier 2 p = Inr (map (\<lambda>b. (int b, block_hash (store p (Blk b)))) bs)
    \<and> hashed p' = hashed p - set bs"
proof -
  obtain p :: block_pool where p: "pool_inv p [1, 2, 3]" "enable_caching p" using example_pool by blast
  have "num_free_blocks p = 3" using fq_repr_num[OF pool_invD(1)[OF p(1)]] by simp
  then show ?thesis using peek_predicts_allocation[OF p(1), of 2] p by auto
qed

end
