(* ===== verification/Kv_Reach.thy ===== *)
theory Kv_Reach
  imports Kv_Alloc Pool_Reach
begin

text \<open>
  The KV cache managers with one full-attention group that are reachable by admitting, growing and
  freeing requests, evicting and resetting the prefix cache, and draining events and block ids; the
  invariant they keep and who holds a block in them.
\<close>

section \<open>The initial manager\<close>

lemma BlockPool_extend_inv:
  "pool_inv_upto F (block_pool.extend p r) xs = pool_inv_upto F p xs" "live (block_pool.extend p r) b = live p b"
  "store (block_pool.extend p r) = store p" "enable_caching (block_pool.extend p r) = enable_caching p"
  "hash_block_size (block_pool.extend p r) = hash_block_size p"
  for p :: block_pool
  by (cases p; simp add: block_pool.defs pool_inv_upto_def fq_repr_def blocks_ok_def cache_ok_def counts_ok_def live_def)+

definition unitary_full :: "kv_config \<Rightarrow> kv_cache_spec \<Rightarrow> bool" where
  "unitary_full c spec \<longleftrightarrow> (\<exists>eagle. kc_groups c = [(spec, eagle)]) \<and> is_full_attention (spec_kind spec)
     \<and> 0 < spec_block_size spec \<and> 1 \<le> kc_dcp c \<and> 1 \<le> kc_pcp c"

lemma full_manager:
  "is_full_attention (spec_kind s) \<Longrightarrow> get_manager_for_kv_cache_spec s mb mml g dcp pcp = Inr (SingleTypeKVCacheManager s g dcp pcp None)"
  by (cases "spec_kind s") (simp_all add: get_manager_for_kv_cache_spec_def)

lemma fresh_manager_inv:
  assumes "pool_inv p xs" "\<forall>b. ref_cnt (store p (Blk b)) = 0" "is_full_attention (spec_kind s)" "0 < spec_block_size s"
    "1 \<le> dcp" "1 \<le> pcp"
  shows "sm_inv (SingleTypeKVCacheManager s 0 dcp pcp None) p xs"
proof -
  have "0 < spec_block_size s * (dcp * pcp)" using assms(4-6) by (simp add: zero_less_mult_iff)
  then show ?thesis using assms
    by (auto simp: sm_inv_def SingleTypeKVCacheManager_def sm_config_ok_def blocks_of_def cached_len_def dict_get_def held_def)
qed

lemma KVCacheManager_start:
  assumes "KVCacheManager c mb = Some (Inr k)" and "unitary_full c spec"
  shows "\<exists>m. kv_inv k m [1..<kc_num_blocks c] \<and> req_to_blocks m = [] \<and> num_cached_block m = []
    \<and> sm_block_size m = unitary_block_size spec (kc_dcp c) (kc_pcp c)
    \<and> num_gpu_blocks k = kc_num_blocks c \<and> km_max_model_len k = kc_max_model_len c"
proof -
  obtain eagle where g: "kc_groups c = [(spec, eagle)]" using assms(2) by (auto simp: unitary_full_def)
  let ?c = "c\<lparr>kc_max_num_batched_tokens := (case mb of None \<Rightarrow> kc_max_model_len c | Some n \<Rightarrow> n)\<rparr>"
  have run: "KVCacheCoordinator ?c = Inr k" and hs: "kc_enable_caching c \<Longrightarrow> kc_hash_block_size c = unitary_block_size spec (kc_dcp c) (kc_pcp c)"
    using assms(1) g by (auto simp: KVCacheManager_def get_kv_cache_coordinator_def UnitaryKVCacheCoordinator_def rbind_eq_Inr split: if_splits)
  let ?m = "SingleTypeKVCacheManager spec 0 (kc_dcp c) (kc_pcp c) None"
  have ms: "make_managers ?c = Inr [?m]"
    using g assms(2) by (simp add: make_managers_def unitary_full_def full_manager enumerate_eq_zip)
  let ?run = "BlockPool (kc_num_blocks c) (kc_enable_caching c) (kc_hash_block_size c) (kc_events c) (kc_use_int c)"
  obtain p where p: "?run = Inr p"
    and e: "k = block_pool.extend p \<lparr>km_managers = [?m], km_max_model_len = kc_max_model_len c, km_dcp = kc_dcp c, km_pcp = kc_pcp c,
          km_eagle_groups = eagle_group_ids ?c, km_log_stats = kc_log_stats c,
          km_stats = (if kc_log_stats c then Some PrefixCacheStats else None)\<rparr>"
    using run unfolding KVCacheCoordinator_def ms rbind_simps by (simp add: rbind_eq_Inr eq_commute[of k]) blast
  have k: "km_managers k = [?m]" "km_dcp k = kc_dcp c" "km_pcp k = kc_pcp c" by (simp_all add: e block_pool.defs)
  have q: "num_gpu_blocks p = kc_num_blocks c" "pool_inv p [1..<kc_num_blocks c]" "enable_caching p = kc_enable_caching c" "hash_block_size p = kc_hash_block_size c"
    "\<forall>b. ref_cnt (store p (Blk b)) = 0"
    using BlockPool_spec[OF BlockPool_positive[OF p], of "kc_enable_caching c" "kc_hash_block_size c" "kc_events c" "kc_use_int c"] p
    by auto
  have s: "is_full_attention (spec_kind spec)" "0 < spec_block_size spec" "1 \<le> kc_dcp c" "1 \<le> kc_pcp c"
    using assms(2) by (auto simp: unitary_full_def)
  have "sm_inv ?m k [1..<kc_num_blocks c]"
    by (rule fresh_manager_inv) (use q s in \<open>simp_all add: e BlockPool_extend_inv\<close>)
  moreover have size: "sm_block_size ?m = unitary_block_size spec (kc_dcp c) (kc_pcp c)"
    using parallel_block_size[OF s(3,4), of spec] by (simp add: SingleTypeKVCacheManager_def)
  ultimately have "kv_inv k ?m [1..<kc_num_blocks c]"
    using k(1-3) s hs q(3,4) by (auto simp: kv_inv_def e BlockPool_extend_inv SingleTypeKVCacheManager_def)
  moreover have "num_gpu_blocks k = kc_num_blocks c" "km_max_model_len k = kc_max_model_len c"
    using q(1) by (simp_all add: e block_pool.defs)
  ultimately show ?thesis using size by (intro exI[of _ ?m]) (simp add: SingleTypeKVCacheManager_def)
qed

lemma KVCacheManager_stats: "KVCacheManager c mb = Some (Inr k) \<Longrightarrow> km_log_stats k \<Longrightarrow> km_stats k \<noteq> None"
  by (cases "kc_groups c") (auto simp: KVCacheManager_def get_kv_cache_coordinator_def UnitaryKVCacheCoordinator_def KVCacheCoordinator_def
      rbind_eq_Inr block_pool.defs split: if_splits)

section \<open>Reachable managers\<close>

definition kv_ok :: "kv_manager \<Rightarrow> single_manager \<Rightarrow> nat list \<Rightarrow> bool" where
  "kv_ok k m xs \<longleftrightarrow> kv_inv k m xs \<and> (km_log_stats k \<longrightarrow> km_stats k \<noteq> None)"

text \<open>Operations that leave the blocks of every request alone and only drop hashes.\<close>

lemma sm_inv_pool:
  assumes inv: "sm_inv m p xs" and pool: "pool_inv p' xs" "same_config p p'"
    and refs: "\<And>b. live p b \<Longrightarrow> ref_cnt (store p' (Blk b)) = ref_cnt (store p (Blk b))"
    and hash: "\<And>b. live p b \<Longrightarrow> block_hash (store p (Blk b)) = None \<Longrightarrow> block_hash (store p' (Blk b)) = None"
  shows "sm_inv m p' xs"
proof -
  have lv: "live p' = live p" and caching: "enable_caching p' = enable_caching p"
    using pool(2) by (auto simp: live_def same_config_def fun_eq_iff)
  have "list_ok p' (blocks_of i m) (cached_len i m)" for i
  proof -
    note ok = sm_invD(5)[OF inv, of i]
    have "block_hash (store p' r) = None \<and> ref_cnt (store p' r) = 1"
      if "enable_caching p" and r: "r \<in> set (drop (cached_len i m) (blocks_of i m))" for r
    proof -
      obtain b where "r = Blk b" "live p b" using ok in_set_dropD[OF r] by (auto simp: list_ok_def)
      then show ?thesis using ok that refs hash by (auto simp: list_ok_def)
    qed
    then show ?thesis using ok by (simp add: list_ok_def lv caching)
  qed
  then show ?thesis using inv pool(1) refs by (simp add: sm_inv_def lv)
qed

lemma kv_ok_pool:
  assumes "kv_ok k m xs" and "pool_inv k' xs" "same_config k k'" "keeps k k'"
    and "\<And>b. live k b \<Longrightarrow> ref_cnt (store k' (Blk b)) = ref_cnt (store k (Blk b))"
    and "\<And>b. live k b \<Longrightarrow> block_hash (store k (Blk b)) = None \<Longrightarrow> block_hash (store k' (Blk b)) = None"
  shows "kv_ok k' m xs"
  using assms(1) sm_inv_pool[of m k xs k'] assms(2,3,5,6) keeps_km[OF assms(4)]
  by (auto simp: kv_ok_def kv_inv_def km_static_def same_config_def)

lemma kv_ok_stats [simp]: "kv_inv (k\<lparr>km_stats := s\<rparr>) m xs = kv_inv k m xs"
proof -
  have "pool_inv (k\<lparr>km_stats := s\<rparr>) xs = pool_inv k xs" "live (k\<lparr>km_stats := s\<rparr>) = live k"
    by (auto simp: pool_inv_upto_def fq_repr_def blocks_ok_def cache_ok_def counts_ok_def live_def fun_eq_iff)
  then show ?thesis by (simp add: kv_inv_def sm_inv_def list_ok_def)
qed

lemma kv_ok_next: "kv_ok k m xs \<Longrightarrow> kv_next i k m k' m' xs' \<Longrightarrow> kv_ok k' m' xs'"
  by (auto simp: kv_ok_def kv_next_def km_static_def)

lemma evict_blocks_bounds: "evict_blocks ids p = Inr p' \<Longrightarrow> \<forall>b \<in> set ids. b < num_gpu_blocks p"
proof (induction ids arbitrary: p)
  case (Cons i ids)
  have "num_gpu_blocks (snd (maybe_evict_cached_block (Blk i) p)) = num_gpu_blocks p"
    by (auto simp: maybe_evict_cached_block_def upd_block_def Let_def split: option.splits prod.splits)
  moreover have "i < num_gpu_blocks p" "evict_blocks ids (snd (maybe_evict_cached_block (Blk i) p)) = Inr p'"
    using Cons.prems by (auto simp: evict_blocks_def evict_one_def rbind_eq_Inr)
  ultimately show ?case using Cons.IH by fastforce
qed simp

lemma evict_ok:
  assumes ok: "kv_ok k m xs" and run: "km_evict_blocks ids k = Inr k'"
  shows "kv_ok k' m xs"
proof -
  have "\<forall>b \<in> set ids. b < num_gpu_blocks k" using run unfolding km_evict_blocks_def by (rule evict_blocks_bounds)
  moreover have inv: "pool_inv k xs" using ok by (auto simp: kv_ok_def dest!: kv_invD(2) sm_invD(1))
  ultimately have "pool_inv k' xs \<and> same_config k k' \<and> (\<forall>b. ref_cnt (store k' (Blk b)) = ref_cnt (store k (Blk b)))
    \<and> (\<forall>b. block_hash (store k' (Blk b)) = (if b \<in> set ids then None else block_hash (store k (Blk b))))"
    using evict_blocks_spec[OF inv, of ids] run by (auto simp: km_evict_blocks_def)
  moreover have "keeps k k'" using run unfolding km_evict_blocks_def evict_blocks_def
    by (rule keeps_rfold) (use keeps_evict in \<open>auto simp: evict_one_def rbind_eq_Inr\<close>)
  ultimately show ?thesis by (intro kv_ok_pool[OF ok]) auto
qed

lemma reset_ok:
  assumes ok: "kv_ok k m xs" and run: "km_reset_prefix_cache k = Inr (done, k')"
  shows "kv_ok k' m xs"
proof -
  have inv: "pool_inv k xs" using ok by (auto simp: kv_ok_def dest!: kv_invD(2) sm_invD(1))
  obtain b k1 where k1: "reset_prefix_cache k = (b, k1)" by fastforce
  have c: "kv_ok (cleared k) m xs"
  proof (rule kv_ok_pool[OF ok cleared_inv(1)[OF inv] cleared_frame(1)])
    have "free_queue.more (cleared k) = free_queue.more (k\<lparr>cached_map := (\<lambda>_. None)\<rparr>)"
      using fold_reset_frame[of "[0..<num_gpu_blocks k]" "k\<lparr>cached_map := (\<lambda>_. None)\<rparr>"] unfolding cleared_def by blast
    from keeps_queue[OF this] show "keeps k (cleared k)" by (simp add: keeps_def)
  qed (simp_all add: cleared_frame(5) reset_hash_def)
  have "kv_ok ((cleared k)\<lparr>kv_event_queue := es\<rparr>) m xs" for es
    by (rule kv_ok_pool[OF c]) (use cleared_inv(1)[OF inv] in simp_all)
  then have "kv_ok k1 m xs" using k1 ok reset_prefix_cache_spec[OF inv] by (auto split: if_splits)
  then show ?thesis using run k1 by (auto simp: km_reset_prefix_cache_def kv_ok_def split: if_splits bool.splits option.splits)
qed

text \<open>What the scheduler guarantees of the requests it passes to the manager.\<close>

definition fresh_request :: "request \<Rightarrow> kv_manager \<Rightarrow> bool" where
  "fresh_request r k \<longleftrightarrow>
     (\<forall>m \<in> set (km_managers k). blocks_of (request_id r) m = [] \<and> \<not> has_key (num_cached_block m) (request_id r))"

definition request_fits :: "request \<Rightarrow> kv_manager \<Rightarrow> bool" where
  "request_fits r k \<longleftrightarrow> 0 \<le> num_computed_tokens r \<and> num_tokens r \<le> km_max_model_len k
     \<and> (enable_caching k \<longrightarrow> num_tokens r div hash_block_size k \<le> int (length (block_hashes r)))"

definition can_admit :: "request \<Rightarrow> kv_manager \<Rightarrow> bool" where
  "can_admit r k \<longleftrightarrow> request_fits r k \<and> num_computed_tokens r = 0 \<and> 1 \<le> num_tokens r \<and> distinct (block_hashes r)"

definition can_cache :: "request \<Rightarrow> int \<Rightarrow> kv_manager \<Rightarrow> bool" where
  "can_cache r n k \<longleftrightarrow> 0 \<le> n \<and> n div hash_block_size k \<le> int (length (block_hashes r))
     \<and> (\<forall>m \<in> set (km_managers k). n div hash_block_size k \<le> int (length (blocks_of (request_id r) m)))"

inductive kv_reach :: "(bytes list \<Rightarrow> bytes) \<Rightarrow> kv_manager \<Rightarrow> bool" for sha :: "bytes list \<Rightarrow> bytes" where
  start: "KVCacheManager c mb = Some (Inr k) \<Longrightarrow> unitary_full c spec \<Longrightarrow> kv_reach sha k"
| admit: "kv_reach sha k \<Longrightarrow> fresh_request r k \<Longrightarrow> can_admit r k \<Longrightarrow>
    get_computed_blocks r k = Inr (hits, nc, k1) \<Longrightarrow> 0 \<le> n \<Longrightarrow> 0 \<le> ext \<Longrightarrow> 0 < n + ext \<Longrightarrow> 0 \<le> la \<Longrightarrow> nc + ext \<le> num_tokens r \<Longrightarrow>
    allocate_slots sha r n nc hits la ext delay full_fit k1 = Inr (out, k2) \<Longrightarrow> kv_reach sha k2"
| grow: "kv_reach sha k \<Longrightarrow> request_fits r k \<Longrightarrow> num_computed_tokens r \<le> num_tokens r \<Longrightarrow> 0 < n \<Longrightarrow> 0 \<le> la \<Longrightarrow>
    allocate_slots sha r n 0 NoBlocks la 0 delay full_fit k = Inr (out, k') \<Longrightarrow> kv_reach sha k'"
| lookup: "kv_reach sha k \<Longrightarrow> 1 \<le> num_tokens r \<Longrightarrow> get_computed_blocks (r :: request) k = Inr (hits, nc, k') \<Longrightarrow> kv_reach sha k'"
| cache: "kv_reach sha k \<Longrightarrow> can_cache r n k \<Longrightarrow> km_cache_blocks sha r n k = Inr k' \<Longrightarrow> kv_reach sha k'"
| free: "kv_reach sha k \<Longrightarrow> km_free (r :: request) k = Inr k' \<Longrightarrow> kv_reach sha k'"
| skip: "kv_reach sha k \<Longrightarrow> km_remove_skipped_blocks i n k = Inr k' \<Longrightarrow> kv_reach sha k'"
| evict: "kv_reach sha k \<Longrightarrow> km_evict_blocks ids k = Inr k' \<Longrightarrow> kv_reach sha k'"
| reset: "kv_reach sha k \<Longrightarrow> km_reset_prefix_cache k = Inr (b, k') \<Longrightarrow> kv_reach sha k'"
| common: "kv_reach sha k \<Longrightarrow> get_num_common_prefix_blocks i k = (ns, k') \<Longrightarrow> kv_reach sha k'"
| events: "kv_reach sha k \<Longrightarrow> km_take_events k = (es, k') \<Longrightarrow> kv_reach sha k'"
| ids: "kv_reach sha k \<Longrightarrow> km_take_new_block_ids k = (ns, k') \<Longrightarrow> kv_reach sha k'"
| stats: "kv_reach sha k \<Longrightarrow> make_prefix_cache_stats k = (s, k') \<Longrightarrow> kv_reach sha k'"

lemma computed_spec:
  assumes ok: "kv_ok k m xs" and "1 \<le> num_tokens r"
  shows "\<exists>bs s. get_computed_blocks r k = Inr (create_kv_cache_blocks [map Blk bs], int (length bs) * sm_block_size m, k\<lparr>km_stats := s\<rparr>)
    \<and> kv_ok (k\<lparr>km_stats := s\<rparr>) m xs
    \<and> (if enable_caching k \<and> \<not> skip_reading_prefix_cache r
       then hit_spec (block_hashes r) (num_tokens r - 1) (0 \<in> set (km_eagle_groups k)) k (sm_block_size m) bs else bs = [])"
proof (cases "enable_caching k \<and> \<not> skip_reading_prefix_cache r")
  case True
  have id: "k\<lparr>km_stats := km_stats k\<rparr> = k" by simp
  obtain bs where bs: "find_longest_cache_hit (block_hashes r) (num_tokens r - 1) k = Inr ([map Blk bs], int (length bs) * sm_block_size m)"
    "hit_spec (block_hashes r) (num_tokens r - 1) (0 \<in> set (km_eagle_groups k)) k (sm_block_size m) bs"
    using find_longest_spec[of k m xs "num_tokens r - 1" "block_hashes r"] ok True assms(2) by (auto simp: kv_ok_def)
  show ?thesis
  proof (cases "km_log_stats k")
    case log: True
    then obtain s where "km_stats k = Some s" using ok by (auto simp: kv_ok_def)
    then show ?thesis using True log bs ok
      by (intro exI[of _ bs] exI[of _ "Some (pcs_record (num_tokens r) (int (length bs) * sm_block_size m) (num_preemptions r > 0) s)"])
        (simp add: get_computed_blocks_def kv_ok_def)
  next
    case False
    then show ?thesis using True bs ok id
      by (intro exI[of _ bs] exI[of _ "km_stats k"]) (simp add: get_computed_blocks_def)
  qed
next
  case False
  then show ?thesis using ok
    by (intro exI[of _ "[]"] exI[of _ "km_stats k"]) (auto simp: get_computed_blocks_def create_kv_cache_blocks_def)
qed

lemma request_fits_ok: "kv_inv k m xs \<Longrightarrow> request_fits r k \<Longrightarrow> request_ok r k m"
  using kv_invD(5)[of k m xs] by (auto simp: request_fits_def request_ok_def)

lemma hit_ok_stats [simp]: "hit_ok (k\<lparr>km_stats := s\<rparr>) bs = hit_ok k bs"
  by (simp add: hit_ok_def live_def)

lemma admit_args:
  assumes ok: "kv_ok k m xs" and fresh: "fresh_request r k" and can: "can_admit r k"
    and c: "get_computed_blocks r k = Inr (hits, nc, k1)"
    and a: "0 \<le> n" "0 \<le> ext" "0 < n + ext" "0 \<le> la" "nc + ext \<le> num_tokens r"
  shows "\<exists>bs s. k1 = k\<lparr>km_stats := s\<rparr> \<and> kv_ok k1 m xs \<and> args_ok r n nc hits la ext bs k1 m \<and> nc = int (length bs) * sm_block_size m"
proof -
  obtain bs s where bs: "hits = create_kv_cache_blocks [map Blk bs]" "nc = int (length bs) * sm_block_size m" "k1 = k\<lparr>km_stats := s\<rparr>"
    "kv_ok k1 m xs" "if enable_caching k \<and> \<not> skip_reading_prefix_cache r
       then hit_spec (block_hashes r) (num_tokens r - 1) (0 \<in> set (km_eagle_groups k)) k (sm_block_size m) bs else bs = []"
    using computed_spec[OF ok, of r] c can by (auto simp: can_admit_def)
  have inv: "kv_inv k m xs" "kv_inv k1 m xs" using ok bs(4) by (auto simp: kv_ok_def)
  have hit: "hit_ok k bs" "enable_caching k \<or> bs = []"
    using bs(5) hits_ok[of bs k "block_hashes r"] can by (auto simp: hit_spec_def can_admit_def hit_ok_def split: if_splits)
  have "blocks_of (request_id r) m = [] \<and> \<not> has_key (num_cached_block m) (request_id r)"
    using fresh kv_invD(1)[OF inv(1)] by (simp add: fresh_request_def)
  moreover have "request_ok r k1 m" using request_fits_ok[OF inv(1), of r] can bs(3) by (simp add: can_admit_def request_ok_def)
  moreover have "0 \<le> nc" using bs(2) sm_inv_config[OF kv_invD(2)[OF inv(1)]] by simp
  ultimately have "args_ok r n nc hits la ext bs k1 m"
    using a can hit bs(1-3) by (auto simp: args_ok_def can_admit_def request_fits_def create_kv_cache_blocks_def)
  then show ?thesis using bs(2-4) by blast
qed

lemma allocate_cases:
  assumes inv: "kv_inv k m xs" and a: "args_ok r n nc hits la ext bs k m"
    and run: "allocate_slots sha r n nc hits la ext delay full_fit k = Inr (out, k')"
  obtains (refused) "out = None" "k' = k"
  | (taken) news m' ys new where "out = Some news" "kv_next (request_id r) k m k' m' ys"
      "blocks_of (request_id r) m' = blocks_of (request_id r) m @ map Blk (bs @ new)"
proof (cases "(full_fit \<and> length xs < slot_demand m xs (request_id r) bs (min (num_tokens r) (km_max_model_len k)))
    \<or> length xs < slot_demand m xs (request_id r) bs (slots_of r n nc la ext k)")
  case True
  then show ?thesis using allocate_slots_spec[OF inv a, of full_fit sha delay] run refused by (simp only: if_True) simp
next
  case False
  then show ?thesis using allocate_slots_spec[OF inv a, of full_fit sha delay] run taken by (simp only: if_False) auto
qed

lemma allocate_ok:
  assumes ok: "kv_ok k m xs" and a: "args_ok r n nc hits la ext bs k m"
    and run: "allocate_slots sha r n nc hits la ext delay full_fit k = Inr (out, k')"
  shows "\<exists>m' ys. kv_ok k' m' ys"
proof -
  have inv: "kv_inv k m xs" using ok by (simp add: kv_ok_def)
  from inv a run show ?thesis by (rule allocate_cases) (use ok kv_ok_next[OF ok] in blast)+
qed

lemma grow_args:
  assumes "kv_inv k m xs" "request_fits r k" "num_computed_tokens r \<le> num_tokens r" "0 < n" "0 \<le> la"
  shows "args_ok r n 0 NoBlocks la 0 [] k m"
  using assms request_fits_ok[OF assms(1,2)] by (auto simp: args_ok_def request_fits_def hit_ok_def)

lemma new_ids_ok: "kv_ok k m xs \<Longrightarrow> kv_ok (k\<lparr>km_managers := [m\<lparr>new_block_ids := ns\<rparr>]\<rparr>) (m\<lparr>new_block_ids := ns\<rparr>) xs"
  by (auto simp: kv_ok_def kv_inv_def sm_inv_def sm_config_ok_def blocks_of_def cached_len_def held_def list_ok_def)

lemma common_ok:
  assumes ok: "kv_ok k m xs" and run: "get_num_common_prefix_blocks i k = (ns, k')"
  shows "\<exists>m'. kv_ok k' m' xs"
proof (cases "enable_caching k")
  case True
  have inv: "kv_inv k m xs" using ok by (simp add: kv_ok_def)
  let ?m = "set_blocks i (blocks_of i m) m"
  have "k' = k\<lparr>km_managers := [?m]\<rparr>"
    using run True kv_invD(1)[OF inv] sm_full[OF kv_invD(2)[OF inv]]
    by (auto simp: get_num_common_prefix_blocks_def sm_get_num_common_prefix_blocks_def Let_def)
  moreover have "kv_next i k m (k\<lparr>km_managers := [?m]\<rparr>) ?m xs"
    by (rule kv_nextI[OF inv sm_inv_touch_entry[OF kv_invD(2)[OF inv]]]) simp_all
  ultimately show ?thesis using kv_ok_next[OF ok] by blast
next
  case False
  then show ?thesis using assms by (auto simp: get_num_common_prefix_blocks_def)
qed

lemma cache_ok_step:
  assumes ok: "kv_ok k m xs" and can: "can_cache r n k" and run: "km_cache_blocks sha r n k = Inr k'"
  shows "\<exists>m'. kv_ok k' m' xs"
proof (cases "enable_caching k")
  case True
  have inv: "kv_inv k m xs" using ok by (simp add: kv_ok_def)
  obtain m' where "kv_next (request_id r) k m k' m' xs"
    using km_cache[OF inv True, of n r sha] can kv_invD(1,5)[OF inv] True run by (auto simp: can_cache_def km_cache_blocks_def)
  then show ?thesis using kv_ok_next[OF ok] by blast
next
  case False
  then show ?thesis using assms by (auto simp: km_cache_blocks_def)
qed

lemma free_ok:
  assumes ok: "kv_ok k m xs" and run: "km_free r k = Inr k'"
  shows "\<exists>m' ys. kv_ok k' m' ys"
proof -
  have "kv_inv k m xs" using ok by (simp add: kv_ok_def)
  from km_free_spec[OF this, of "request_id r"] obtain m' ys where "kv_next (request_id r) k m k' m' ys"
    using run unfolding km_free_def by (elim exE conjE) simp
  then show ?thesis using kv_ok_next[OF ok] by blast
qed

lemma kv_reach_ok:
  assumes "kv_reach sha k"
  shows "\<exists>m xs. kv_ok k m xs"
  using assms
proof (induction rule: kv_reach.induct)
  case (start c mb k spec)
  then show ?case using KVCacheManager_start[OF start] KVCacheManager_stats[OF start(1)] by (auto simp: kv_ok_def)
next
  case (admit k r hits nc k1 n ext la delay full_fit out k2)
  then obtain m xs where "kv_ok k m xs" by blast
  from admit_args[OF this admit.hyps(2-9)] show ?case using allocate_ok admit.hyps(10) by blast
next
  case (grow k r n la delay full_fit out k')
  then obtain m xs where ok: "kv_ok k m xs" by blast
  then have "args_ok r n 0 NoBlocks la 0 [] k m" using grow_args grow.hyps(2-5) by (auto simp: kv_ok_def)
  from allocate_ok[OF ok this grow.hyps(6)] show ?case .
next
  case (lookup k r hits nc k')
  then obtain m xs where "kv_ok k m xs" by blast
  from computed_spec[OF this lookup.hyps(2)] show ?case using lookup.hyps(3) by auto
next
  case (cache k r n k')
  then show ?case using cache_ok_step by blast
next
  case (free k r k')
  then show ?case using free_ok by blast
next
  case (skip k i n k')
  then obtain m xs where ok: "kv_ok k m xs" by blast
  then have "k' = k" using remove_skipped_kv[of k m xs i n] skip.hyps(2) by (simp add: km_remove_skipped_blocks_def kv_ok_def)
  then show ?case using ok by blast
next
  case (evict k ids k')
  then show ?case using evict_ok by blast
next
  case (reset k b k')
  then show ?case using reset_ok by blast
next
  case (common k i ns k')
  then show ?case using common_ok by blast
next
  case (events k es k')
  then obtain m xs where ok: "kv_ok k m xs" by blast
  have inv: "pool_inv k xs" using ok by (auto simp: kv_ok_def dest!: kv_invD(2) sm_invD(1))
  have "kv_ok (k\<lparr>kv_event_queue := es'\<rparr>) m xs" for es' by (rule kv_ok_pool[OF ok]) (use inv in simp_all)
  then show ?case using events.hyps(2) ok by (auto simp: km_take_events_def take_events_def split: if_splits)
next
  case (ids k ns k')
  then obtain m xs where ok: "kv_ok k m xs" by blast
  then have "km_managers k = [m]" by (auto simp: kv_ok_def dest: kv_invD)
  then show ?case using new_ids_ok[OF ok] ids.hyps(2) by (auto simp: km_take_new_block_ids_def sm_take_new_block_ids_def)
next
  case (stats k s k')
  then obtain m xs where "kv_ok k m xs" by blast
  then have "kv_ok k' m xs" using stats.hyps(2) by (auto simp: make_prefix_cache_stats_def kv_ok_def split: if_splits)
  then show ?case by blast
qed

section \<open>Who holds a block\<close>

definition holders :: "nat \<Rightarrow> single_manager \<Rightarrow> string set" where
  "holders b m = {i. Blk b \<in> set (blocks_of i m)}"

lemma dict_total_card:
  assumes "wf_dict d" "\<forall>(i, rs) \<in> set d. distinct rs"
  shows "finite {i. r \<in> set (dict_get d i [])} \<and> dict_total (\<lambda>rs. count_list rs r) d = card {i. r \<in> set (dict_get d i [])}"
  using assms
proof (induction d)
  case Nil
  then show ?case by (simp add: dict_get_def)
next
  case (Cons x d)
  obtain i rs where x: "x = (i, rs)" by fastforce
  have i: "map_of d i = None" using Cons.prems(1) x by (simp add: map_of_eq_None_iff)
  have eq: "{j. r \<in> set (dict_get (x # d) j [])} = {j. r \<in> set (dict_get d j [])} \<union> (if r \<in> set rs then {i} else {})"
    using x i by (auto simp: dict_get_def)
  have IH: "finite {j. r \<in> set (dict_get d j [])}" "dict_total (\<lambda>rs. count_list rs r) d = card {j. r \<in> set (dict_get d j [])}"
    using Cons by auto
  have "i \<notin> {j. r \<in> set (dict_get d j [])}" using i by (simp add: dict_get_def)
  moreover have "distinct rs" using Cons.prems(2) x by simp
  ultimately show ?case unfolding eq using IH x by (simp add: count_distinct)
qed

lemma held_card:
  assumes "sm_inv m p xs"
  shows "finite (holders b m)" "held m b = card (holders b m)"
proof -
  have "distinct rs" if "(i, rs) \<in> set (req_to_blocks m)" for i rs
  proof -
    have "map_of (req_to_blocks m) i = Some rs" using that sm_invD(3)[OF assms] by simp
    then have "blocks_of i m = rs" by (simp add: blocks_of_def dict_get_def)
    then show ?thesis using sm_invD(5)[OF assms, of i] by (auto simp: list_ok_def)
  qed
  then show "finite (holders b m)" "held m b = card (holders b m)"
    using dict_total_card[OF sm_invD(3)[OF assms], of "Blk b"] unfolding holders_def held_def blocks_of_def by auto
qed

lemma refs_holders: "kv_inv k m xs \<Longrightarrow> live k b \<Longrightarrow> ref_cnt (store k (Blk b)) = int (card (holders b m))"
  using sm_invD(6)[OF kv_invD(2)] held_card(2)[OF kv_invD(2)] by metis

lemma free_holders:
  assumes inv: "kv_inv k m xs"
  shows "set xs = {b. live k b \<and> holders b m = {}}" "get_num_free_blocks k = int (card {b. live k b \<and> holders b m = {}})"
proof -
  have p: "pool_inv k xs" by (rule sm_invD(1)[OF kv_invD(2)[OF inv]])
  have "b \<in> set xs \<longleftrightarrow> live k b \<and> holders b m = {}" for b
    using pool_invD(4)[OF p] refs_holders[OF inv, of b] held_card(1)[OF kv_invD(2)[OF inv], of b] by (auto simp: counts_ok_def)
  then show s: "set xs = {b. live k b \<and> holders b m = {}}" by blast
  show "get_num_free_blocks k = int (card {b. live k b \<and> holders b m = {}})"
    using free_count[OF p] distinct_card[OF fq_repr_distinct[OF pool_invD(1)[OF p]]] by (simp add: s)
qed

end
