(* ===== verification/Kv_Properties.thy ===== *)
theory Kv_Properties
  imports Kv_Reach
begin

text \<open>
  The properties of the KV cache manager: reference counts, exact slot allocation and admission, the
  round trip of admitting and freeing, the prefix-cache lookup, and that freed memory is available again.
\<close>

section \<open>Auxiliary facts\<close>

lemma ceil_covers: "0 < b \<Longrightarrow> - (t div - b) \<le> c \<Longrightarrow> t \<le> c * (b::int)"
proof -
  assume b: "0 < b" "- (t div - b) \<le> c"
  have "- t div b * b \<le> - t" by (rule div_mult_le_int[OF b(1)]) simp
  then have "t \<le> - (- t div b) * b" by simp
  also have "\<dots> \<le> c * b" using b by (intro mult_right_mono) (simp_all add: div_minus_right)
  finally show ?thesis .
qed

section \<open>Properties\<close>


text \<open>
  C6: growing a running request is exact: the blocks it needs are the ones that its computed, new and
  lookahead tokens, cut at the model length, take beyond the blocks it has. If the pool has fewer free
  blocks nothing changes and \<^verbatim>\<open>None\<close> is returned; otherwise exactly that many free blocks are appended
  to the request, and no other request changes.
\<close>

theorem allocate_slots_exact:
  assumes "kv_reach sha k" "km_managers k = [m]" "request_fits r k" "num_computed_tokens r \<le> num_tokens r" "0 < n" "0 \<le> la"
  shows "let i = request_id r; own = length (blocks_of i m);
      need = nat (ceil_blocks (min (num_computed_tokens r + n + la) (km_max_model_len k)) m - int own);
      run = allocate_slots sha r n 0 NoBlocks la 0 delay False k
    in if get_num_free_blocks k < int need then run = Inr (None, k)
       else \<exists>news k' m'. run = Inr (Some news, k') \<and> km_managers k' = [m']
         \<and> get_num_free_blocks k' = get_num_free_blocks k - int need
         \<and> take own (blocks_of i m') = blocks_of i m \<and> length (blocks_of i m') = own + need
         \<and> (\<forall>j. j \<noteq> i \<longrightarrow> blocks_of j m' = blocks_of j m)"
proof -
  let ?i = "request_id r" and ?need = "nat (ceil_blocks (min (num_computed_tokens r + n + la) (km_max_model_len k)) m
    - int (length (blocks_of (request_id r) m)))"
  obtain xs where inv: "kv_inv k m xs" using kv_reach_ok[OF assms(1)] kv_invD(1) assms(2) by (fastforce simp: kv_ok_def)
  have a: "args_ok r n 0 NoBlocks la 0 [] k m" by (rule grow_args[OF inv assms(3-6)])
  have free: "get_num_free_blocks k' = int (length xs')" if "kv_inv k' m' xs'" for k' m' xs'
    by (rule free_count[OF sm_invD(1)[OF kv_invD(2)[OF that]]])
  have d: "slot_demand m xs ?i [] (slots_of r n 0 la 0 k) = ?need" by (simp add: slot_demand_def slots_of_def)
  note spec = allocate_slots_spec[OF inv a, of False sha delay, unfolded d]
  show ?thesis
  proof (cases "length xs < ?need")
    case True
    then show ?thesis using spec by (simp add: Let_def free[OF inv])
  next
    case False
    then obtain news k' m' ys new where run: "allocate_slots sha r n 0 NoBlocks la 0 delay False k = Inr (Some news, k')"
      "kv_next ?i k m k' m' ys" "length ys + ?need = length xs" "blocks_of ?i m' = blocks_of ?i m @ map Blk new" "length new = ?need"
      using spec by auto
    have "kv_inv k' m' ys" "frame ?i m m'" using run(2) by (auto simp: kv_next_def)
    then show ?thesis using False run(1,3-5) kv_invD(1)[of k' m' ys]
      by (auto simp: Let_def free[OF inv] free[of k' m' ys] frame_def)
  qed
qed


text \<open>
  C5: admitting a request and freeing it again is a round trip: whatever was shared or taken, every
  reference count, the number of free blocks and the blocks of every request are as before, and
  freeing leaves the prefix cache as the admission made it.
\<close>

theorem admit_free_roundtrip:
  assumes "kv_reach sha k" "fresh_request r k" "can_admit r k"
    and "get_computed_blocks r k = Inr (hits, nc, k1)" "0 \<le> n" "0 \<le> ext" "0 < n + ext" "0 \<le> la" "nc + ext \<le> num_tokens r"
    and run: "allocate_slots sha r n nc hits la ext delay full_fit k1 = Inr (out, k2)"
  shows "\<exists>k3. km_free r k2 = Inr k3 \<and> get_num_free_blocks k3 = get_num_free_blocks k
    \<and> (\<forall>i. co_get_blocks i k3 = co_get_blocks i k)
    \<and> (\<forall>b \<in> {1..<num_gpu_blocks k}. ref_cnt (store k3 (Blk b)) = ref_cnt (store k (Blk b)))
    \<and> cached_map k3 = cached_map k2"
proof -
  let ?i = "request_id r"
  obtain m xs where ok: "kv_ok k m xs" using kv_reach_ok[OF assms(1)] by blast
  obtain bs s where k1: "k1 = k\<lparr>km_stats := s\<rparr>" "kv_ok k1 m xs" "args_ok r n nc hits la ext bs k1 m"
    using admit_args[OF ok assms(2-9)] by blast
  have inv: "kv_inv k m xs" "kv_inv k1 m xs" using ok k1(2) by (auto simp: kv_ok_def)
  have own: "blocks_of ?i m = []" using assms(2) kv_invD(1)[OF inv(1)] by (simp add: fresh_request_def)
  have "\<exists>m2 ys. kv_next ?i k1 m k2 m2 ys"
    using inv(2) k1(3) run
  proof (rule allocate_cases)
    assume "k2 = k1"
    then show ?thesis using inv(2) by (auto simp: kv_next_def km_static_def)
  qed blast
  then obtain m2 ys where k2: "kv_next ?i k1 m k2 m2 ys" by blast
  then have inv2: "kv_inv k2 m2 ys" by (simp add: kv_next_def)
  from km_free_spec[OF inv2, of ?i] obtain k3 m3 zs where k3: "co_free ?i k2 = Inr k3" "blocks_of ?i m3 = []"
    "cached_map k3 = cached_map k2" "kv_next ?i k2 m2 k3 m3 zs"
    by (elim exE conjE)
  have k13: "kv_next ?i k1 m k3 m3 zs" by (rule kv_next_trans[OF k2 k3(4)])
  have inv3: "kv_inv k3 m3 zs" and gpu: "num_gpu_blocks k3 = num_gpu_blocks k"
    using k13 k1(1) by (auto simp: kv_next_def same_config_def)
  have same: "blocks_of j m3 = blocks_of j m" for j
    using k13 k3(2) own by (cases "j = ?i") (auto simp: kv_next_def frame_def)
  then have h: "holders b m3 = holders b m" for b by (simp add: holders_def)
  have lv: "live k3 b = live k b" for b using gpu by (simp add: live_def)
  have "get_num_free_blocks k3 = get_num_free_blocks k"
    using free_holders(2)[OF inv3] free_holders(2)[OF inv(1)] by (simp add: h lv)
  moreover have "ref_cnt (store k3 (Blk b)) = ref_cnt (store k (Blk b))" if "b \<in> {1..<num_gpu_blocks k}" for b
    using that refs_holders[OF inv3, of b] refs_holders[OF inv(1), of b] by (simp add: h lv) (simp add: live_def)
  moreover have "co_get_blocks j k3 = co_get_blocks j k" for j
    using kv_invD(1)[OF inv3] kv_invD(1)[OF inv(1)] same by (simp add: co_get_blocks_def)
  ultimately show ?thesis using k3(1,3) by (simp add: km_free_def)
qed


lemma free_keys:
  assumes "co_free i k = Inr k'" "km_managers k = [m]" "km_managers k' = [m']" "has_key (num_cached_block m') j"
  shows "has_key (num_cached_block m) j"
  using assms by (auto simp: co_free_def with_managers_def rbind_eq_Inr sm_free_def has_key_def split: if_splits)

definition drained :: "string set \<Rightarrow> kv_manager \<Rightarrow> single_manager \<Rightarrow> kv_manager \<Rightarrow> single_manager \<Rightarrow> bool" where
  "drained S k m k' m' \<longleftrightarrow> same_config k k' \<and> km_static k k' \<and> sm_block_size m' = sm_block_size m
     \<and> (\<forall>j. blocks_of j m' = (if j \<in> S then [] else blocks_of j m))
     \<and> (\<forall>j. has_key (num_cached_block m') j \<longrightarrow> has_key (num_cached_block m) j \<and> j \<notin> S)"

lemma drained_trans:
  "drained S k m k1 m1 \<Longrightarrow> drained T k1 m1 k2 m2 \<Longrightarrow> drained (S \<union> T) k m k2 m2"
  unfolding drained_def km_static_def using same_config_trans[of k k1 k2] by auto

lemma free_drained:
  assumes ok: "kv_ok k m xs"
  shows "\<exists>k' m' ys. km_free r k = Inr k' \<and> kv_ok k' m' ys \<and> drained {request_id r} k m k' m'"
proof -
  have inv: "kv_inv k m xs" using ok by (simp add: kv_ok_def)
  from km_free_spec[OF inv, of "request_id r"] obtain k' m' ys where k': "co_free (request_id r) k = Inr k'"
    "blocks_of (request_id r) m' = []" "\<not> has_key (num_cached_block m') (request_id r)" "kv_next (request_id r) k m k' m' ys"
    by (elim exE conjE)
  have "kv_inv k' m' ys" using k'(4) by (simp add: kv_next_def)
  then have "has_key (num_cached_block m') j \<Longrightarrow> has_key (num_cached_block m) j" for j
    using free_keys[OF k'(1) kv_invD(1)[OF inv]] kv_invD(1) by blast
  then have "drained {request_id r} k m k' m'"
    using k'(2-4) by (auto simp: drained_def kv_next_def frame_def same_sm_def)
  then show ?thesis using k'(1) kv_ok_next[OF ok k'(4)] by (auto simp: km_free_def)
qed

lemma drain_spec:
  assumes "kv_ok k m xs"
  shows "\<exists>k' m' ys. rfold km_free rs k = Inr k' \<and> kv_ok k' m' ys \<and> drained (request_id ` set rs) k m k' m'"
  using assms
proof (induction rs arbitrary: k m xs)
  case Nil
  then show ?case by (auto simp: drained_def km_static_def)
next
  case (Cons r rs)
  obtain k1 m1 ys where k1: "km_free r k = Inr k1" "kv_ok k1 m1 ys" "drained {request_id r} k m k1 m1"
    using free_drained[OF Cons.prems] by blast
  obtain k2 m2 zs where k2: "rfold km_free rs k1 = Inr k2" "kv_ok k2 m2 zs" "drained (request_id ` set rs) k1 m1 k2 m2"
    using Cons.IH[OF k1(2)] by blast
  have "drained (request_id ` set (r # rs)) k m k2 m2" using drained_trans[OF k1(3) k2(3)] by simp
  then show ?case using k1(1) k2(1,2) by auto
qed

lemma admit_empty:
  assumes ok: "kv_ok k m xs" and empty: "\<forall>j. blocks_of j m = []" and "fresh_request r k" "can_admit r k"
    and c: "get_computed_blocks r k = Inr (hits, nc, k1)" and n: "0 < n" "nc + n \<le> num_tokens r" "0 \<le> la"
    and fits: "ceil_blocks (min (num_tokens r + la) (km_max_model_len k)) m \<le> int (num_gpu_blocks k) - 1"
  shows "\<exists>news k2. allocate_slots sha r n nc hits la 0 delay full_fit k1 = Inr (Some news, k2)"
proof -
  obtain bs s where k1: "k1 = k\<lparr>km_stats := s\<rparr>" "kv_ok k1 m xs" "args_ok r n nc hits la 0 bs k1 m"
    using admit_args[OF ok assms(3,4) c, of n 0 la] n by auto
  have inv: "kv_inv k m xs" "kv_inv k1 m xs" using ok k1(2) by (auto simp: kv_ok_def)
  have b: "0 < sm_block_size m" by (rule sm_inv_config[OF kv_invD(2)[OF inv(1)]])
  have free: "set xs = {b. live k b}" using free_holders(1)[OF inv(1)] empty by (simp add: holders_def)
  have "distinct xs" by (rule fq_repr_distinct[OF pool_invD(1)[OF sm_invD(1)[OF kv_invD(2)[OF inv(1)]]]])
  then have "length xs = card (set xs)" by (rule distinct_card[symmetric])
  also have "set xs = {1..<num_gpu_blocks k}" unfolding free by (auto simp: live_def)
  finally have "length xs = num_gpu_blocks k - 1" by simp
  moreover have "0 < num_gpu_blocks k" using pool_invD(2)[OF sm_invD(1)[OF kv_invD(2)[OF inv(1)]]] by (simp add: blocks_ok_def)
  ultimately have len: "int (length xs) = int (num_gpu_blocks k) - 1" by linarith
  have "filter (\<lambda>b. b \<in> set xs) bs = bs" using k1(1,3) by (simp add: filter_id_conv free args_ok_def hit_ok_def live_def)
  then have d: "slot_demand m xs (request_id r) bs t = nat (ceil_blocks t m - int (length bs)) + length bs" for t
    using empty by (simp add: slot_demand_def)
  have z: "num_computed_tokens r = 0" "num_tokens r \<le> km_max_model_len k" using assms(4) by (auto simp: can_admit_def request_fits_def)
  have fit: "slot_demand m xs (request_id r) bs t \<le> length xs"
    if "nc \<le> t" "t \<le> min (num_tokens r + la) (km_max_model_len k)" for t
  proof -
    have "int (length bs) \<le> ceil_blocks t m" using count_le_ceil[OF b, of "int (length bs)" t] k1(3) that(1) by (simp add: args_ok_def)
    moreover have "ceil_blocks t m \<le> int (length xs)" using ceil_mono[OF b that(2)] fits len by linarith
    ultimately show ?thesis by (simp add: d)
  qed
  have "slot_demand m xs (request_id r) bs (slots_of r n nc la 0 k1) \<le> length xs"
    by (rule fit) (use n z k1(1) in \<open>simp_all add: slots_of_def\<close>)
  moreover have "slot_demand m xs (request_id r) bs (min (num_tokens r) (km_max_model_len k1)) \<le> length xs"
    by (rule fit) (use n z k1(1) in simp_all)
  ultimately have no: "((full_fit \<and> length xs < slot_demand m xs (request_id r) bs (min (num_tokens r) (km_max_model_len k1)))
      \<or> length xs < slot_demand m xs (request_id r) bs (slots_of r n nc la 0 k1)) = False"
    by (simp only: not_less[symmetric] simp_thms)
  from allocate_slots_spec[OF inv(2) k1(3), of full_fit sha delay, unfolded no if_False] show ?thesis
    by (elim exE conjE) (intro exI)
qed

text \<open>
  C3: memory is never lost: freeing the requests \<open>rs\<close>, when they are all that hold blocks, succeeds
  and gives back every block but the null block; then any of them, or any new request, that fits an
  empty pool is admitted, whatever part of its prompt is scheduled and with or without the check for
  its full length.
\<close>

theorem admitted_after_drain:
  assumes "kv_reach sha k" "km_managers k = [m]" "\<forall>i. blocks_of i m \<noteq> [] \<longrightarrow> i \<in> request_id ` set rs"
    and r: "r \<in> set rs \<or> fresh_request r k" "can_admit r k"
    and fits: "ceil_blocks (min (num_tokens r + la) (km_max_model_len k)) m \<le> int (num_gpu_blocks k) - 1" "0 \<le> la"
  shows "\<exists>k1 hits nc k2. rfold km_free rs k = Inr k1 \<and> get_num_free_blocks k1 = int (num_gpu_blocks k) - 1
    \<and> get_computed_blocks r k1 = Inr (hits, nc, k2) \<and> nc < num_tokens r
    \<and> (\<forall>n delay full_fit. 0 < n \<longrightarrow> nc + n \<le> num_tokens r \<longrightarrow>
         (\<exists>news k3. allocate_slots sha r n nc hits la 0 delay full_fit k2 = Inr (Some news, k3)))"
proof -
  obtain xs where ok: "kv_ok k m xs" using kv_reach_ok[OF assms(1)] assms(2) kv_invD(1) by (fastforce simp: kv_ok_def)
  obtain k1 m1 ys where k1: "rfold km_free rs k = Inr k1" "kv_ok k1 m1 ys" "drained (request_id ` set rs) k m k1 m1"
    using drain_spec[OF ok] by blast
  have inv: "kv_inv k1 m1 ys" using k1(2) by (simp add: kv_ok_def)
  have empty: "\<forall>j. blocks_of j m1 = []" using k1(3) assms(3) by (auto simp: drained_def)
  have g: "num_gpu_blocks k1 = num_gpu_blocks k" "km_max_model_len k1 = km_max_model_len k" "sm_block_size m1 = sm_block_size m"
    using k1(3) by (auto simp: drained_def same_config_def km_static_def)
  have fresh: "fresh_request r k1" using r(1) k1(3) empty kv_invD(1)[OF inv] assms(2) by (auto simp: drained_def fresh_request_def)
  have can: "can_admit r k1" using r(2) k1(3) by (auto simp: drained_def can_admit_def request_fits_def same_config_def km_static_def)
  obtain hits nc k2 where c: "get_computed_blocks r k1 = Inr (hits, nc, k2)" "nc < num_tokens r"
    using computed_spec[OF k1(2), of r] can by (auto simp: can_admit_def hit_spec_def split: if_splits)
  have "{b. live k1 b \<and> holders b m1 = {}} = {1..<num_gpu_blocks k}" using empty g(1) by (auto simp: holders_def live_def)
  then have "get_num_free_blocks k1 = int (num_gpu_blocks k - 1)" using free_holders(2)[OF inv] by simp
  moreover have "0 < num_gpu_blocks k"
    using pool_invD(2)[OF sm_invD(1)[OF kv_invD(2)[OF inv]]] g(1) by (simp add: blocks_ok_def)
  ultimately have "get_num_free_blocks k1 = int (num_gpu_blocks k) - 1" by linarith
  moreover have "\<exists>news k3. allocate_slots sha r n nc hits la 0 delay full_fit k2 = Inr (Some news, k3)"
    if "0 < n" "nc + n \<le> num_tokens r" for n delay full_fit
    by (rule admit_empty[OF k1(2) empty fresh can c(1) that fits(2)]) (use fits(1) g in simp)
  ultimately show ?thesis using k1(1) c by blast
qed

section \<open>Witnesses\<close>

text \<open>A pool of three usable blocks of two tokens, and a waiting request with three tokens.\<close>

definition example_kv :: kv_config where
  "example_kv = \<lparr>kc_num_blocks = 4, kc_groups = [(\<lparr>spec_kind = FullAttentionSpec, spec_block_size = 2\<rparr>, False)], kc_max_model_len = 8,
     kc_max_num_batched_tokens = 8, kc_use_eagle = False, kc_enable_caching = True, kc_events = False, kc_dcp = 1, kc_pcp = 1,
     kc_hash_block_size = 2, kc_log_stats = True, kc_use_int = False\<rparr>"

definition waiting_request :: request where
  "waiting_request = example_request\<lparr>all_token_ids := [5, 6, 9], num_computed_tokens := 0\<rparr>"

lemma waiting_simps [simp]:
  "num_tokens waiting_request = 3" "num_computed_tokens waiting_request = 0" "block_hashes waiting_request = [[7]]"
  "\<not> skip_reading_prefix_cache waiting_request" "num_preemptions waiting_request = 0"
  by (simp_all add: waiting_request_def example_request_def num_tokens_def)

lemma example_start:
  "\<exists>k m. kv_reach sha k \<and> kv_inv k m [1, 2, 3] \<and> km_managers k = [m] \<and> req_to_blocks m = [] \<and> num_cached_block m = []
    \<and> sm_block_size m = 2 \<and> num_gpu_blocks k = 4 \<and> km_max_model_len k = 8 \<and> enable_caching k \<and> hash_block_size k = 2"
proof -
  let ?spec = "\<lparr>spec_kind = FullAttentionSpec, spec_block_size = 2\<rparr>"
  obtain p :: block_pool where p: "BlockPool 4 True 2 False False = Inr p" "enable_caching p" "hash_block_size p = 2"
    using BlockPool_spec[of 4 True 2 False False] by auto
  have u: "unitary_full example_kv ?spec" unfolding unitary_full_def by (intro conjI exI[of _ False]) (simp_all add: example_kv_def)
  have "\<exists>k. KVCacheManager example_kv None = Some (Inr k) \<and> enable_caching k \<and> hash_block_size k = 2"
    using p by (simp add: KVCacheManager_def get_kv_cache_coordinator_def UnitaryKVCacheCoordinator_def KVCacheCoordinator_def
        make_managers_def full_manager example_kv_def unitary_block_size_def block_pool.defs)
  then obtain k where k: "KVCacheManager example_kv None = Some (Inr k)" "enable_caching k" "hash_block_size k = 2" by blast
  have upt: "[1..<4] = [1, 2, 3::nat]" by (simp add: upt_conv_Cons)
  obtain m where m: "kv_inv k m [1, 2, 3]" "req_to_blocks m = []" "num_cached_block m = []" "sm_block_size m = 2"
    "num_gpu_blocks k = 4" "km_max_model_len k = 8"
    using KVCacheManager_start[OF k(1) u] by (simp add: example_kv_def unitary_block_size_def upt[simplified]) blast
  then show ?thesis using kv_reach.start[OF k(1) u, of sha] kv_invD(1)[OF m(1)] k(2,3) by blast
qed

lemma example_admit: "enable_caching k \<Longrightarrow> hash_block_size k = 2 \<Longrightarrow> km_max_model_len k = 8 \<Longrightarrow> can_admit waiting_request k"
  by (simp add: can_admit_def request_fits_def)

lemma example_fresh:
  "km_managers k = [m] \<Longrightarrow> req_to_blocks m = [] \<Longrightarrow> num_cached_block m = [] \<Longrightarrow> fresh_request r k"
  by (simp add: fresh_request_def blocks_of_def dict_get_def has_key_def)

text \<open>A manager that has admitted the request.\<close>

lemma example_running:
  "\<exists>k m hits nc k1 k2 news. kv_reach sha k \<and> km_managers k = [m] \<and> fresh_request waiting_request k \<and> can_admit waiting_request k
    \<and> get_computed_blocks waiting_request k = Inr (hits, nc, k1) \<and> 0 \<le> nc \<and> nc < 3 \<and> get_num_free_blocks k = 3
    \<and> allocate_slots sha waiting_request (3 - nc) nc hits 0 0 False True k1 = Inr (Some news, k2) \<and> kv_reach sha k2
    \<and> num_gpu_blocks k = 4"
proof -
  obtain k m where k: "kv_reach sha k" "kv_inv k m [1, 2, 3]" "km_managers k = [m]" "req_to_blocks m = []" "num_cached_block m = []"
    "sm_block_size m = 2" "num_gpu_blocks k = 4" "km_max_model_len k = 8" "enable_caching k" "hash_block_size k = 2"
    using example_start by blast
  obtain xs where ok: "kv_ok k m xs" using kv_reach_ok[OF k(1)] k(3) kv_invD(1) by (fastforce simp: kv_ok_def)
  note can = example_admit[OF k(9,10,8)]
  note fresh = example_fresh[OF k(3-5), of waiting_request]
  obtain hits nc k1 where c: "get_computed_blocks waiting_request k = Inr (hits, nc, k1)" "0 \<le> nc" "nc < 3"
    using computed_spec[OF ok, of waiting_request] k(6,9) by (auto simp: hit_spec_def)
  have "\<exists>news k2. allocate_slots sha waiting_request (3 - nc) nc hits 0 0 False True k1 = Inr (Some news, k2)"
    by (rule admit_empty[OF ok _ fresh can c(1)]) (use c k in \<open>simp_all add: blocks_of_def dict_get_def\<close>)
  then obtain news k2 where run: "allocate_slots sha waiting_request (3 - nc) nc hits 0 0 False True k1 = Inr (Some news, k2)" by blast
  have "kv_reach sha k2" by (rule kv_reach.admit[OF k(1) fresh can c(1) _ _ _ _ _ run]) (use c in simp_all)
  moreover have "get_num_free_blocks k = 3" using free_count[OF sm_invD(1)[OF kv_invD(2)[OF k(2)]]] by simp
  ultimately show ?thesis using k(1,3,7) fresh can c run by blast
qed


theorem allocate_slots_exact_witness:
  "\<exists>k news k'. kv_reach (\<lambda>_. []) k \<and> get_num_free_blocks k = 3
    \<and> allocate_slots (\<lambda>_. []) waiting_request 3 0 NoBlocks 0 0 False False k = Inr (Some news, k') \<and> get_num_free_blocks k' = 1
    \<and> allocate_slots (\<lambda>_. []) waiting_request 3 0 NoBlocks 4 0 False False k = Inr (None, k)"
proof -
  obtain k m where k: "kv_reach (\<lambda>_. []) k" "kv_inv k m [1, 2, 3]" "km_managers k = [m]" "req_to_blocks m = []" "sm_block_size m = 2"
    "km_max_model_len k = 8" "enable_caching k" "hash_block_size k = 2"
    using example_start[of "\<lambda>_. []"] by blast
  have f: "request_fits waiting_request k" using example_admit[OF k(7,8,6)] by (simp add: can_admit_def)
  have free: "get_num_free_blocks k = 3" using free_count[OF sm_invD(1)[OF kv_invD(2)[OF k(2)]]] by simp
  note ex = allocate_slots_exact[OF k(1,3) f, where n = 3 and delay = False]
  have "\<exists>news k'. allocate_slots (\<lambda>_. []) waiting_request 3 0 NoBlocks 0 0 False False k = Inr (Some news, k') \<and> get_num_free_blocks k' = 1"
    using ex[of 0] free k by (auto simp: Let_def blocks_of_def dict_get_def)
  moreover have "allocate_slots (\<lambda>_. []) waiting_request 3 0 NoBlocks 4 0 False False k = Inr (None, k)"
    using ex[of 4] free k by (simp add: Let_def blocks_of_def dict_get_def)
  ultimately show ?thesis using k(1) free by blast
qed


theorem admit_free_roundtrip_witness:
  "\<exists>k hits nc k1 news k2 k3. kv_reach (\<lambda>_. []) k \<and> get_computed_blocks waiting_request k = Inr (hits, nc, k1)
    \<and> allocate_slots (\<lambda>_. []) waiting_request (3 - nc) nc hits 0 0 False True k1 = Inr (Some news, k2)
    \<and> km_free waiting_request k2 = Inr k3 \<and> get_num_free_blocks k3 = 3 \<and> cached_map k3 = cached_map k2"
proof -
  obtain k hits nc k1 news k2 where k: "kv_reach (\<lambda>_. []) k" "fresh_request waiting_request k" "can_admit waiting_request k"
    "get_computed_blocks waiting_request k = Inr (hits, nc, k1)" "0 \<le> nc" "nc < 3" "get_num_free_blocks k = 3"
    "allocate_slots (\<lambda>_. []) waiting_request (3 - nc) nc hits 0 0 False True k1 = Inr (Some news, k2)"
    using example_running[of "\<lambda>_. []"] by blast
  have "\<exists>k3. km_free waiting_request k2 = Inr k3 \<and> get_num_free_blocks k3 = 3 \<and> cached_map k3 = cached_map k2"
    using admit_free_roundtrip[OF k(1-4) _ _ _ _ _ k(8)] k(5-7) by auto
  then show ?thesis using k(1,4,8) by blast
qed


theorem admitted_after_drain_witness:
  "\<exists>k k1 hits nc k2. kv_reach (\<lambda>_. []) k \<and> rfold km_free [waiting_request] k = Inr k1 \<and> get_num_free_blocks k1 = 3
    \<and> get_computed_blocks waiting_request k1 = Inr (hits, nc, k2) \<and> nc < 3
    \<and> (\<exists>news k3. allocate_slots (\<lambda>_. []) waiting_request (3 - nc) nc hits 0 0 False True k2 = Inr (Some news, k3))"
proof -
  obtain k m where k: "kv_reach (\<lambda>_. []) k" "km_managers k = [m]" "req_to_blocks m = []" "sm_block_size m = 2" "num_gpu_blocks k = 4"
    "km_max_model_len k = 8" "enable_caching k" "hash_block_size k = 2"
    using example_start[of "\<lambda>_. []"] by blast
  have "\<exists>k1 hits nc k2. rfold km_free [waiting_request] k = Inr k1 \<and> get_num_free_blocks k1 = int (num_gpu_blocks k) - 1
    \<and> get_computed_blocks waiting_request k1 = Inr (hits, nc, k2) \<and> nc < num_tokens waiting_request
    \<and> (\<forall>n delay full_fit. 0 < n \<longrightarrow> nc + n \<le> num_tokens waiting_request \<longrightarrow>
         (\<exists>news k3. allocate_slots (\<lambda>_. []) waiting_request n nc hits 0 0 delay full_fit k2 = Inr (Some news, k3)))"
    by (rule admitted_after_drain[OF k(1,2)]) (use example_admit[OF k(7,8,6)] k in \<open>simp_all add: blocks_of_def dict_get_def\<close>)
  then obtain k1 hits nc k2 where d: "rfold km_free [waiting_request] k = Inr k1" "get_num_free_blocks k1 = 3"
    "get_computed_blocks waiting_request k1 = Inr (hits, nc, k2)" "nc < 3"
    "\<And>n delay full_fit. 0 < n \<Longrightarrow> nc + n \<le> 3 \<Longrightarrow>
       \<exists>news k3. allocate_slots (\<lambda>_. []) waiting_request n nc hits 0 0 delay full_fit k2 = Inr (Some news, k3)"
    using k(5) by auto
  then show ?thesis using k(1) d(5)[of "3 - nc" False True] by auto
qed

end
