(* ===== verification/Agent_Policy.thy ===== *)
theory Agent_Policy
  imports Protocol
begin

text \<open>
  The pure part of \<^verbatim>\<open>vllm/tokencake/scheduling.py\<close>: the score of a request, the score of an agent type
  from its history, and the partition of the GPU blocks into reservations of the critical agent
  types and a shared rest.
\<close>

section \<open>Scores\<close>

definition fdiv :: "real \<Rightarrow> real \<Rightarrow> real res" where
  "fdiv a b = (if b = 0 then Inl ZeroDivisionError else Inr (a / b))"

definition log1p :: "real \<Rightarrow> real res" where
  "log1p x = (if x \<le> -1 then Inl (ValueError ''math domain error'') else Inr (ln (1 + x)))"

definition request_score :: "metadata \<Rightarrow> real \<Rightarrow> real \<Rightarrow> int" where
  "request_score md arrival now =
     (let max_depth = max (depth md) (max (application_max_depth md) 1);
          remaining_ratio = min 1 (real_of_int (remaining_depth md) / real_of_int max_depth);
          progress = min 1 (real_of_int (depth md) / real_of_int max_depth);
          elapsed = (if application_started_at_s md > 0
                     then max (application_elapsed_s md) (now - application_started_at_s md)
                     else application_elapsed_s md);
          wait = max 0 (now - arrival);
          parallel_width = (if 0 < similarity md \<and> similarity md < 1 then 1 / similarity md else 1);
          age = min elapsed 300 * (1 + 0.75 * remaining_ratio);
          queue = min wait 180 * (1 + 0.5 * remaining_ratio);
          completion = min elapsed 240 * progress
      in py_int (100 * importance md
           + 15 * depth md
           + 45 * out_degree md
           + 10 * in_degree md
           + 20 * similarity md
           + 20 * remaining_depth md
           + 120 * (parallel_width - 1)
           + 6 * min (application_start_offset_s md) 60
           + 5 * age
           + 8 * queue
           + 5 * completion
           + 180 * of_bool (critical_path md)
           + 90 * of_bool (near_completion md)
           + 20 * of_bool (join_group md \<noteq> '''')
           + 4 * real_of_int (if dependency_depth md \<noteq> 0 then dependency_depth md else depth md)
           + 12 * real_of_int (max (fanout_width md - 1) 0)
           - 8 * max (memory_weight md - 1) 0))"

record agent_history =
  ah_importance :: real
  ah_deferrals :: int
  ah_preemptions :: int
  ah_samples :: int
  ah_input_tokens :: int
  ah_output_tokens :: int
  ah_completed :: int
  ah_duration :: real
  ah_depth :: int
  ah_out_degree :: int
  ah_in_degree :: int
  ah_elapsed :: real
  ah_remaining :: int

definition AgentHistory :: agent_history where
  "AgentHistory = \<lparr>ah_importance = 0, ah_deferrals = 0, ah_preemptions = 0, ah_samples = 0, ah_input_tokens = 0,
     ah_output_tokens = 0, ah_completed = 0, ah_duration = 0, ah_depth = 0, ah_out_degree = 0, ah_in_degree = 0,
     ah_elapsed = 0, ah_remaining = 0\<rparr>"

definition agent_urgency :: "int \<Rightarrow> real \<Rightarrow> agent_history \<Rightarrow> real res" where
  "agent_urgency waiting average_wait h =
     rbind (log1p average_wait) (\<lambda>a.
     rbind (log1p waiting) (\<lambda>b.
     rbind (log1p (ah_deferrals h)) (\<lambda>c.
     rbind (log1p (ah_preemptions h)) (\<lambda>d. Inr (a + b + c + 1.5 * d)))))"

definition agent_cost :: "agent_history \<Rightarrow> real res" where
  "agent_cost h =
     (let tokens = real_of_int (ah_input_tokens h + ah_output_tokens h) / real_of_int (max 1 (ah_samples h));
          duration = ah_duration h / real_of_int (max 1 (ah_completed h))
      in rbind (log1p tokens) (\<lambda>cost.
         if duration > 0 \<and> tokens > 0
         then rbind (log1p duration) (\<lambda>d. rbind (log1p (tokens / duration)) (\<lambda>t. Inr (cost + (d + t))))
         else Inr cost))"

definition agent_graph :: "agent_history \<Rightarrow> real" where
  "agent_graph h =
     (let n = real_of_int (max 1 (ah_samples h))
      in 0.7 * ah_depth h / n + 0.5 * ah_out_degree h / n + 0.25 * ah_in_degree h / n + 0.20 * ah_remaining h / n
         + 0.10 * min (ah_elapsed h / n) 180)"

definition agent_score :: "real \<Rightarrow> int \<Rightarrow> real \<Rightarrow> agent_history \<Rightarrow> real res" where
  "agent_score imp waiting average_wait h =
     rbind (agent_urgency waiting average_wait h) (\<lambda>urgency.
     rbind (agent_cost h) (\<lambda>cost.
       Inr (max 1 (2 * imp + urgency + 0.5 * cost + agent_graph h))))"

section \<open>The partition\<close>

record capacity_plan =
  critical :: "string list"
  plan_scores :: "(string, real) dict"
  reserved :: "(string, int) dict"
  shared :: int

definition CapacityPlan :: capacity_plan where
  "CapacityPlan = \<lparr>critical = [], plan_scores = [], reserved = [], shared = 0\<rparr>"

text \<open>A slice \<^verbatim>\<open>xs[:n]\<close> with a negative bound leaves out elements at the end.\<close>

definition py_take :: "int \<Rightarrow> 'a list \<Rightarrow> 'a list" where
  "py_take n xs = (if n \<ge> 0 then take (nat n) xs else take (nat (int (length xs) + n)) xs)"

definition dict_index :: "('k, 'v) dict \<Rightarrow> 'k \<Rightarrow> 'v res" where
  "dict_index d k = (case map_of d k of None \<Rightarrow> Inl KeyError | Some v \<Rightarrow> Inr v)"

definition dict_sum :: "('k, 'v::comm_monoid_add) dict \<Rightarrow> 'v" where
  "dict_sum d = sum_list (map snd d)"

definition critical_types :: "(string, real) dict \<Rightarrow> (string, real) dict \<Rightarrow> real \<Rightarrow> string list" where
  "critical_types scores imp critical_ratio =
     (let ordered = sorted_desc (\<lambda>k. (dict_get scores k 0, dict_get imp k 0, k)) (dict_keys scores)
      in py_take (max 1 (py_int (real (length ordered) * critical_ratio))) ordered)"

definition partition_weight :: "(string, real) dict \<Rightarrow> (string, int) dict \<Rightarrow> real \<Rightarrow> string \<Rightarrow> real res" where
  "partition_weight scores used score_sum k =
     rbind (fdiv (dict_get scores k 0) score_sum) (\<lambda>score_share.
       let used_sum = dict_sum used;
           memory_share = (if used_sum \<noteq> 0 then real_of_int (dict_get used k 0) / real_of_int used_sum else 0)
       in Inr (max score_share (max ((memory_share + score_share) / 2) (1 / 1000000))))"

definition partition_weights :: "(string, real) dict \<Rightarrow> (string, int) dict \<Rightarrow> string list \<Rightarrow> (string, real) dict res" where
  "partition_weights scores used crit =
     (let score_sum = sum_list (map (\<lambda>k. dict_get scores k 0) crit)
      in rfold (\<lambda>k ws. rbind (partition_weight scores used score_sum k) (\<lambda>w. Inr (dict_set k w ws))) (sort crit) [])"

text \<open>Largest remainders: every type gets the integral part of its share, the rest goes to the largest fractions.\<close>

definition share_counts :: "int \<Rightarrow> (string, real) dict \<Rightarrow> (string, int) dict" where
  "share_counts res weights =
     (let weight_sum = dict_sum weights;
          exact = map (\<lambda>(k, w). (k, real_of_int res * w / weight_sum)) weights;
          counts = map (\<lambda>(k, v). (k, py_int v)) exact;
          remainder = res - dict_sum counts
      in fold (\<lambda>k counts. dict_set k (dict_get counts k 0 + 1) counts)
           (py_take remainder (sorted_desc (\<lambda>k. (dict_get exact k 0 - real_of_int (dict_get counts k 0), k)) (dict_keys exact)))
           counts)"

definition partition_capacity ::
  "(string, real) dict \<Rightarrow> (string, real) dict \<Rightarrow> (string, int) dict \<Rightarrow> int \<Rightarrow> real \<Rightarrow> real \<Rightarrow> capacity_plan res" where
  "partition_capacity scores imp used total_blocks reserve_ratio critical_ratio =
     (if \<not> (\<forall>k \<in> set (dict_keys scores). has_key imp k) then Inl KeyError
      else
        let crit = critical_types scores imp critical_ratio;
            res = (if crit \<noteq> [] then py_int (real_of_int total_blocks * reserve_ratio) else 0)
        in rbind (partition_weights scores used crit) (\<lambda>weights.
             Inr \<lparr>critical = crit, plan_scores = scores, reserved = share_counts res weights, shared = total_blocks - res\<rparr>))"

section \<open>Facts on dictionaries of numbers\<close>

lemma dict_sum_simps [simp]: "dict_sum [] = 0" "dict_sum ((k, v) # d) = v + dict_sum d"
  by (simp_all add: dict_sum_def)

lemma dict_keys_set: "has_key d k \<Longrightarrow> dict_keys (dict_set k v d) = dict_keys d"
  by (simp add: has_key_iff AList.update_keys)

lemma dict_sum_set: "wf_dict d \<Longrightarrow> dict_sum (dict_set k v d) = dict_sum d - dict_get d k 0 + v"
  for d :: "('k, 'v::ab_group_add) dict"
proof (induction d)
  case (Cons x d)
  obtain j w where x: "x = (j, w)" by fastforce
  then show ?case using Cons by (cases "j = k") (auto simp: dict_get_def map_of_eq_None_iff algebra_simps)
qed (simp add: dict_get_def)

lemma dict_sum_get: "wf_dict d \<Longrightarrow> dict_sum d = (\<Sum>k \<leftarrow> dict_keys d. dict_get d k 0)"
  for d :: "('k, 'v::comm_monoid_add) dict"
proof (induction d)
  case (Cons x d)
  obtain j w where x: "x = (j, w)" by fastforce
  have same: "map (\<lambda>k. dict_get (x # d) k 0) (dict_keys d) = map (\<lambda>k. dict_get d k 0) (dict_keys d)"
    using Cons.prems x by (auto simp: dict_get_def)
  have "(\<Sum>k \<leftarrow> dict_keys (x # d). dict_get (x # d) k 0) = w + (\<Sum>k \<leftarrow> dict_keys d. dict_get (x # d) k 0)"
    using x by (simp add: dict_get_def)
  then show ?case unfolding same using Cons x by simp
qed simp

lemma dict_get_mem: "wf_dict d \<Longrightarrow> (k, v) \<in> set d \<Longrightarrow> dict_get d k z = v"
  by (simp add: dict_get_def)

lemma incr_keys:
  assumes "wf_dict d" "distinct ks" "set ks \<subseteq> fst ` set d"
  defines "e \<equiv> fold (\<lambda>k d. dict_set k (dict_get d k 0 + 1) d) ks d"
  shows "dict_keys e = dict_keys d \<and> dict_sum e = dict_sum d + int (length ks)
    \<and> (\<forall>k. dict_get e k 0 = dict_get d k 0 + of_bool (k \<in> set ks))"
  unfolding e_def using assms(1-3)
proof (induction ks arbitrary: d)
  case (Cons k ks)
  let ?d = "dict_set k (dict_get d k 0 + 1) d"
  have hk: "has_key d k" using Cons.prems(3) by (simp add: has_key_iff)
  have keys: "dict_keys ?d = dict_keys d" by (rule dict_keys_set[OF hk])
  then have "fst ` set ?d = fst ` set d" by (metis list.set_map)
  then have IH: "dict_keys (fold (\<lambda>k d. dict_set k (dict_get d k 0 + 1) d) ks ?d) = dict_keys ?d"
    "dict_sum (fold (\<lambda>k d. dict_set k (dict_get d k 0 + 1) d) ks ?d) = dict_sum ?d + int (length ks)"
    "\<forall>j. dict_get (fold (\<lambda>k d. dict_set k (dict_get d k 0 + 1) d) ks ?d) j 0 = dict_get ?d j 0 + of_bool (j \<in> set ks)"
    using Cons.IH[of ?d] Cons.prems by auto
  have "dict_get ?d j 0 = dict_get d j 0 + of_bool (j = k)" for j by (simp add: dict_get_def)
  then show ?case using IH keys dict_sum_set[OF Cons.prems(1), of k "dict_get d k 0 + 1"] Cons.prems(2) by auto
qed simp

section \<open>Largest remainders\<close>

definition exact_share :: "int \<Rightarrow> (string, real) dict \<Rightarrow> string \<Rightarrow> real" where
  "exact_share res weights k = real_of_int res * dict_get weights k 0 / dict_sum weights"

lemma sum_floor_bounds:
  fixes f :: "'a \<Rightarrow> real"
  shows "real_of_int (\<Sum>k \<leftarrow> ks. \<lfloor>f k\<rfloor>) \<le> (\<Sum>k \<leftarrow> ks. f k)"
    and "ks \<noteq> [] \<Longrightarrow> (\<Sum>k \<leftarrow> ks. f k) < real_of_int (\<Sum>k \<leftarrow> ks. \<lfloor>f k\<rfloor>) + real (length ks)"
proof -
  show "real_of_int (\<Sum>k \<leftarrow> ks. \<lfloor>f k\<rfloor>) \<le> (\<Sum>k \<leftarrow> ks. f k)"
    by (induction ks) (simp_all add: add_mono)
  show "(\<Sum>k \<leftarrow> ks. f k) < real_of_int (\<Sum>k \<leftarrow> ks. \<lfloor>f k\<rfloor>) + real (length ks)" if "ks \<noteq> []"
    using that
  proof (induction ks)
    case (Cons k ks)
    have "f k < real_of_int \<lfloor>f k\<rfloor> + 1" by simp
    then show ?case using Cons.IH by (cases "ks = []") (auto simp: algebra_simps)
  qed simp
qed

lemma map_value_get: "wf_dict d \<Longrightarrow> k \<in> fst ` set d \<Longrightarrow> dict_get (map (\<lambda>(k, v). (k, f v)) d) k z = f (dict_get d k y)"
  by (induction d) (auto simp: dict_get_def)

lemma sum_list_divide: "(\<Sum>k \<leftarrow> ks. f k * c / d) = (\<Sum>k \<leftarrow> ks. f k) * c / (d :: real)"
  by (induction ks) (simp_all add: algebra_simps add_divide_distrib)

lemma top_fraction_positive:
  fixes F :: "string \<Rightarrow> real"
  assumes K: "distinct K" and F: "\<And>k. 0 \<le> F k" "\<And>k. F k \<le> 1" and sum: "(\<Sum>k \<leftarrow> K. F k) = real n" and n: "n \<le> length K"
    and k: "k \<in> set (take n (sorted_desc (\<lambda>k. (F k, k)) K))"
  shows "0 < F k"
proof (rule ccontr)
  let ?s = "sorted_desc (\<lambda>k. (F k, k)) K"
  let ?top = "set (take n ?s)"
  assume "\<not> 0 < F k"
  then have zero: "F k = 0" using F(1)[of k] by simp
  have rest: "F j = 0" if "j \<in> set K - ?top" for j
  proof -
    have "j \<in> set (take n ?s @ drop n ?s)" using that by simp
    then have "j \<in> set (drop n ?s)" using that unfolding set_append by blast
    from sorted_desc_take_max[OF k this] have "F j \<le> F k" by (auto simp: less_eq_prod_def)
    then show ?thesis using zero F(1)[of j] by simp
  qed
  have sub: "?top \<subseteq> set K" using set_take_subset[of n ?s] by simp
  have card: "card ?top = n" using distinct_card[of "take n ?s"] K n by simp
  have "real n = sum F (set K)" unfolding sum[symmetric] by (rule sum_list_distinct_conv_sum_set[OF K])
  also have "\<dots> = sum F ?top" by (rule sum.mono_neutral_right[OF finite_set sub]) (rule ballI, erule rest)
  also have "\<dots> = sum F (?top - {k})" using sum.remove[OF finite_set k, of F] zero by linarith
  also have "\<dots> \<le> real (card (?top - {k})) * 1" by (rule sum_bounded_above) (rule F(2))
  also have "real (card (?top - {k})) * 1 < real n" using k card card_Diff1_less[of ?top k] by simp
  finally show False by simp
qed

text \<open>The tables of \<^const>\<open>share_counts\<close>, read at a key.\<close>

lemma share_tables:
  assumes wf: "wf_dict ws" and pos: "\<forall>(k, w) \<in> set ws. 0 < w" and res: "0 \<le> res"
  defines "exact \<equiv> map (\<lambda>(k, w). (k, real_of_int res * w / dict_sum ws)) ws"
  defines "counts \<equiv> map (\<lambda>(k, v). (k, py_int v)) exact"
  shows "dict_keys exact = dict_keys ws" "dict_keys counts = dict_keys ws"
    and "dict_get exact k 0 = exact_share res ws k" "dict_get counts k 0 = \<lfloor>exact_share res ws k\<rfloor>" "0 \<le> exact_share res ws k"
proof -
  show keys: "dict_keys exact = dict_keys ws" "dict_keys counts = dict_keys ws" by (auto simp: exact_def counts_def)
  have "0 \<le> dict_sum ws" using pos by (induction ws) (auto intro: add_nonneg_nonneg less_imp_le)
  moreover have "0 \<le> dict_get ws k 0" for k using pos by (auto simp: dict_get_def split: option.splits dest!: map_of_SomeD)
  ultimately show ge: "0 \<le> exact_share res ws k" for k using res by (simp add: exact_share_def)
  have m: "map_of exact k = map_option (\<lambda>w. real_of_int res * w / dict_sum ws) (map_of ws k)"
    "map_of counts k = map_option py_int (map_of exact k)" for k
    unfolding exact_def counts_def map_of_map by simp_all
  show ex: "dict_get exact k 0 = exact_share res ws k" for k
    by (simp add: dict_get_def m(1) exact_share_def split: option.splits)
  show "dict_get counts k 0 = \<lfloor>exact_share res ws k\<rfloor>" for k
    using ex[of k] ge[of k] by (auto simp: dict_get_def m(2) split: option.splits)
qed

lemma exact_total:
  assumes "wf_dict ws" "\<forall>(k, w) \<in> set ws. 0 < w" "ws = [] \<Longrightarrow> res = 0"
  shows "(\<Sum>k \<leftarrow> dict_keys ws. exact_share res ws k) = real_of_int res"
proof (cases "ws = []")
  case False
  have "0 < dict_sum ws" using False assms(2)
    by (induction ws rule: list_nonempty_induct) (auto intro: add_pos_pos)
  moreover have "(\<Sum>k \<leftarrow> dict_keys ws. exact_share res ws k) = (\<Sum>k \<leftarrow> dict_keys ws. dict_get ws k 0) * real_of_int res / dict_sum ws"
    unfolding exact_share_def mult.commute[of "real_of_int res"] by (rule sum_list_divide)
  ultimately show ?thesis using dict_sum_get[OF assms(1)] by simp
qed (use assms in simp)

lemma share_counts_spec:
  assumes wf: "wf_dict ws" and pos: "\<forall>(k, w) \<in> set ws. 0 < w" and res: "0 \<le> res" "ws = [] \<Longrightarrow> res = 0"
  shows "dict_keys (share_counts res ws) = dict_keys ws" "dict_sum (share_counts res ws) = res"
    and "\<bar>real_of_int (dict_get (share_counts res ws) k 0) - exact_share res ws k\<bar> < 1" "0 \<le> dict_get (share_counts res ws) k 0"
proof -
  define exact where "exact = map (\<lambda>(k, w). (k, real_of_int res * w / dict_sum ws)) ws"
  define counts where "counts = map (\<lambda>(k, v). (k, py_int v)) exact"
  note t = share_tables[OF wf pos res(1), folded exact_def, folded counts_def]
  let ?F = "\<lambda>k. exact_share res ws k - of_int \<lfloor>exact_share res ws k\<rfloor>" and ?r = "res - dict_sum counts"
  let ?s = "sorted_desc (\<lambda>k. (?F k, k)) (dict_keys ws)"
  have sum: "dict_sum counts = (\<Sum>k \<leftarrow> dict_keys ws. \<lfloor>exact_share res ws k\<rfloor>)"
    using dict_sum_get[of counts] wf unfolding t(2,4) by blast
  note total = exact_total[OF wf pos res(2)]
  have r0: "0 \<le> ?r" using sum_floor_bounds(1)[of "exact_share res ws" "dict_keys ws"] total unfolding sum by linarith
  have r1: "?r \<le> int (length ws)"
  proof (cases "ws = []")
    case False
    then show ?thesis using sum_floor_bounds(2)[of "dict_keys ws" "exact_share res ws"] total unfolding sum by simp
  qed (use res in \<open>simp add: counts_def exact_def\<close>)
  define ks where "ks = take (nat ?r) ?s"
  have run: "share_counts res ws = fold (\<lambda>k d. dict_set k (dict_get d k 0 + 1) d) ks counts"
    unfolding share_counts_def Let_def exact_def[symmetric] counts_def[symmetric] t(1,3,4) ks_def py_take_def using r0 by (simp only: if_True)
  have fs: "fst ` set counts = fst ` set ws" using t(2) by (metis list.set_map)
  have len: "length ks = nat ?r" "distinct ks" "set ks \<subseteq> fst ` set counts"
    using r1 wf set_take_subset[of "nat ?r" ?s] unfolding fs ks_def by auto
  have wfc: "wf_dict counts" using wf t(2) by simp
  note incr = incr_keys[OF wfc len(2,3), folded run]
  show "dict_keys (share_counts res ws) = dict_keys ws" "dict_sum (share_counts res ws) = res"
    using incr t(2) len(1) r0 by simp_all
  have get: "dict_get (share_counts res ws) k 0 = \<lfloor>exact_share res ws k\<rfloor> + of_bool (k \<in> set ks)"
    using incr t(4) by simp
  have "(\<Sum>k \<leftarrow> ls. ?F k) = (\<Sum>k \<leftarrow> ls. exact_share res ws k) - real_of_int (\<Sum>k \<leftarrow> ls. \<lfloor>exact_share res ws k\<rfloor>)" for ls
    by (induction ls) simp_all
  from this[of "dict_keys ws"] have "(\<Sum>k \<leftarrow> dict_keys ws. ?F k) = real_of_int ?r"
    using total unfolding sum of_int_diff by (simp only:)
  then have "(\<Sum>k \<leftarrow> dict_keys ws. ?F k) = real (nat ?r)" using r0 by (simp only: of_nat_nat)
  moreover have "0 \<le> ?F j" "?F j \<le> 1" for j by linarith+
  moreover have "nat ?r \<le> length (dict_keys ws)" using r1 by simp
  ultimately have "0 < ?F k" if "k \<in> set ks"
    using top_fraction_positive[OF wf, of ?F "nat ?r" k] that unfolding ks_def by blast
  then show "\<bar>real_of_int (dict_get (share_counts res ws) k 0) - exact_share res ws k\<bar> < 1"
    using get by (cases "k \<in> set ks") (auto simp: abs_less_iff, linarith+)
  show "0 \<le> dict_get (share_counts res ws) k 0" using get t(5)[of k] by simp
qed

section \<open>The partition is exact\<close>

lemma dict_set_new: "k \<notin> fst ` set d \<Longrightarrow> dict_set k v d = d @ [(k, v)]"
  by (induction d) auto

lemma rfold_table:
  assumes "\<And>k. k \<in> set ks \<Longrightarrow> f k = Inr (g k)" "distinct ks" "set ks \<inter> fst ` set d = {}"
  shows "rfold (\<lambda>k d. rbind (f k) (\<lambda>w. Inr (dict_set k w d))) ks d = Inr (d @ map (\<lambda>k. (k, g k)) ks)"
  using assms
proof (induction ks arbitrary: d)
  case (Cons k ks)
  have "dict_set k (g k) d = d @ [(k, g k)]" using Cons.prems(3) by (intro dict_set_new) auto
  then show ?case using Cons.IH[of "d @ [(k, g k)]"] Cons.prems by auto
qed simp

lemma partition_weights_spec:
  assumes "distinct crit" "\<And>k. k \<in> set crit \<Longrightarrow> 0 < dict_get scores k 0"
  shows "\<exists>ws. partition_weights scores used crit = Inr ws \<and> dict_keys ws = sort crit \<and> wf_dict ws \<and> (\<forall>(k, w) \<in> set ws. 0 < w)"
proof -
  let ?s = "sum_list (map (\<lambda>k. dict_get scores k 0) crit)"
  let ?g = "\<lambda>k. case partition_weight scores used ?s k of Inl _ \<Rightarrow> 0 | Inr w \<Rightarrow> w"
  have s: "0 < ?s" if "crit \<noteq> []" using that assms(2)
    by (induction crit rule: list_nonempty_induct) (auto intro: add_pos_pos)
  have w: "partition_weight scores used ?s k = Inr (?g k) \<and> 0 < ?g k" if "k \<in> set crit" for k
  proof -
    have "?s \<noteq> 0" using s that by (metis empty_iff less_irrefl list.set(1))
    then show ?thesis by (simp add: partition_weight_def fdiv_def Let_def less_max_iff_disj)
  qed
  have "partition_weights scores used crit = Inr (map (\<lambda>k. (k, ?g k)) (sort crit))"
    using rfold_table[of "sort crit" "partition_weight scores used ?s" ?g "[]"] w assms(1) by (simp add: partition_weights_def Let_def)
  moreover have "dict_keys (map (\<lambda>k. (k, ?g k)) (sort crit)) = sort crit" by (simp add: comp_def)
  moreover have "\<forall>(k, v) \<in> set (map (\<lambda>k. (k, ?g k)) (sort crit)). 0 < v" using w by auto
  ultimately show ?thesis using assms(1) by (intro exI[of _ "map (\<lambda>k. (k, ?g k)) (sort crit)"]) simp
qed

lemma critical_types_spec:
  fixes imp :: "(string, real) dict" and ratio :: real
  assumes "wf_dict scores"
  defines "c \<equiv> critical_types scores imp ratio"
  shows "distinct c" "set c \<subseteq> fst ` set scores" "scores \<noteq> [] \<Longrightarrow> c \<noteq> []" "scores = [] \<Longrightarrow> c = []"
    and "k \<in> set c \<Longrightarrow> j \<in> fst ` set scores - set c \<Longrightarrow>
      (dict_get scores j 0, dict_get imp j 0, j) \<le> (dict_get scores k 0, dict_get imp k 0, k)"
proof -
  let ?f = "\<lambda>k. (dict_get scores k 0, dict_get imp k 0, k)"
  let ?o = "sorted_desc ?f (dict_keys scores)"
  define n where "n = nat (max 1 (py_int (real (length ?o) * ratio)))"
  have c: "c = take n ?o" 
    using max.cobounded1[of 1 "py_int (real (length ?o) * ratio)"]
    unfolding c_def critical_types_def Let_def py_take_def n_def by (subst if_P) (linarith, rule refl)
  show "distinct c" using assms(1) by (simp add: c)
  show "set c \<subseteq> fst ` set scores" using set_take_subset[of n ?o] by (simp add: c)
  show "scores \<noteq> [] \<Longrightarrow> c \<noteq> []" "scores = [] \<Longrightarrow> c = []"
    using length_sorted_desc[of ?f "dict_keys scores"] by (auto simp: c n_def simp del: length_sorted_desc)
  assume k: "k \<in> set c" and j: "j \<in> fst ` set scores - set c"
  have "j \<in> set (take n ?o @ drop n ?o)" using j by simp
  then have "j \<in> set (drop n ?o)" using j unfolding set_append c by blast
  from sorted_desc_take_max[OF k[unfolded c] this] show "?f j \<le> ?f k" .
qed

lemma partition_capacity_spec:
  assumes "wf_dict scores" "\<forall>(k, v) \<in> set scores. 0 < v" "\<forall>k \<in> set (dict_keys scores). has_key imp k"
    and "0 \<le> n" "0 \<le> ratio" "ratio \<le> 1"
  shows "\<exists>plan ws. partition_capacity scores imp used n ratio crit_ratio = Inr plan
    \<and> distinct (critical plan) \<and> set (critical plan) \<subseteq> set (dict_keys scores) \<and> (scores \<noteq> [] \<longrightarrow> critical plan \<noteq> [])
    \<and> (\<forall>k \<in> set (critical plan). \<forall>j \<in> set (dict_keys scores) - set (critical plan).
         (dict_get scores j 0, dict_get imp j 0, j) \<le> (dict_get scores k 0, dict_get imp k 0, k))
    \<and> dict_keys (reserved plan) = sort (critical plan)
    \<and> dict_sum (reserved plan) = (if scores = [] then 0 else \<lfloor>real_of_int n * ratio\<rfloor>)
    \<and> shared plan = n - dict_sum (reserved plan) \<and> 0 \<le> shared plan
    \<and> partition_weights scores used (critical plan) = Inr ws
    \<and> (\<forall>k. 0 \<le> dict_get (reserved plan) k 0
         \<and> \<bar>real_of_int (dict_get (reserved plan) k 0) - exact_share (dict_sum (reserved plan)) ws k\<bar> < 1)"
proof -
  let ?c = "critical_types scores imp crit_ratio"
  note c = critical_types_spec[OF assms(1), where imp = imp and ratio = crit_ratio]
  let ?res = "if ?c \<noteq> [] then py_int (real_of_int n * ratio) else 0"
  have pos: "0 < dict_get scores k 0" if "k \<in> set ?c" for k
    using that c(2) assms(1,2) by (fastforce simp: dict_get_def)
  obtain ws where ws: "partition_weights scores used ?c = Inr ws" "dict_keys ws = sort ?c" "wf_dict ws" "\<forall>(k, w) \<in> set ws. 0 < w"
    using partition_weights_spec[OF c(1) pos] by blast
  have res: "0 \<le> ?res" "ws = [] \<Longrightarrow> ?res = 0" using assms(4,5) arg_cong[OF ws(2), of length] by auto
  note sc = share_counts_spec[OF ws(3,4) res]
  have "real_of_int n * ratio \<le> real_of_int n" using assms(4-6) by (simp add: mult_left_le)
  then have le: "?res \<le> n" using assms(4,5) by (simp add: floor_le_iff)
  have sum: "?res = (if scores = [] then 0 else \<lfloor>real_of_int n * ratio\<rfloor>)" using c(3,4) assms(4,5) by auto
  have run: "partition_capacity scores imp used n ratio crit_ratio =
      Inr \<lparr>critical = ?c, plan_scores = scores, reserved = share_counts ?res ws, shared = n - ?res\<rparr>"
    using assms(3) ws(1) by (simp add: partition_capacity_def Let_def)
  show ?thesis
    by (rule exI, rule exI[of _ ws], intro conjI, rule run) (use c ws(1,2) sc le sum in \<open>auto simp del: of_int_mult\<close>)
qed

text \<open>
  C8: the capacity partition never loses or invents a block. With positive scores it returns a plan
  in which the critical types are the best ones by score, importance and name, at least one if there
  is any; exactly the critical types have a reservation; the reservations add up to the integral part
  of the reserved fraction, the shared rest is what remains of all blocks, and every reservation is
  within one block of its weight's exact share.
\<close>

theorem partition_exact:
  assumes "wf_dict scores" "\<forall>(k, v) \<in> set scores. 0 < v" "\<forall>k \<in> set (dict_keys scores). has_key imp k"
    and "0 \<le> n" "0 \<le> ratio" "ratio \<le> 1"
  shows "\<exists>plan ws. partition_capacity scores imp used n ratio crit_ratio = Inr plan
    \<and> distinct (critical plan) \<and> set (critical plan) \<subseteq> set (dict_keys scores) \<and> (scores \<noteq> [] \<longrightarrow> critical plan \<noteq> [])
    \<and> (\<forall>k \<in> set (critical plan). \<forall>j \<in> set (dict_keys scores) - set (critical plan).
         (dict_get scores j 0, dict_get imp j 0, j) \<le> (dict_get scores k 0, dict_get imp k 0, k))
    \<and> dict_keys (reserved plan) = sort (critical plan)
    \<and> dict_sum (reserved plan) = (if scores = [] then 0 else \<lfloor>real_of_int n * ratio\<rfloor>)
    \<and> shared plan = n - dict_sum (reserved plan) \<and> 0 \<le> shared plan
    \<and> partition_weights scores used (critical plan) = Inr ws
    \<and> (\<forall>k. 0 \<le> dict_get (reserved plan) k 0
         \<and> \<bar>real_of_int (dict_get (reserved plan) k 0) - exact_share (dict_sum (reserved plan)) ws k\<bar> < 1)"
  by (rule partition_capacity_spec[OF assms])

theorem partition_exact_witness:
  "\<exists>plan. partition_capacity [(''a'', 2), (''b'', 1)] [(''a'', 0), (''b'', 0)] [(''a'', 3)] 10 (1/2) (1/2) = Inr plan
    \<and> dict_sum (reserved plan) = 5 \<and> shared plan = 5 \<and> critical plan \<noteq> []"
  using partition_exact[of "[(''a'', 2), (''b'', 1)]" "[(''a'', 0), (''b'', 0)]" 10 "1/2" "[(''a'', 3)]" "1/2"]
  by (auto simp: has_key_def)

end
