(* ===== verification/Request_Queue.thy ===== *)
theory Request_Queue
  imports Request "HOL-Library.Multiset"
begin

text \<open>
  The waiting queues of the scheduler, \<^verbatim>\<open>vllm/v1/core/sched/request_queue.py\<close>: the first-come
  first-served deque and the priority heap, behind one interface. The heap operations are those of
  Python's standard module \<^verbatim>\<open>heapq\<close> on a list, written for an arbitrary comparison.
\<close>

section \<open>heapq\<close>

abbreviation heap_parent :: "nat \<Rightarrow> nat" where
  "heap_parent i \<equiv> (i - 1) div 2"

text \<open>\<^verbatim>\<open>_siftdown\<close>: the item \<open>x\<close> moves from position \<open>i\<close> towards \<open>s\<close> past larger parents.\<close>

fun siftdown :: "('a \<Rightarrow> 'a \<Rightarrow> bool) \<Rightarrow> 'a list \<Rightarrow> nat \<Rightarrow> nat \<Rightarrow> 'a \<Rightarrow> 'a list" where
  "siftdown lt h s i x =
     (if s < i \<and> lt x (h ! heap_parent i)
      then siftdown lt (h[i := h ! heap_parent i]) s (heap_parent i) x
      else h[i := x])"

declare siftdown.simps [simp del]

definition smaller_child :: "('a \<Rightarrow> 'a \<Rightarrow> bool) \<Rightarrow> 'a list \<Rightarrow> nat \<Rightarrow> nat" where
  "smaller_child lt h i =
     (let c = 2 * i + 1 in if c + 1 < length h \<and> \<not> lt (h ! c) (h ! (c + 1)) then c + 1 else c)"

text \<open>The loop of \<^verbatim>\<open>_siftup\<close>: smaller children move up until the hole is at a leaf.\<close>

function sift_hole :: "('a \<Rightarrow> 'a \<Rightarrow> bool) \<Rightarrow> 'a list \<Rightarrow> nat \<Rightarrow> 'a list \<times> nat" where
  "sift_hole lt h i =
     (if 2 * i + 1 < length h
      then sift_hole lt (h[i := h ! smaller_child lt h i]) (smaller_child lt h i)
      else (h, i))"
  by auto
termination by (relation "measure (\<lambda>(lt, h, i). length h - i)") (auto simp: smaller_child_def Let_def)

declare sift_hole.simps [simp del]

definition siftup :: "('a \<Rightarrow> 'a \<Rightarrow> bool) \<Rightarrow> 'a list \<Rightarrow> nat \<Rightarrow> 'a list" where
  "siftup lt h i = (let x = h ! i; (h, j) = sift_hole lt h i in siftdown lt (h[j := x]) i j x)"

definition heappush :: "('a \<Rightarrow> 'a \<Rightarrow> bool) \<Rightarrow> 'a list \<Rightarrow> 'a \<Rightarrow> 'a list" where
  "heappush lt h x = siftdown lt (h @ [x]) 0 (length h) x"

definition heappop :: "('a \<Rightarrow> 'a \<Rightarrow> bool) \<Rightarrow> 'a list \<Rightarrow> ('a \<times> 'a list) res" where
  "heappop lt h =
     (if h = [] then Inl IndexError
      else if butlast h = [] then Inr (last h, [])
      else Inr (hd h, siftup lt ((butlast h)[0 := last h]) 0))"

definition heapify :: "('a \<Rightarrow> 'a \<Rightarrow> bool) \<Rightarrow> 'a list \<Rightarrow> 'a list" where
  "heapify lt h = fold (\<lambda>i h. siftup lt h i) (rev [0..<length h div 2]) h"

lemma length_siftdown [simp]: "length (siftdown lt h s i x) = length h"
  by (induction lt h s i x rule: siftdown.induct) (subst siftdown.simps, simp)

lemma length_sift_hole [simp]: "length (fst (sift_hole lt h i)) = length h"
  by (induction lt h i rule: sift_hole.induct) (subst sift_hole.simps, simp)

lemma length_siftup [simp]: "length (siftup lt h i) = length h"
  using length_sift_hole[of lt h i] by (cases "sift_hole lt h i") (simp add: siftup_def Let_def)

lemma heappop_length: "heappop lt h = Inr (x, h') \<Longrightarrow> length h' < length h"
  by (auto simp: heappop_def split: if_splits)

text \<open>Iteration pops a copy of the heap until it is empty.\<close>

function heap_iter :: "('a \<Rightarrow> 'a \<Rightarrow> bool) \<Rightarrow> 'a list \<Rightarrow> 'a list" where
  "heap_iter lt h = (case heappop lt h of Inl _ \<Rightarrow> [] | Inr (x, h') \<Rightarrow> x # heap_iter lt h')"
  by auto
termination by (relation "measure (\<lambda>(lt, h). length h)") (auto dest: heappop_length)

declare heap_iter.simps [simp del]

section \<open>The queues\<close>

datatype scheduling_policy = FCFS | PRIORITY

text \<open>Requests are compared by identity: \<^verbatim>\<open>Request\<close> defines no equality of its own.\<close>

fun list_remove :: "request \<Rightarrow> request list \<Rightarrow> request list res" where
  "list_remove r [] = Inl (ValueError ''not in list'')"
| "list_remove r (x # xs) =
     (if obj_id x = obj_id r then Inr xs else rbind (list_remove r xs) (\<lambda>ys. Inr (x # ys)))"

definition without :: "request list \<Rightarrow> request list \<Rightarrow> request list" where
  "without rs xs = filter (\<lambda>x. obj_id x \<notin> obj_id ` set rs) xs"

definition fcfs_add_request :: "request \<Rightarrow> request list \<Rightarrow> request list" where
  "fcfs_add_request r q = q @ [r]"

definition fcfs_pop_request :: "request list \<Rightarrow> (request \<times> request list) res" where
  "fcfs_pop_request q = (case q of [] \<Rightarrow> Inl IndexError | r # q \<Rightarrow> Inr (r, q))"

definition fcfs_peek_request :: "request list \<Rightarrow> request res" where
  "fcfs_peek_request q = (case q of [] \<Rightarrow> Inl IndexError | r # _ \<Rightarrow> Inr r)"

definition fcfs_prepend_request :: "request \<Rightarrow> request list \<Rightarrow> request list" where
  "fcfs_prepend_request r q = r # q"

text \<open>\<^verbatim>\<open>extendleft\<close> reverses the order of the requests it prepends.\<close>

definition fcfs_prepend_requests :: "request list \<Rightarrow> request list \<Rightarrow> request list" where
  "fcfs_prepend_requests rs q = fold fcfs_prepend_request rs q"

definition fcfs_remove_request :: "request \<Rightarrow> request list \<Rightarrow> request list res" where
  "fcfs_remove_request r q = list_remove r q"

definition fcfs_remove_requests :: "request list \<Rightarrow> request list \<Rightarrow> request list" where
  "fcfs_remove_requests rs q = without rs q"

definition fcfs_iter :: "request list \<Rightarrow> request list" where
  "fcfs_iter q = q"

definition priority_add_request :: "request \<Rightarrow> request list \<Rightarrow> request list" where
  "priority_add_request r h = heappush request_lt h r"

definition priority_pop_request :: "request list \<Rightarrow> (request \<times> request list) res" where
  "priority_pop_request h = (if h = [] then Inl IndexError else heappop request_lt h)"

definition priority_peek_request :: "request list \<Rightarrow> request res" where
  "priority_peek_request h = (if h = [] then Inl IndexError else Inr (h ! 0))"

definition priority_prepend_request :: "request \<Rightarrow> request list \<Rightarrow> request list" where
  "priority_prepend_request r h = priority_add_request r h"

definition priority_prepend_requests :: "request list \<Rightarrow> request list \<Rightarrow> request list" where
  "priority_prepend_requests rs h = fold priority_add_request rs h"

definition priority_remove_request :: "request \<Rightarrow> request list \<Rightarrow> request list res" where
  "priority_remove_request r h = rbind (list_remove r h) (\<lambda>h. Inr (heapify request_lt h))"

definition priority_remove_requests :: "request list \<Rightarrow> request list \<Rightarrow> request list" where
  "priority_remove_requests rs h = heapify request_lt (without rs h)"

definition priority_iter :: "request list \<Rightarrow> request list" where
  "priority_iter h = heap_iter request_lt h"

text \<open>A queue of either policy.\<close>

datatype request_queue = FCFSRequestQueue "request list" | PriorityRequestQueue "request list"

fun create_request_queue :: "scheduling_policy \<Rightarrow> request_queue" where
  "create_request_queue PRIORITY = PriorityRequestQueue []"
| "create_request_queue FCFS = FCFSRequestQueue []"

fun queue_add :: "request \<Rightarrow> request_queue \<Rightarrow> request_queue" where
  "queue_add r (FCFSRequestQueue q) = FCFSRequestQueue (fcfs_add_request r q)"
| "queue_add r (PriorityRequestQueue h) = PriorityRequestQueue (priority_add_request r h)"

fun queue_pop :: "request_queue \<Rightarrow> (request \<times> request_queue) res" where
  "queue_pop (FCFSRequestQueue q) = rbind (fcfs_pop_request q) (\<lambda>(r, q). Inr (r, FCFSRequestQueue q))"
| "queue_pop (PriorityRequestQueue h) = rbind (priority_pop_request h) (\<lambda>(r, h). Inr (r, PriorityRequestQueue h))"

fun queue_peek :: "request_queue \<Rightarrow> request res" where
  "queue_peek (FCFSRequestQueue q) = fcfs_peek_request q"
| "queue_peek (PriorityRequestQueue h) = priority_peek_request h"

fun queue_iter :: "request_queue \<Rightarrow> request list" where
  "queue_iter (FCFSRequestQueue q) = fcfs_iter q"
| "queue_iter (PriorityRequestQueue h) = priority_iter h"

fun queue_prepend :: "request \<Rightarrow> request_queue \<Rightarrow> request_queue" where
  "queue_prepend r (FCFSRequestQueue q) = FCFSRequestQueue (fcfs_prepend_request r q)"
| "queue_prepend r (PriorityRequestQueue h) = PriorityRequestQueue (priority_prepend_request r h)"

fun queue_prepend_all :: "request_queue \<Rightarrow> request_queue \<Rightarrow> request_queue" where
  "queue_prepend_all p (FCFSRequestQueue q) = FCFSRequestQueue (fcfs_prepend_requests (queue_iter p) q)"
| "queue_prepend_all p (PriorityRequestQueue h) = PriorityRequestQueue (priority_prepend_requests (queue_iter p) h)"

fun queue_remove_request :: "request \<Rightarrow> request_queue \<Rightarrow> request_queue res" where
  "queue_remove_request r (FCFSRequestQueue q) = rbind (fcfs_remove_request r q) (\<lambda>q. Inr (FCFSRequestQueue q))"
| "queue_remove_request r (PriorityRequestQueue h) = rbind (priority_remove_request r h) (\<lambda>h. Inr (PriorityRequestQueue h))"

fun queue_remove_requests :: "request list \<Rightarrow> request_queue \<Rightarrow> request_queue" where
  "queue_remove_requests rs (FCFSRequestQueue q) = FCFSRequestQueue (fcfs_remove_requests rs q)"
| "queue_remove_requests rs (PriorityRequestQueue h) = PriorityRequestQueue (priority_remove_requests rs h)"

fun queue_len :: "request_queue \<Rightarrow> nat" where
  "queue_len (FCFSRequestQueue q) = length q"
| "queue_len (PriorityRequestQueue h) = length h"

definition queue_bool :: "request_queue \<Rightarrow> bool" where
  "queue_bool q \<longleftrightarrow> queue_len q > 0"

section \<open>The heap invariant\<close>

text \<open>From position \<open>s\<close> on, no item is smaller than its parent.\<close>

definition heap_from :: "('a \<Rightarrow> 'a \<Rightarrow> bool) \<Rightarrow> nat \<Rightarrow> 'a list \<Rightarrow> bool" where
  "heap_from lt s h \<longleftrightarrow> (\<forall>i < length h. 0 < i \<longrightarrow> s \<le> heap_parent i \<longrightarrow> \<not> lt (h ! i) (h ! heap_parent i))"

text \<open>The same, except for the item at \<open>p\<close>, and for its children too when it is a hole.\<close>

definition heap_but :: "('a \<Rightarrow> 'a \<Rightarrow> bool) \<Rightarrow> nat \<Rightarrow> nat \<Rightarrow> bool \<Rightarrow> 'a list \<Rightarrow> bool" where
  "heap_but lt s p hole h \<longleftrightarrow>
     (\<forall>i < length h. 0 < i \<longrightarrow> s \<le> heap_parent i \<longrightarrow> i \<noteq> p \<longrightarrow> \<not> (hole \<and> heap_parent i = p) \<longrightarrow> \<not> lt (h ! i) (h ! heap_parent i))
     \<and> (\<forall>i < length h. 0 < i \<longrightarrow> heap_parent i = p \<longrightarrow> 0 < p \<longrightarrow> s \<le> heap_parent p \<longrightarrow> \<not> lt (h ! i) (h ! heap_parent p))"

lemma parent_less: "0 < i \<Longrightarrow> heap_parent i < i"
  by linarith

fun below :: "nat \<Rightarrow> nat \<Rightarrow> bool" where
  "below s p \<longleftrightarrow> (if s < p then below s (heap_parent p) else p = s)"

declare below.simps [simp del]

lemma below_ge: "below s p \<Longrightarrow> s \<le> p"
  by (subst (asm) below.simps) (auto split: if_splits)

lemma below_parent: "below s p \<Longrightarrow> p \<noteq> s \<Longrightarrow> s < p \<and> below s (heap_parent p) \<and> s \<le> heap_parent p"
  by (subst (asm) below.simps) (auto split: if_splits dest: below_ge)

lemma below_child: "below s p \<Longrightarrow> heap_parent c = p \<Longrightarrow> p < c \<Longrightarrow> below s c"
  by (subst below.simps) (auto dest: below_ge)

lemma below_zero: "below 0 p"
proof (induction p rule: less_induct)
  case (less p)
  then show ?case by (subst below.simps) (cases "p = 0"; simp)
qed

lemma mset_move:
  "i < length h \<Longrightarrow> j < length h \<Longrightarrow> i \<noteq> j \<Longrightarrow> mset (h[i := h ! j, j := x]) = mset (h[i := x])"
  using mset_swap[of j "h[i := x]" i] by simp

text \<open>A strict weak order is what the heap operations need of a comparison.\<close>

locale weak_order =
  fixes lt :: "'a \<Rightarrow> 'a \<Rightarrow> bool"
  assumes irrefl: "\<not> lt x x" and less_trans: "lt x y \<Longrightarrow> lt y z \<Longrightarrow> lt x z"
    and not_less_trans: "\<not> lt x y \<Longrightarrow> \<not> lt y z \<Longrightarrow> \<not> lt x z"
begin

lemma asym: "lt x y \<Longrightarrow> \<not> lt y x"
  using less_trans irrefl by blast

lemma siftdown_step:
  assumes but: "heap_but lt s i False (h[i := x])" and i: "i < length h" "s < i" "below s i" and x: "lt x (h ! heap_parent i)"
  shows "heap_but lt s (heap_parent i) False (h[i := h ! heap_parent i, heap_parent i := x])"
proof -
  let ?p = "heap_parent i" and ?g = "h[i := x]" and ?h = "h[i := h ! heap_parent i, heap_parent i := x]"
  have ne: "?p < i" "?p < length h" "s \<le> ?p" using i below_parent[OF i(3)] by auto
  have vi: "?h ! i = h ! ?p" "?h ! ?p = x" "?g ! i = x" using i(1) ne by simp_all
  have vo: "k \<noteq> i \<Longrightarrow> ?g ! k = h ! k" "k \<noteq> i \<Longrightarrow> k \<noteq> ?p \<Longrightarrow> ?h ! k = h ! k" for k by simp_all
  have edge: "\<not> lt (?g ! j) (?g ! heap_parent j)" if "j < length h" "0 < j" "s \<le> heap_parent j" "j \<noteq> i" for j
    using but that unfolding heap_but_def length_list_update by blast
  have skip: "\<not> lt (?g ! j) (?g ! ?p)" if "j < length h" "0 < j" "heap_parent j = i" for j
    using but that i(2) ne(3) unfolding heap_but_def length_list_update by (metis gr_zeroI not_less_zero)
  have pi: "?p \<noteq> i" using ne(1) by simp
  have "\<not> lt (?h ! j) (?h ! heap_parent j)" if j: "j < length h" "0 < j" "s \<le> heap_parent j" "j \<noteq> ?p" for j
  proof (cases "j = i")
    case True
    then show ?thesis using asym[OF x] vi by simp
  next
    case False
    note e = edge[OF j(1-3) False]
    consider "heap_parent j = i" | "heap_parent j = ?p" | "heap_parent j \<noteq> i" "heap_parent j \<noteq> ?p" by blast
    then show ?thesis
    proof cases
      case 1
      have "\<not> lt (h ! j) (h ! ?p)" using skip[OF j(1,2) 1] unfolding vo(1)[OF False] vo(1)[OF pi] .
      then show ?thesis unfolding 1 vi(1) vo(2)[OF False j(4)] .
    next
      case 2
      have "\<not> lt (h ! j) (h ! ?p)" using e unfolding 2 vo(1)[OF False] vo(1)[OF pi] .
      then show ?thesis using less_trans[OF _ x] unfolding 2 vi(2) vo(2)[OF False j(4)] by blast
    next
      case 3
      show ?thesis using e unfolding vo(1)[OF False] vo(1)[OF 3(1)] vo(2)[OF False j(4)] vo(2)[OF 3] .
    qed
  qed
  moreover have "\<not> lt (?h ! j) (?h ! heap_parent ?p)"
    if j: "j < length h" "0 < j" "heap_parent j = ?p" "0 < ?p" "s \<le> heap_parent ?p" for j
  proof -
    have lt: "heap_parent ?p \<noteq> ?p" "heap_parent ?p \<noteq> i" "j \<noteq> ?p"
      using parent_less[OF j(4)] parent_less[OF j(2)] ne(1) j(3) by simp_all
    have p: "\<not> lt (h ! ?p) (h ! heap_parent ?p)" using edge[OF ne(2) j(4,5) pi] unfolding vo(1)[OF pi] vo(1)[OF lt(2)] .
    show ?thesis
    proof (cases "j = i")
      case True
      show ?thesis using p unfolding True vi(1) vo(2)[OF lt(2,1)] .
    next
      case False
      have "\<not> lt (h ! j) (h ! ?p)" using edge[OF j(1,2) _ False] ne(3) unfolding j(3) vo(1)[OF False] vo(1)[OF pi] by blast
      then have "\<not> lt (h ! j) (h ! heap_parent ?p)" using p by (rule not_less_trans)
      then show ?thesis unfolding vo(2)[OF False lt(3)] vo(2)[OF lt(2,1)] .
    qed
  qed
  ultimately show ?thesis unfolding heap_but_def length_list_update by blast
qed

lemma siftdown_heap:
  assumes "heap_but lt s i False (h[i := x])" "i < length h" "below s i"
  shows "heap_from lt s (siftdown lt h s i x) \<and> mset (siftdown lt h s i x) = mset (h[i := x])"
  using assms
proof (induction i arbitrary: h rule: less_induct)
  case (less i)
  let ?p = "heap_parent i"
  show ?case
  proof (cases "s < i \<and> lt x (h ! ?p)")
    case True
    have p: "?p < i" "below s ?p" using True below_parent[OF less.prems(3)] by auto
    let ?h = "h[i := h ! ?p]"
    have "heap_but lt s ?p False (?h[?p := x])" using siftdown_step[OF less.prems(1,2) _ less.prems(3)] True by simp
    from less.IH[OF p(1) this _ p(2)] have "heap_from lt s (siftdown lt ?h s ?p x) \<and> mset (siftdown lt ?h s ?p x) = mset (?h[?p := x])"
      using p less.prems(2) by simp
    moreover have "mset (?h[?p := x]) = mset (h[i := x])" using mset_move[of i h ?p x] p(1) less.prems(2) by simp
    moreover have "siftdown lt h s i x = siftdown lt ?h s ?p x" by (subst siftdown.simps) (simp only: True simp_thms if_True)
    ultimately show ?thesis by simp
  next
    case False
    have "\<not> lt (h[i := x] ! j) (h[i := x] ! heap_parent j)" if "j < length h" "0 < j" "s \<le> heap_parent j" for j
    proof (cases "j = i")
      case True
      then have "s < i" using that by auto
      then show ?thesis using False True that less.prems(2) by auto
    next
      case ne: False
      then show ?thesis using less.prems(1) that by (auto simp: heap_but_def)
    qed
    then have "heap_from lt s (h[i := x])" by (simp add: heap_from_def)
    moreover have "siftdown lt h s i x = h[i := x]" by (subst siftdown.simps) (simp only: False if_False)
    ultimately show ?thesis by simp
  qed
qed

lemma smaller_child_spec:
  assumes "2 * i + 1 < length h"
  shows "smaller_child lt h i < length h" "heap_parent (smaller_child lt h i) = i" "i < smaller_child lt h i"
    "c < length h \<Longrightarrow> 0 < c \<Longrightarrow> heap_parent c = i \<Longrightarrow> \<not> lt (h ! c) (h ! smaller_child lt h i)"
proof -
  show "smaller_child lt h i < length h" "heap_parent (smaller_child lt h i) = i" "i < smaller_child lt h i"
    using assms by (auto simp: smaller_child_def Let_def)
  assume c: "c < length h" "0 < c" "heap_parent c = i"
  then have "c = 2 * i + 1 \<or> c = 2 * i + 2" by linarith
  then show "\<not> lt (h ! c) (h ! smaller_child lt h i)"
    using c irrefl asym by (auto simp: smaller_child_def Let_def)
qed

lemma sift_hole_step:
  assumes but: "heap_but lt s i True h" and i: "below s i" and c: "2 * i + 1 < length h"
  shows "heap_but lt s (smaller_child lt h i) True (h[i := h ! smaller_child lt h i])"
proof -
  let ?c = "smaller_child lt h i"
  note sc = smaller_child_spec[OF c]
  let ?h = "h[i := h ! ?c]"
  have edge: "\<not> lt (h ! j) (h ! heap_parent j)"
    if "j < length h" "0 < j" "s \<le> heap_parent j" "j \<noteq> i" "heap_parent j \<noteq> i" for j
    using but that by (auto simp: heap_but_def)
  have "\<not> lt (?h ! j) (?h ! heap_parent j)"
    if j: "j < length h" "0 < j" "s \<le> heap_parent j" "j \<noteq> ?c" "heap_parent j \<noteq> ?c" for j
  proof -
    have pj: "heap_parent j \<noteq> j" using parent_less[OF j(2)] by simp
    consider "j = i" | "j \<noteq> i" "heap_parent j = i" | "j \<noteq> i" "heap_parent j \<noteq> i" by blast
    then show ?thesis
    proof cases
      case 1
      then have "\<not> lt (h ! ?c) (h ! heap_parent i)" using but sc(1-3) j by (auto simp: heap_but_def)
      then show ?thesis using 1 j(1) pj by simp
    next
      case 2
      then show ?thesis using sc(4)[OF j(1,2) 2(2)] c by simp
    next
      case 3
      then show ?thesis using edge[OF j(1-3)] by simp
    qed
  qed
  moreover have "\<not> lt (?h ! j) (?h ! heap_parent ?c)" if "j < length h" "0 < j" "heap_parent j = ?c" for j
  proof -
    have "?c < j" using parent_less[OF that(2)] that(3) by simp
    then have "j \<noteq> i" "heap_parent j \<noteq> i" "s \<le> heap_parent j" using that(3) sc(3) below_ge[OF i] by linarith+
    from edge[OF that(1,2) this(3,1,2)] show ?thesis using that(3) sc(2) \<open>j \<noteq> i\<close> c by simp
  qed
  ultimately show ?thesis by (simp add: heap_but_def)
qed

lemma sift_hole_heap:
  assumes "heap_but lt s i True h" "i < length h" "below s i" "sift_hole lt h i = (g, j)"
  shows "heap_but lt s j True g \<and> j < length h \<and> length g = length h \<and> \<not> 2 * j + 1 < length h \<and> below s j
    \<and> mset (g[j := x]) = mset (h[i := x])"
  using assms
proof (induction "length h - i" arbitrary: h i rule: less_induct)
  case less
  let ?c = "smaller_child lt h i" and ?h = "h[i := h ! smaller_child lt h i]"
  show ?case
  proof (cases "2 * i + 1 < length h")
    case True
    note sc = smaller_child_spec[OF True]
    have run: "sift_hole lt ?h ?c = (g, j)" using less.prems(4) True by (subst (asm) sift_hole.simps) simp
    have "length ?h - ?c < length h - i" using sc by simp
    from less.hyps[OF this sift_hole_step[OF less.prems(1,3) True] _ below_child[OF less.prems(3) sc(2,3)] run]
    have "heap_but lt s j True g \<and> j < length ?h \<and> length g = length ?h \<and> \<not> 2 * j + 1 < length ?h \<and> below s j
      \<and> mset (g[j := x]) = mset (?h[?c := x])" using sc(1) by simp
    then show ?thesis using mset_move[OF less.prems(2) sc(1)] sc(3) by simp
  next
    case False
    then have "g = h" "j = i" using less.prems(4) sift_hole.simps[of lt h i] by auto
    then show ?thesis using less.prems(1-3) False by simp
  qed
qed

lemma siftup_heap:
  assumes "heap_from lt (Suc s) h" "s < length h"
  shows "heap_from lt s (siftup lt h s) \<and> mset (siftup lt h s) = mset h"
proof -
  obtain g j where run: "sift_hole lt h s = (g, j)" by fastforce
  have "heap_parent s < s \<or> s = 0" using parent_less by blast
  then have "heap_but lt s s True h" using assms(1) by (auto simp: heap_but_def heap_from_def)
  moreover have "below s s" by (simp add: below.simps)
  ultimately have g: "heap_but lt s j True g" "j < length h" "length g = length h" "\<not> 2 * j + 1 < length h" "below s j"
    "mset (g[j := h ! s]) = mset (h[s := h ! s])"
    using sift_hole_heap[OF _ assms(2) _ run, of s "h ! s"] by auto
  have leaf: "heap_parent i \<noteq> j" if "i < length h" "0 < i" for i using g(4) that by linarith
  have "\<not> lt (g[j := h ! s] ! i) (g[j := h ! s] ! heap_parent i)" if "i < length h" "0 < i" "s \<le> heap_parent i" "i \<noteq> j" for i
    using g(1,3) leaf[OF that(1,2)] that by (auto simp: heap_but_def)
  then have "heap_but lt s j False (g[j := h ! s])" using g(3) leaf by (auto simp: heap_but_def)
  then have "heap_from lt s (siftdown lt (g[j := h ! s]) s j (h ! s)) \<and> mset (siftdown lt (g[j := h ! s]) s j (h ! s)) = mset h"
    using siftdown_heap[of s j "g[j := h ! s]" "h ! s"] g by simp
  then show ?thesis by (simp add: siftup_def run Let_def)
qed

lemma heappush_heap:
  assumes "heap_from lt 0 h"
  shows "heap_from lt 0 (heappush lt h x)" "mset (heappush lt h x) = add_mset x (mset h)"
proof -
  have "heap_but lt 0 (length h) False ((h @ [x])[length h := x])"
    unfolding heap_but_def
  proof (intro conjI allI impI)
    fix i assume i: "i < length ((h @ [x])[length h := x])" "0 < i" "i \<noteq> length h"
    then have "i < length h" "heap_parent i < length h" using parent_less[OF i(2)] by simp_all
    then show "\<not> lt ((h @ [x])[length h := x] ! i) ((h @ [x])[length h := x] ! heap_parent i)"
      using assms i(2) by (simp add: heap_from_def nth_append)
  next
    fix i assume i: "i < length ((h @ [x])[length h := x])" "0 < i" "heap_parent i = length h"
    then show "\<not> lt ((h @ [x])[length h := x] ! i) ((h @ [x])[length h := x] ! heap_parent (length h))"
      using parent_less[OF i(2)] by simp
  qed
  from siftdown_heap[OF this _ below_zero]
  show "heap_from lt 0 (heappush lt h x)" "mset (heappush lt h x) = add_mset x (mset h)"
    by (simp_all add: heappush_def)
qed

lemma heap_root:
  assumes "heap_from lt 0 h" "i < length h"
  shows "\<not> lt (h ! i) (h ! 0)"
  using assms(2)
proof (induction i rule: less_induct)
  case (less i)
  show ?case
  proof (cases "i = 0")
    case False
    then have p: "heap_parent i < i" using parent_less by simp
    have "\<not> lt (h ! i) (h ! heap_parent i)" using assms(1) less.prems False by (simp add: heap_from_def)
    moreover have "\<not> lt (h ! heap_parent i) (h ! 0)" using less.IH[OF p] p less.prems by simp
    ultimately show ?thesis by (rule not_less_trans)
  qed (simp add: irrefl)
qed

lemma heappop_heap:
  assumes heap: "heap_from lt 0 h" and "h \<noteq> []"
  shows "\<exists>h'. heappop lt h = Inr (h ! 0, h') \<and> heap_from lt 0 h' \<and> mset h = add_mset (h ! 0) (mset h')"
proof (cases "butlast h = []")
  case True
  then have "h = [last h]" using assms(2) append_butlast_last_id by fastforce
  then have "h ! 0 = last h" "mset h = {#last h#}" by (metis nth_Cons_0, metis mset_single_iff)
  then show ?thesis using True assms(2) by (simp add: heappop_def heap_from_def)
next
  case False
  let ?g = "(butlast h)[0 := last h]"
  have h: "h = butlast h @ [last h]" using assms(2) by simp
  have n: "0 < length ?g" using False unfolding length_list_update by blast
  have "heap_from lt (Suc 0) ?g"
    using heap by (auto simp: heap_from_def nth_butlast nth_list_update)
  from siftup_heap[OF this n] have s: "heap_from lt 0 (siftup lt ?g 0)" "mset (siftup lt ?g 0) = mset ?g" by auto
  have "hd h = h ! 0" using assms(2) by (rule hd_conv_nth)
  moreover obtain y ys where b: "butlast h = y # ys" using False by (cases "butlast h") auto
  then have "h ! 0 = y" using h by (metis append_Cons nth_Cons_0)
  moreover have "mset h = add_mset y (mset ?g)" using b arg_cong[OF h, of mset] by simp
  ultimately show ?thesis using s False assms(2) by (simp add: heappop_def)
qed

lemma heapify_heap: "heap_from lt 0 (heapify lt h) \<and> mset (heapify lt h) = mset h"
proof -
  have "heap_from lt 0 (fold (\<lambda>i h. siftup lt h i) (rev [0..<n]) g) \<and> mset (fold (\<lambda>i h. siftup lt h i) (rev [0..<n]) g) = mset g"
    if "heap_from lt n g" "n \<le> length g" for n g
    using that
  proof (induction n arbitrary: g)
    case (Suc n)
    have s: "heap_from lt n (siftup lt g n)" "mset (siftup lt g n) = mset g" using siftup_heap[OF Suc.prems(1)] Suc.prems(2) by auto
    show ?case using Suc.IH[OF s(1)] Suc.prems(2) s(2) by simp
  qed simp
  moreover have "\<not> length h div 2 \<le> heap_parent i" if "i < length h" "0 < i" for i using that by linarith
  then have "heap_from lt (length h div 2) h" by (simp add: heap_from_def)
  ultimately show ?thesis by (simp add: heapify_def)
qed

lemma heap_iter_sorted:
  assumes "heap_from lt 0 h"
  shows "mset (heap_iter lt h) = mset h \<and> sorted_wrt (\<lambda>a b. \<not> lt b a) (heap_iter lt h)"
  using assms
proof (induction "length h" arbitrary: h rule: less_induct)
  case less
  show ?case
  proof (cases "h = []")
    case True
    then show ?thesis by (simp add: heap_iter.simps heappop_def)
  next
    case False
    obtain h' where h': "heappop lt h = Inr (h ! 0, h')" "heap_from lt 0 h'" "mset h = add_mset (h ! 0) (mset h')"
      using heappop_heap[OF less.prems False] by blast
    have IH: "mset (heap_iter lt h') = mset h'" "sorted_wrt (\<lambda>a b. \<not> lt b a) (heap_iter lt h')"
      using less.hyps[OF heappop_length[OF h'(1)] h'(2)] by auto
    have "set (heap_iter lt h') \<subseteq> set h" using IH(1) h'(3) by (metis set_mset_mset set_mset_add_mset_insert subset_insertI)
    then have "\<forall>y \<in> set (heap_iter lt h'). \<not> lt y (h ! 0)" using heap_root[OF less.prems] by (metis in_set_conv_nth subsetD)
    then show ?thesis using h' IH by (simp add: heap_iter.simps[of lt h])
  qed
qed

end

text \<open>The order of requests in priority scheduling.\<close>

interpretation req: weak_order "request_lt :: request \<Rightarrow> request \<Rightarrow> bool"
  by unfold_locales (auto simp: request_lt_def split: if_splits)

section \<open>The queue interface\<close>

primrec pop_n :: "('q \<Rightarrow> (request \<times> 'q) res) \<Rightarrow> nat \<Rightarrow> 'q \<Rightarrow> (request list \<times> 'q) res" where
  "pop_n pop 0 q = Inr ([], q)"
| "pop_n pop (Suc n) q = rbind (pop q) (\<lambda>(r, q). rbind (pop_n pop n q) (\<lambda>(rs, q). Inr (r # rs, q)))"

locale waiting_queue =
  fixes inv :: "'q \<Rightarrow> bool" and add :: "request \<Rightarrow> 'q \<Rightarrow> 'q" and prepend :: "request \<Rightarrow> 'q \<Rightarrow> 'q"
    and pop :: "'q \<Rightarrow> (request \<times> 'q) res" and peek :: "'q \<Rightarrow> request res" and iter :: "'q \<Rightarrow> request list"
    and remove :: "request \<Rightarrow> 'q \<Rightarrow> 'q res" and remove_all :: "request list \<Rightarrow> 'q \<Rightarrow> 'q"
  assumes add_ok: "inv q \<Longrightarrow> inv (add r q) \<and> mset (iter (add r q)) = add_mset r (mset (iter q))"
    and prepend_ok: "inv q \<Longrightarrow> inv (prepend r q) \<and> mset (iter (prepend r q)) = add_mset r (mset (iter q))"
    and pop_empty: "inv q \<Longrightarrow> iter q = [] \<Longrightarrow> pop q = Inl IndexError \<and> peek q = Inl IndexError"
    and pop_next: "inv q \<Longrightarrow> iter q = r # rs \<Longrightarrow> peek q = Inr r \<and> (\<exists>q'. pop q = Inr (r, q') \<and> inv q' \<and> iter q' = rs)"
    and remove_ok: "inv q \<Longrightarrow> \<exists>x. x \<in> set (iter q) \<and> obj_id x = obj_id r \<Longrightarrow>
      \<exists>q' x. remove r q = Inr q' \<and> obj_id x = obj_id r \<and> inv q' \<and> mset (iter q) = add_mset x (mset (iter q'))"
    and remove_missing: "inv q \<Longrightarrow> \<forall>x \<in> set (iter q). obj_id x \<noteq> obj_id r \<Longrightarrow> \<exists>e. remove r q = Inl e"
    and remove_all_ok: "inv q \<Longrightarrow> inv (remove_all rs q)
      \<and> mset (iter (remove_all rs q)) = filter_mset (\<lambda>x. obj_id x \<notin> obj_id ` set rs) (mset (iter q))"
begin

lemma drain: "inv q \<Longrightarrow> \<exists>q'. pop_n pop (length (iter q)) q = Inr (iter q, q') \<and> inv q' \<and> iter q' = []"
proof (induction "iter q" arbitrary: q)
  case Nil
  then show ?case by (metis list.size(3) pop_n.simps(1))
next
  case (Cons r rs)
  obtain q' where q': "pop q = Inr (r, q')" "inv q'" "iter q' = rs" using pop_next[OF Cons.prems Cons.hyps(2)[symmetric]] by blast
  obtain q'' where q'': "pop_n pop (length rs) q' = Inr (rs, q'')" "inv q''" "iter q'' = []"
    using Cons.hyps(1)[OF q'(3)[symmetric] q'(2)] q'(3) by auto
  show ?case using q' q'' by (simp add: Cons.hyps(2)[symmetric])
qed

lemma prepend_all: "inv q \<Longrightarrow> inv (fold prepend rs q) \<and> mset (iter (fold prepend rs q)) = mset rs + mset (iter q)"
proof (induction rs arbitrary: q)
  case (Cons r rs)
  then show ?case using prepend_ok[OF Cons.prems, of r] by simp
qed simp

end

text \<open>Both kinds of queue keep the contract.\<close>

lemma list_remove_ok:
  "\<exists>x \<in> set q. obj_id x = obj_id r \<Longrightarrow> \<exists>q' x. list_remove r q = Inr q' \<and> obj_id x = obj_id r \<and> mset q = add_mset x (mset q')"
proof (induction q)
  case (Cons y q)
  show ?case
  proof (cases "obj_id y = obj_id r")
    case False
    then obtain q' x where "list_remove r q = Inr q'" "obj_id x = obj_id r" "mset q = add_mset x (mset q')" using Cons by auto
    then show ?thesis using False by (intro exI[of _ "y # q'"] exI[of _ x]) simp
  qed auto
qed simp

lemma list_remove_missing: "\<forall>x \<in> set q. obj_id x \<noteq> obj_id r \<Longrightarrow> list_remove r q = Inl (ValueError ''not in list'')"
  by (induction q) auto

interpretation fcfs: waiting_queue "\<lambda>_. True" fcfs_add_request fcfs_prepend_request fcfs_pop_request fcfs_peek_request fcfs_iter
  fcfs_remove_request fcfs_remove_requests
proof unfold_locales
  show "\<exists>q' x. fcfs_remove_request r q = Inr q' \<and> obj_id x = obj_id r \<and> True \<and> mset (fcfs_iter q) = add_mset x (mset (fcfs_iter q'))"
    if "\<exists>x. x \<in> set (fcfs_iter q) \<and> obj_id x = obj_id r" for q r
    using that list_remove_ok[of q r] by (auto simp: fcfs_remove_request_def fcfs_iter_def)
  show "\<exists>e. fcfs_remove_request r q = Inl e" if "\<forall>x \<in> set (fcfs_iter q). obj_id x \<noteq> obj_id r" for q r
    using that list_remove_missing[of q r] by (auto simp: fcfs_remove_request_def fcfs_iter_def)
qed (auto simp: fcfs_add_request_def fcfs_prepend_request_def fcfs_pop_request_def fcfs_peek_request_def fcfs_iter_def
    fcfs_remove_requests_def without_def)

abbreviation heap_ok :: "request list \<Rightarrow> bool" where
  "heap_ok \<equiv> heap_from request_lt 0"

lemma mset_priority_iter: "heap_ok h \<Longrightarrow> mset (priority_iter h) = mset h"
  using req.heap_iter_sorted by (simp add: priority_iter_def)

lemma priority_iter_empty: "heap_ok h \<Longrightarrow> priority_iter h = [] \<longleftrightarrow> h = []"
  using mset_priority_iter[of h] by (metis mset_zero_iff)

lemma priority_iter_set: "heap_ok h \<Longrightarrow> set (priority_iter h) = set h"
  using mset_priority_iter[of h] by (metis set_mset_mset)

lemma priority_add_ok: "heap_ok h \<Longrightarrow> heap_ok (priority_add_request r h)
    \<and> mset (priority_iter (priority_add_request r h)) = add_mset r (mset (priority_iter h))"
  using req.heappush_heap[of h r] mset_priority_iter by (simp add: priority_add_request_def)

lemma heapify_iter: "heap_ok (heapify request_lt h) \<and> mset (priority_iter (heapify request_lt h)) = mset (h :: request list)"
  using req.heapify_heap[of h] mset_priority_iter by simp

interpretation prio: waiting_queue heap_ok priority_add_request priority_prepend_request priority_pop_request priority_peek_request
  priority_iter priority_remove_request priority_remove_requests
proof unfold_locales
  show "priority_pop_request q = Inl IndexError \<and> priority_peek_request q = Inl IndexError" if "heap_ok q" "priority_iter q = []" for q
    using that priority_iter_empty[of q] by (simp add: priority_pop_request_def priority_peek_request_def)
  show "priority_peek_request q = Inr r \<and> (\<exists>q'. priority_pop_request q = Inr (r, q') \<and> heap_ok q' \<and> priority_iter q' = rs)"
    if ok: "heap_ok q" and items: "priority_iter q = r # rs" for q r rs
  proof -
    have ne: "q \<noteq> []" using items priority_iter_empty[OF ok] by auto
    obtain h where h: "heappop request_lt q = Inr (q ! 0, h)" "heap_ok h" using req.heappop_heap[OF ok ne] by blast
    then show ?thesis using items ne heap_iter.simps[of request_lt q]
      by (simp add: priority_pop_request_def priority_peek_request_def priority_iter_def)
  qed
  show "\<exists>q' x. priority_remove_request r q = Inr q' \<and> obj_id x = obj_id r \<and> heap_ok q' \<and> mset (priority_iter q) = add_mset x (mset (priority_iter q'))"
    if ok: "heap_ok q" and mem: "\<exists>x. x \<in> set (priority_iter q) \<and> obj_id x = obj_id r" for q r
  proof -
    obtain h x where h: "list_remove r q = Inr h" "obj_id x = obj_id r" "mset q = add_mset x (mset h)"
      using list_remove_ok[of q r] mem priority_iter_set[OF ok] by auto
    then show ?thesis using heapify_iter[of h] mset_priority_iter[OF ok]
      by (intro exI[of _ "heapify request_lt h"] exI[of _ x]) (simp add: priority_remove_request_def)
  qed
  show "\<exists>e. priority_remove_request r q = Inl e" if "heap_ok q" "\<forall>x \<in> set (priority_iter q). obj_id x \<noteq> obj_id r" for q r
    using that list_remove_missing[of q r] priority_iter_set[OF that(1)] by (simp add: priority_remove_request_def)
  show "heap_ok (priority_remove_requests rs q)
      \<and> mset (priority_iter (priority_remove_requests rs q)) = filter_mset (\<lambda>x. obj_id x \<notin> obj_id ` set rs) (mset (priority_iter q))"
    if "heap_ok q" for q rs
    using heapify_iter[of "without rs q"] mset_priority_iter[OF that] by (simp add: priority_remove_requests_def without_def mset_filter)
qed (auto simp: priority_add_ok priority_prepend_request_def)

fun queue_ok :: "request_queue \<Rightarrow> bool" where
  "queue_ok (FCFSRequestQueue q) \<longleftrightarrow> True"
| "queue_ok (PriorityRequestQueue h) \<longleftrightarrow> heap_ok h"

interpretation wq: waiting_queue queue_ok queue_add queue_prepend queue_pop queue_peek queue_iter queue_remove_request queue_remove_requests
proof unfold_locales
  fix q :: request_queue and r :: request and rs
  show "queue_ok (queue_add r q) \<and> mset (queue_iter (queue_add r q)) = add_mset r (mset (queue_iter q))" if "queue_ok q"
    using that fcfs.add_ok prio.add_ok by (cases q) simp_all
  show "queue_ok (queue_prepend r q) \<and> mset (queue_iter (queue_prepend r q)) = add_mset r (mset (queue_iter q))" if "queue_ok q"
    using that fcfs.prepend_ok prio.prepend_ok by (cases q) simp_all
  show "queue_pop q = Inl IndexError \<and> queue_peek q = Inl IndexError" if "queue_ok q" "queue_iter q = []"
    using that fcfs.pop_empty prio.pop_empty by (cases q) simp_all
  show "queue_peek q = Inr r \<and> (\<exists>q'. queue_pop q = Inr (r, q') \<and> queue_ok q' \<and> queue_iter q' = rs)"
    if "queue_ok q" "queue_iter q = r # rs"
  proof (cases q)
    case (FCFSRequestQueue l)
    then show ?thesis using that fcfs.pop_next[of l r rs] by fastforce
  next
    case (PriorityRequestQueue h)
    then show ?thesis using that prio.pop_next[of h r rs] by fastforce
  qed
  show "\<exists>q' x. queue_remove_request r q = Inr q' \<and> obj_id x = obj_id r \<and> queue_ok q' \<and> mset (queue_iter q) = add_mset x (mset (queue_iter q'))"
    if ok: "queue_ok q" and mem: "\<exists>x. x \<in> set (queue_iter q) \<and> obj_id x = obj_id r"
  proof (cases q)
    case (FCFSRequestQueue l)
    then obtain l' x where "fcfs_remove_request r l = Inr l'" "obj_id x = obj_id r" "mset (fcfs_iter l) = add_mset x (mset (fcfs_iter l'))"
      using mem fcfs.remove_ok[of l r] by auto
    then show ?thesis using FCFSRequestQueue by (intro exI[of _ "FCFSRequestQueue l'"] exI[of _ x]) simp
  next
    case (PriorityRequestQueue h)
    then obtain h' x where "priority_remove_request r h = Inr h'" "obj_id x = obj_id r" "heap_ok h'"
      "mset (priority_iter h) = add_mset x (mset (priority_iter h'))"
      using ok mem prio.remove_ok[of h r] by auto
    then show ?thesis using PriorityRequestQueue by (intro exI[of _ "PriorityRequestQueue h'"] exI[of _ x]) simp
  qed
  show "\<exists>e. queue_remove_request r q = Inl e" if "queue_ok q" "\<forall>x \<in> set (queue_iter q). obj_id x \<noteq> obj_id r"
    using that fcfs.remove_missing[of _ r] prio.remove_missing[of _ r] by (cases q) fastforce+
  show "queue_ok (queue_remove_requests rs q) \<and> mset (queue_iter (queue_remove_requests rs q)) = filter_mset (\<lambda>x. obj_id x \<notin> obj_id ` set rs) (mset (queue_iter q))"
    if "queue_ok q"
    using that fcfs.remove_all_ok prio.remove_all_ok by (cases q) simp_all
qed

lemma queue_prepend_all_fold: "queue_prepend_all p q = fold queue_prepend (queue_iter p) q"
proof (cases q)
  case (FCFSRequestQueue l)
  have "FCFSRequestQueue (fold fcfs_prepend_request rs l) = fold queue_prepend rs (FCFSRequestQueue l)" for rs
    by (induction rs arbitrary: l) simp_all
  then show ?thesis using FCFSRequestQueue by (simp add: fcfs_prepend_requests_def)
next
  case (PriorityRequestQueue h)
  have "PriorityRequestQueue (fold priority_add_request rs h) = fold queue_prepend rs (PriorityRequestQueue h)" for rs
    by (induction rs arbitrary: h) (simp_all add: priority_prepend_request_def)
  then show ?thesis using PriorityRequestQueue by (simp add: priority_prepend_requests_def)
qed

lemma queue_len_iter: "queue_ok q \<Longrightarrow> queue_len q = length (queue_iter q)"
  using mset_eq_length[OF mset_priority_iter] by (cases q) (simp_all add: fcfs_iter_def)

section \<open>What comes out of a waiting queue\<close>

datatype queue_op = Add request | Prepend request | PrependAll request_queue | RemoveAll "request list"

fun queue_step :: "queue_op \<Rightarrow> request_queue \<Rightarrow> request_queue" where
  "queue_step (Add r) q = queue_add r q"
| "queue_step (Prepend r) q = queue_prepend r q"
| "queue_step (PrependAll p) q = queue_prepend_all p q"
| "queue_step (RemoveAll rs) q = queue_remove_requests rs q"

fun bag_step :: "queue_op \<Rightarrow> request multiset \<Rightarrow> request multiset" where
  "bag_step (Add r) b = add_mset r b"
| "bag_step (Prepend r) b = add_mset r b"
| "bag_step (PrependAll p) b = mset (queue_iter p) + b"
| "bag_step (RemoveAll rs) b = filter_mset (\<lambda>x. obj_id x \<notin> obj_id ` set rs) b"

lemma queue_step_ok:
  "queue_ok q \<Longrightarrow> queue_ok (queue_step op q) \<and> mset (queue_iter (queue_step op q)) = bag_step op (mset (queue_iter q))"
  using wq.add_ok wq.prepend_ok wq.prepend_all wq.remove_all_ok by (cases op) (simp_all add: queue_prepend_all_fold)

lemma queue_steps_ok:
  "queue_ok q \<Longrightarrow> queue_ok (fold queue_step ops q) \<and> mset (queue_iter (fold queue_step ops q)) = fold bag_step ops (mset (queue_iter q))"
proof (induction ops arbitrary: q)
  case (Cons op ops)
  then show ?case using queue_step_ok[OF Cons.prems, of op] by simp
qed simp

lemma queue_step_kind: "(\<exists>h. q = PriorityRequestQueue h) \<Longrightarrow> \<exists>h. fold queue_step ops q = PriorityRequestQueue h"
proof (induction ops arbitrary: q)
  case (Cons op ops)
  then have "\<exists>h. queue_step op q = PriorityRequestQueue h" by (cases op) auto
  then show ?case using Cons.IH by simp
qed simp

lemma create_ok: "queue_ok (create_request_queue p)" "queue_iter (create_request_queue p) = []"
  by (cases p; simp add: heap_from_def fcfs_iter_def priority_iter_def heap_iter.simps heappop_def)+

text \<open>
  C7: whatever sequence of additions, prepends and removals a waiting queue of either policy has
  seen, popping it until it is empty succeeds, follows the iteration order and returns exactly the
  requests that were added and not removed; under the priority policy they come out sorted by
  priority, arrival time and identifier.
\<close>

theorem waiting_order:
  fixes ops :: "queue_op list" and p :: scheduling_policy
  defines "q \<equiv> fold queue_step ops (create_request_queue p)"
  shows "(\<exists>q'. pop_n queue_pop (queue_len q) q = Inr (queue_iter q, q') \<and> \<not> queue_bool q')
    \<and> mset (queue_iter q) = fold bag_step ops {#}
    \<and> (p = PRIORITY \<longrightarrow> sorted_wrt (\<lambda>a b. \<not> request_lt b a) (queue_iter q))"
proof -
  have ok: "queue_ok q" "mset (queue_iter q) = fold bag_step ops {#}"
    using queue_steps_ok[OF create_ok(1), of ops p] by (simp_all add: q_def create_ok(2))
  obtain q' where "pop_n queue_pop (length (queue_iter q)) q = Inr (queue_iter q, q')" "queue_ok q'" "queue_iter q' = []"
    using wq.drain[OF ok(1)] by blast
  then have "pop_n queue_pop (queue_len q) q = Inr (queue_iter q, q') \<and> \<not> queue_bool q'"
    using queue_len_iter ok(1) by (simp add: queue_bool_def)
  moreover have "sorted_wrt (\<lambda>a b. \<not> request_lt b a) (queue_iter q)" if prio: "p = PRIORITY"
  proof -
    obtain h where h: "q = PriorityRequestQueue h" using queue_step_kind[of "create_request_queue p" ops] prio by (auto simp: q_def)
    then show ?thesis using ok(1) req.heap_iter_sorted[of h] by (simp add: priority_iter_def)
  qed
  ultimately show ?thesis using ok(2) by blast
qed

definition queued_request :: "nat \<Rightarrow> int \<Rightarrow> request" where
  "queued_request i p = \<lparr>request_id = ''r'', obj_id = i, req_priority = p, arrival_time = 0, status = WAITING, max_tokens = 1,
     num_prompt_tokens = 1, all_token_ids = [1], output_token_ids = [], num_computed_tokens = 0, lora_request = None, cache_salt = None,
     prompt_embeds = None, mm_features = [], block_hashes = [], skip_reading_prefix_cache = False, num_preemptions = 0\<rparr>"

theorem waiting_order_witness:
  "let q = fold queue_step [Add (queued_request 1 5), Add (queued_request 2 3), Prepend (queued_request 3 4), RemoveAll [queued_request 1 5]]
         (create_request_queue PRIORITY)
   in sorted_wrt (\<lambda>a b. \<not> request_lt b a) (queue_iter q) \<and> mset (queue_iter q) = {#queued_request 2 3, queued_request 3 4#}"
  using waiting_order[of "[Add (queued_request 1 5), Add (queued_request 2 3), Prepend (queued_request 3 4), RemoveAll [queued_request 1 5]]"
      PRIORITY]
  by (simp add: Let_def queued_request_def)

end
