(* ===== verification/Scheduling.thy ===== *)
theory Scheduling
  imports Agent_Policy Config Metrics Kv_Manager Request_Queue
begin

text \<open>
  The scheduling controller of \<^verbatim>\<open>vllm/tokencake/scheduling.py\<close> over the KV cache manager: the state of
  \<^verbatim>\<open>SchedulingController\<close>, which holds the manager and the metrics it works on, and its operations.
  Clock readings are arguments, in the order the code takes them; sets are duplicate-free lists.
  The encoder token counts that the coordinator only passes to cross-attention managers are recorded
  in \<^verbatim>\<open>_admitted\<close> and otherwise left out, as in the model of the coordinator.
\<close>

section \<open>State\<close>

type_synonym usage = "(string option \<times> int) list"

record controller =
  sc_settings :: scheduling_config
  sc_manager :: kv_manager
  sc_metrics :: tokencake_metrics
  sc_lookahead :: int
  sc_precheck :: bool
  sc_progress :: bool
  sc_reclaim :: bool
  sc_metadata :: "(string, metadata) dict"
  sc_scores :: "(string, int) dict"
  sc_agent_scores :: "(string, int) dict"
  sc_history :: "(string, agent_history) dict"
  sc_started :: "(string, real) dict"
  sc_charges :: "(int, string option) dict"
  sc_used :: "(string option, int) dict"
  sc_plan :: capacity_plan
  sc_reserve_ratio :: real
  sc_step :: int
  sc_waiting_critical :: "string list"
  sc_waiting_scores :: "(string, int) dict"
  sc_shared_available :: int
  sc_reserved_available :: "(string, int) dict"
  sc_active :: bool
  sc_executed :: "(string, (int \<times> int) list) dict"
  sc_admitted :: "(string, int) dict"
  sc_growth :: "(string, int) dict"
  sc_prefill_limits :: "(string, int) dict"
  sc_prefill_growth :: "(string, int) dict"
  sc_growth_wait :: "(string, real) dict"
  sc_beneficiaries :: "string list"
  sc_retry :: "(string, int \<times> int) dict"
  sc_queued_at :: "(string, real) dict"
  sc_epoch :: int
  sc_deferred :: "string list"
  sc_preferred :: "string list"
  sc_borrowed :: "string list"

definition SchedulingController :: "scheduling_config \<Rightarrow> kv_manager \<Rightarrow> tokencake_metrics \<Rightarrow> int \<Rightarrow> controller" where
  "SchedulingController s k ms lookahead =
     (let precheck = (lookahead = 0 \<and> (\<forall>m \<in> set (km_managers k). spec_kind (sm_spec m) = FullAttentionSpec));
          selective = (reserve_generation_tokens s \<and> precheck)
      in \<lparr>sc_settings = s, sc_manager = k, sc_metrics = ms,
          sc_lookahead = (if reserve_generation_tokens s then lookahead else 0), sc_precheck = precheck,
          sc_progress = (selective \<and> generation_reserve_mode s = ''progress''),
          sc_reclaim = (selective \<and> generation_reserve_mode s = ''reclaim''),
          sc_metadata = [], sc_scores = [], sc_agent_scores = [], sc_history = [], sc_started = [], sc_charges = [], sc_used = [],
          sc_plan = CapacityPlan, sc_reserve_ratio = reserve_ratio_min s, sc_step = 0, sc_waiting_critical = [],
          sc_waiting_scores = [], sc_shared_available = 0, sc_reserved_available = [], sc_active = False, sc_executed = [],
          sc_admitted = [], sc_growth = [], sc_prefill_limits = [], sc_prefill_growth = [], sc_growth_wait = [],
          sc_beneficiaries = [], sc_retry = [], sc_queued_at = [], sc_epoch = 0, sc_deferred = [], sc_preferred = [],
          sc_borrowed = []\<rparr>)"

definition sc_count :: "metric \<Rightarrow> controller \<Rightarrow> controller" where
  "sc_count x c = c\<lparr>sc_metrics := Metrics.count x (sc_metrics c)\<rparr>"

text \<open>Python's \<^verbatim>\<open>Counter\<close>, \<^verbatim>\<open>set.add\<close>, \<^verbatim>\<open>min\<close> with a key (the first of the smallest) and a list comprehension that can raise.\<close>

definition counter :: "'a list \<Rightarrow> ('a, int) dict" where
  "counter xs = fold (\<lambda>x d. dict_set x (dict_get d x 0 + 1) d) xs []"

definition set_add :: "'a \<Rightarrow> 'a list \<Rightarrow> 'a list" where
  "set_add x xs = (if x \<in> set xs then xs else xs @ [x])"

definition py_min :: "('a \<Rightarrow> 'b::linorder) \<Rightarrow> 'a list \<Rightarrow> 'a res" where
  "py_min f xs = (case sort_key f xs of [] \<Rightarrow> Inl (ValueError ''min() arg is an empty sequence'') | x # _ \<Rightarrow> Inr x)"

fun rmap :: "('a \<Rightarrow> 'b res) \<Rightarrow> 'a list \<Rightarrow> 'b list res" where
  "rmap f [] = Inr []"
| "rmap f (x # xs) = rbind (f x) (\<lambda>y. rbind (rmap f xs) (\<lambda>ys. Inr (y # ys)))"

section \<open>Association and history\<close>

definition associate :: "string \<Rightarrow> metadata \<Rightarrow> real \<Rightarrow> controller \<Rightarrow> controller" where
  "associate i md now c = c\<lparr>sc_metadata := dict_set i md (sc_metadata c), sc_queued_at := dict_set i now (sc_queued_at c)\<rparr>"

definition agent_history_limit :: nat where
  "agent_history_limit = 4096"

definition touch_history :: "string \<Rightarrow> (string, agent_history) dict \<Rightarrow> (string, agent_history) dict" where
  "touch_history k h = (let h = move_to_end k (setdefault k AgentHistory h) in drop (length h - agent_history_limit) h)"

text \<open>\<^verbatim>\<open>_history(key)\<close> followed by updates of the record it returns.\<close>

definition with_history :: "string \<Rightarrow> (agent_history \<Rightarrow> agent_history) \<Rightarrow> controller \<Rightarrow> controller" where
  "with_history k f c =
     (let h = touch_history k (sc_history c)
      in c\<lparr>sc_history := dict_set k (f (dict_get h k AgentHistory)) h\<rparr>)"

section \<open>Demand\<close>

definition live_block_ids :: "block_store \<Rightarrow> ref list list \<Rightarrow> int list" where
  "live_block_ids st bs = remdups (map (\<lambda>r. block_id (st r)) (filter (\<lambda>r. \<not> is_null (st r)) (concat bs)))"

definition request_block_ids :: "request \<Rightarrow> controller \<Rightarrow> int list" where
  "request_block_ids r c =
     (let k = sc_manager c in live_block_ids (store k) (kv_blocks_of (length (km_managers k)) (km_get_blocks (request_id r) k)))"

definition admission_tokens :: "request \<Rightarrow> controller \<Rightarrow> int" where
  "admission_tokens r c =
     min (if reserve_generation_tokens (sc_settings c) then max (num_tokens r) (num_prompt_tokens r + max_tokens r) else num_tokens r)
       (km_max_model_len (sc_manager c))"

definition generation_headroom :: "controller \<Rightarrow> int" where
  "generation_headroom c =
     (case map (\<lambda>(i, growth). max 0 (growth - dict_get (sc_prefill_growth c) i 0)) (sc_growth c) of
        [] \<Rightarrow> 0 | x # xs \<Rightarrow> fold min xs x)"

definition uncommitted_blocks :: "controller \<Rightarrow> int res" where
  "uncommitted_blocks c =
     rbind (if sc_progress c then Inr (dict_sum (sc_prefill_growth c) + generation_headroom c)
            else if sc_reclaim c
            then rbind (rmap (\<lambda>i. rbind (dict_index (sc_growth c) i) (\<lambda>growth.
                                  rbind (dict_index (sc_prefill_growth c) i) (\<lambda>inputs. Inr (max 0 (growth - inputs)))))
                          (filter (has_key (sc_growth c)) (sc_beneficiaries c))) (\<lambda>xs.
                   Inr (dict_sum (sc_prefill_growth c) + sum_list xs))
            else Inr (dict_sum (sc_growth c))) (\<lambda>committed.
       Inr (get_num_free_blocks (sc_manager c) - committed))"

definition no_blocks :: "controller \<Rightarrow> ref list list" where
  "no_blocks c = kv_blocks_of (length (km_managers (sc_manager c))) NoBlocks"

definition remaining_growth :: "request \<Rightarrow> bool \<Rightarrow> controller \<Rightarrow> int res" where
  "remaining_growth r input_only c =
     (let k = sc_manager c;
          full = (if input_only then min (dict_get (sc_prefill_limits c) (request_id r) (num_tokens r)) (km_max_model_len k)
                  else admission_tokens r c)
      in if num_computed_tokens r \<ge> full then Inr 0
         else get_num_blocks_to_allocate (request_id r) (min (full + sc_lookahead c) (km_max_model_len k)) (no_blocks c)
                (num_computed_tokens r) True k)"

definition required_blocks :: "request \<Rightarrow> int \<Rightarrow> ref list list \<Rightarrow> controller \<Rightarrow> int \<Rightarrow> int res" where
  "required_blocks r computed bs c tokens =
     get_num_blocks_to_allocate (request_id r) (min (tokens + sc_lookahead c) (km_max_model_len (sc_manager c))) bs computed True
       (sc_manager c)"

definition admission_demand :: "request \<Rightarrow> int \<Rightarrow> ref list list \<Rightarrow> controller \<Rightarrow> int res" where
  "admission_demand r computed bs c =
     (let input_tokens = min (num_tokens r) (km_max_model_len (sc_manager c))
      in if sc_reclaim c then required_blocks r computed bs c input_tokens
         else rbind (required_blocks r computed bs c (admission_tokens r c)) (\<lambda>full.
              if \<not> sc_progress c then Inr full
              else rbind (required_blocks r computed bs c input_tokens) (\<lambda>inputs.
                   let headroom = max 0 (full - inputs);
                       headroom = (if sc_growth c \<noteq> []
                                   then min (generation_headroom c) headroom - generation_headroom c else headroom)
                   in Inr (max 0 (inputs + headroom)))))"

section \<open>Growth of running requests\<close>

definition is_critical :: "metadata \<Rightarrow> controller \<Rightarrow> bool" where
  "is_critical md c \<longleftrightarrow> critical_path md \<or> agent_type md \<in> set (critical (sc_plan c))"

text \<open>\<open>t1\<close> is the reading a new wait starts with, \<open>t2\<close> the one its length is measured with.\<close>

definition record_growth_wait :: "request \<Rightarrow> bool \<Rightarrow> real \<Rightarrow> real \<Rightarrow> controller \<Rightarrow> controller" where
  "record_growth_wait r allowed t1 t2 c =
     (let i = request_id r;
          (started, c) =
            (if allowed then (map_of (sc_growth_wait c) i, c\<lparr>sc_growth_wait := dict_del i (sc_growth_wait c)\<rparr>)
             else let c = sc_count GENERATION_PROGRESS_DEFERRED c;
                      w = setdefault i t1 (sc_growth_wait c)
                  in (map_of w i, c\<lparr>sc_growth_wait := w\<rparr>))
      in case (started, map_of (sc_metadata c) i) of
           (Some s, Some md) \<Rightarrow>
             if is_critical md c then c\<lparr>sc_metrics := growth_wait (max 0 (t2 - s)) (sc_metrics c)\<rparr> else c
         | _ \<Rightarrow> c)"

definition growth_after :: "string \<Rightarrow> int \<Rightarrow> controller \<Rightarrow> string \<times> int \<Rightarrow> int" where
  "growth_after i demand c = (\<lambda>(j, growth).
     max 0 (growth - (if j = i then demand else 0))
       - max 0 (dict_get (sc_prefill_growth c) j 0 - (if j = i then demand else 0)))"

definition can_grow :: "request \<Rightarrow> int \<Rightarrow> real \<Rightarrow> real \<Rightarrow> controller \<Rightarrow> (bool \<times> controller) res" where
  "can_grow r n t1 t2 c =
     (if \<not> sc_progress c then Inr (True, c)
      else
        let i = request_id r; main = num_computed_tokens r + n
        in rbind (get_num_blocks_to_allocate i main (no_blocks c) (num_computed_tokens r) False (sc_manager c)) (\<lambda>demand.
           if demand = 0 then Inr (True, record_growth_wait r True t1 t2 c)
           else rbind (uncommitted_blocks c) (\<lambda>available.
                rbind (if available < 0
                       then rbind (py_min (\<lambda>(j, growth). (growth, - dict_get (sc_scores c) j 0, j)) (sc_growth c)) (\<lambda>(j, _).
                              Inr (i = j))
                       else rbind (py_min id (map (growth_after i demand c) (sc_growth c))) (\<lambda>remaining.
                              let released = min demand (dict_get (sc_prefill_growth c) i 0) + generation_headroom c - remaining
                              in Inr (demand \<le> available + released))) (\<lambda>allowed.
                  Inr (allowed, record_growth_wait r allowed t1 t2 c)))))"

section \<open>Capacity accounting\<close>

text \<open>Reducing the reservations in the order of the scores of their types.\<close>

definition reduce_one :: "string \<Rightarrow> int \<times> (string, int) dict \<Rightarrow> int \<times> (string, int) dict" where
  "reduce_one k = (\<lambda>(excess, av).
     let reduction = min excess (dict_get av k 0) in (excess - reduction, dict_set k (dict_get av k 0 - reduction) av))"

definition update_available :: "controller \<Rightarrow> controller res" where
  "update_available c =
     (let plan = sc_plan c;
          shared0 = max 0 (shared plan - dict_get (sc_used c) None 0);
          av0 = map (\<lambda>(k, n). (k, max 0 (n - dict_get (sc_used c) (Some k) 0))) (reserved plan)
      in rbind (uncommitted_blocks c) (\<lambda>uncommitted.
         if \<not> (\<forall>k \<in> set (dict_keys av0). has_key (plan_scores plan) k) then Inl KeyError
         else
           let excess = max 0 (shared0 + dict_sum av0 - max 0 uncommitted);
               reduction = min excess shared0;
               (_, av) = fold reduce_one (sort_key (\<lambda>k. dict_get (plan_scores plan) k 0) (dict_keys av0)) (excess - reduction, av0)
           in Inr (c\<lparr>sc_shared_available := shared0 - reduction, sc_reserved_available := av\<rparr>)))"

definition release_charges :: "controller \<Rightarrow> controller res" where
  "release_charges c =
     (if \<not> sc_active c then Inr c
      else let charges = filter (\<lambda>(b, _). ref_cnt (store (sc_manager c) (Blk (nat b))) > 0) (sc_charges c)
           in update_available (c\<lparr>sc_charges := charges, sc_used := counter (map snd charges)\<rparr>))"

text \<open>\<^verbatim>\<open>remove_skipped_blocks\<close> followed by \<^verbatim>\<open>release\<close> when blocks became free.\<close>

definition drop_skipped_blocks :: "string \<Rightarrow> int \<Rightarrow> controller \<Rightarrow> controller res" where
  "drop_skipped_blocks i computed c =
     rbind (km_remove_skipped_blocks i computed (sc_manager c)) (\<lambda>k.
       if get_num_free_blocks (sc_manager c) \<noteq> get_num_free_blocks k then release_charges (c\<lparr>sc_manager := k\<rparr>)
       else Inr (c\<lparr>sc_manager := k\<rparr>))"

definition prepare_running :: "request \<Rightarrow> controller \<Rightarrow> controller res" where
  "prepare_running r c = drop_skipped_blocks (request_id r) (num_computed_tokens r) c"

definition prefill_budget :: "request list \<Rightarrow> int \<Rightarrow> controller \<Rightarrow> int" where
  "prefill_budget running native c =
     (let limit = decode_prefill_token_budget (sc_settings c)
      in if limit \<noteq> 0 \<and> (\<exists>r \<in> set running. num_computed_tokens r \<ge> num_prompt_tokens r) then min native limit else native)"

definition cap_prefill :: "int \<Rightarrow> int \<Rightarrow> controller \<Rightarrow> int \<times> controller" where
  "cap_prefill tokens budget c = (if tokens > budget then (budget, sc_count PREFILL_CAPPED c) else (tokens, c))"

text \<open>A type with waiting critical requests lends only to a request that is ahead by the margin.\<close>

definition may_borrow :: "string \<Rightarrow> request \<Rightarrow> bool \<Rightarrow> controller \<Rightarrow> bool" where
  "may_borrow owner r borrow_reserved c \<longleftrightarrow>
     borrow_reserved \<or> owner \<notin> set (sc_waiting_critical c)
     \<or> (priority_borrow_score_margin (sc_settings c) \<noteq> 0 \<and>
        (case (map_of (sc_waiting_scores c) owner, map_of (sc_scores c) (request_id r)) of
           (Some owner_score, Some score) \<Rightarrow> score - owner_score \<ge> priority_borrow_score_margin (sc_settings c)
         | _ \<Rightarrow> False))"

fun borrow_from :: "string list \<Rightarrow> (string \<Rightarrow> bool) \<Rightarrow> (string, int) dict \<Rightarrow> int \<Rightarrow> usage \<Rightarrow> usage option" where
  "borrow_from [] may av remaining u = (if remaining = 0 then Some u else None)"
| "borrow_from (k # ks) may av remaining u =
     (if \<not> may k then borrow_from ks may av remaining u
      else let borrowed = min remaining (dict_get av k 0); u = u @ [(Some k, borrowed)]
           in if remaining - borrowed = 0 then Some u else borrow_from ks may av (remaining - borrowed) u)"

definition consumption :: "request \<Rightarrow> int \<Rightarrow> bool \<Rightarrow> controller \<Rightarrow> usage option res" where
  "consumption r demand borrow_reserved c =
     (let from_shared = min demand (sc_shared_available c);
          u = [(None, from_shared)];
          remaining = demand - from_shared;
          av = sc_reserved_available c
      in if remaining = 0 then Inr (Some u)
         else case map_of (sc_metadata c) (request_id r) of
                None \<Rightarrow> Inr None
              | Some md \<Rightarrow>
                  let k = agent_type md;
                      own = (if k \<in> set (critical (sc_plan c)) then min remaining (dict_get av k 0) else 0);
                      u = (if k \<in> set (critical (sc_plan c)) then u @ [(Some k, own)] else u);
                      remaining = remaining - own
                  in if remaining = 0 then Inr (Some u)
                     else
                       let donors = filter (\<lambda>j. j \<noteq> k) (dict_keys av)
                       in if \<not> (\<forall>j \<in> set donors. has_key (plan_scores (sc_plan c)) j) then Inl KeyError
                          else Inr (borrow_from (sorted_desc (\<lambda>j. (dict_get av j 0, dict_get (plan_scores (sc_plan c)) j 0)) donors)
                                      (\<lambda>j. may_borrow j r borrow_reserved c) av remaining u))"

section \<open>Admission\<close>

definition capacity_denied :: "controller \<Rightarrow> controller" where
  "capacity_denied c =
     sc_count (if reserve_generation_tokens (sc_settings c) then GENERATION_CAPACITY_DENIED else PREFILL_CAPACITY_DENIED) c"

definition defer_cache_lookup :: "request \<Rightarrow> int \<Rightarrow> ref list list \<Rightarrow> controller \<Rightarrow> (bool \<times> controller) res" where
  "defer_cache_lookup r computed bs c =
     (if \<not> sc_precheck c \<or> \<not> has_key (sc_metadata c) (request_id r) \<or> has_key (sc_admitted c) (request_id r) \<or> has_encoder_inputs r
      then Inr (False, c)
      else rbind (admission_demand r computed bs c) (\<lambda>demand.
           rbind (uncommitted_blocks c) (\<lambda>available.
             if demand \<le> available then Inr (False, c) else Inr (True, capacity_denied c))))"

definition retry_blocked :: "request \<Rightarrow> int \<Rightarrow> controller \<Rightarrow> bool" where
  "retry_blocked r available c \<longleftrightarrow>
     (case map_of (sc_retry c) (request_id r) of
        None \<Rightarrow> False
      | Some (seen, epoch) \<Rightarrow> sc_admitted c \<noteq> [] \<and> epoch = sc_epoch c \<and> available \<le> seen)"

definition can_allocate ::
  "request \<Rightarrow> int \<Rightarrow> int \<Rightarrow> kv_blocks \<Rightarrow> int \<Rightarrow> int \<Rightarrow> bool \<Rightarrow> controller \<Rightarrow> (bool \<times> controller) res" where
  "can_allocate r n num_new_computed hits lookahead external borrow_reserved c =
     (if has_key (sc_admitted c) (request_id r) then Inr (True, c)
      else
        let i = request_id r;
            computed = num_computed_tokens r + num_new_computed + external;
            max_len = km_max_model_len (sc_manager c);
            main = min computed max_len + n;
            bs = kv_blocks_of (length (km_managers (sc_manager c))) hits
        in rbind (drop_skipped_blocks i computed c) (\<lambda>c.
           rbind (get_num_blocks_to_allocate i (min (main + lookahead) max_len) bs computed False (sc_manager c)) (\<lambda>now.
           rbind (admission_demand r computed bs c) (\<lambda>full.
           rbind (uncommitted_blocks c) (\<lambda>available.
           let demand = max now full
           in if demand > available then Inr (False, capacity_denied c)
              else if retry_blocked r available c then Inr (False, sc_count RESUME_DEFERRED c)
              else rbind (consumption r demand borrow_reserved c) (\<lambda>u.
                   case u of
                     None \<Rightarrow>
                       let c = sc_count RESERVATION_DENIED c
                       in Inr (False, if has_key (sc_metadata c) i then c\<lparr>sc_deferred := set_add i (sc_deferred c)\<rparr> else c)
                   | Some u \<Rightarrow>
                       (case map_of (sc_metadata c) i of
                          Some md \<Rightarrow>
                            if \<not> borrow_reserved
                               \<and> (\<exists>(owner, k) \<in> set u. k \<noteq> 0 \<and> (\<exists>j. owner = Some j \<and> j \<in> set (sc_waiting_critical c) \<and> j \<noteq> agent_type md))
                            then Inr (True, c\<lparr>sc_borrowed := set_add i (sc_borrowed c)\<rparr>) else Inr (True, c)
                        | None \<Rightarrow> Inr (True, c))))))))"

text \<open>Charging the blocks to the owners in the order of the usage.\<close>

fun charge_blocks :: "usage \<Rightarrow> int list \<Rightarrow> controller \<Rightarrow> controller res" where
  "charge_blocks [] ids c = Inr c"
| "charge_blocks ((owner, n) # u) ids c =
     (let c = c\<lparr>sc_charges := fold (\<lambda>b. dict_set b owner) (take (nat n) ids) (sc_charges c),
               sc_used := dict_set owner (dict_get (sc_used c) owner 0 + n) (sc_used c)\<rparr>
      in rbind (case owner of
                  None \<Rightarrow> Inr (c\<lparr>sc_shared_available := max 0 (sc_shared_available c - n)\<rparr>)
                | Some k \<Rightarrow>
                    rbind (dict_index (sc_reserved_available c) k) (\<lambda>m.
                      Inr (c\<lparr>sc_reserved_available := dict_set k (m - n) (sc_reserved_available c)\<rparr>)))
           (charge_blocks u (drop (nat n) ids)))"

definition new_charge_ids :: "request \<Rightarrow> bool \<Rightarrow> ref list list option \<Rightarrow> controller \<Rightarrow> int list" where
  "new_charge_ids r running new_blocks c =
     sort (filter (\<lambda>b. \<not> has_key (sc_charges c) b)
       (case new_blocks of
          Some bs \<Rightarrow> if running then live_block_ids (store (sc_manager c)) bs else request_block_ids r c
        | None \<Rightarrow> request_block_ids r c))"

definition commit_charges :: "request \<Rightarrow> bool \<Rightarrow> ref list list option \<Rightarrow> bool \<Rightarrow> controller \<Rightarrow> controller res" where
  "commit_charges r running new_blocks borrow_reserved c =
     (let ids = new_charge_ids r running new_blocks c
      in rbind (consumption r (int (length ids)) borrow_reserved c) (\<lambda>u.
         case (case u of None \<Rightarrow> if running \<or> has_key (sc_admitted c) (request_id r) then Some [(None, int (length ids))] else None
               | Some u \<Rightarrow> Some u) of
           None \<Rightarrow> Inl AssertionError
         | Some u \<Rightarrow> charge_blocks u ids c))"

definition commit_growth :: "request \<Rightarrow> int \<Rightarrow> controller \<Rightarrow> controller res" where
  "commit_growth r num_encoder c =
     (let i = request_id r;
          c = c\<lparr>sc_admitted := dict_set i (max (dict_get (sc_admitted c) i 0) num_encoder) (sc_admitted c),
                sc_prefill_limits := setdefault i (num_tokens r) (sc_prefill_limits c)\<rparr>
      in rbind (remaining_growth r False c) (\<lambda>g.
         let c = c\<lparr>sc_growth := dict_set i g (sc_growth c)\<rparr>
         in if sc_progress c \<or> sc_reclaim c
            then rbind (remaining_growth r True c) (\<lambda>p. Inr (c\<lparr>sc_prefill_growth := dict_set i p (sc_prefill_growth c)\<rparr>))
            else Inr c))"

text \<open>The part of \<^verbatim>\<open>commit\<close> for an annotated request.\<close>

definition commit_annotated :: "request \<Rightarrow> metadata \<Rightarrow> real \<Rightarrow> real \<Rightarrow> controller \<Rightarrow> controller" where
  "commit_annotated r md t1 t2 c =
     (let i = request_id r;
          c = (case map_of (sc_queued_at c) i of
                 None \<Rightarrow> c
               | Some queued \<Rightarrow>
                   let c = c\<lparr>sc_queued_at := dict_del i (sc_queued_at c)\<rparr>;
                       c = (if i \<in> set (sc_borrowed c)
                            then (sc_count PRIORITY_BORROW_ADMITTED c)\<lparr>sc_borrowed := removeAll i (sc_borrowed c)\<rparr> else c);
                       c = (if dict_get (sc_scores c) i 0 > dict_get (sc_agent_scores c) i 0 then sc_count JOIN_PRIORITY_ADMITTED c else c)
                   in c\<lparr>sc_metrics := admission_wait (max 0 (t1 - queued)) (is_critical md c) (sc_metrics c)\<rparr>);
          c = (if agent_type md = '''' then c
               else with_history (agent_type md) (\<lambda>h.
                 let h = h\<lparr>ah_deferrals := max 0 (ah_deferrals h - 1), ah_importance := importance md\<rparr>
                 in if has_key (sc_started c) i then h
                    else h\<lparr>ah_samples := ah_samples h + 1, ah_input_tokens := ah_input_tokens h + num_prompt_tokens r,
                           ah_depth := ah_depth h + depth md, ah_out_degree := ah_out_degree h + out_degree md,
                           ah_in_degree := ah_in_degree h + in_degree md, ah_elapsed := ah_elapsed h + application_elapsed_s md,
                           ah_remaining := ah_remaining h + remaining_depth md\<rparr>) c)
      in c\<lparr>sc_started := setdefault i t2 (sc_started c)\<rparr>)"

definition commit ::
  "request \<Rightarrow> bool \<Rightarrow> int \<Rightarrow> ref list list option \<Rightarrow> bool \<Rightarrow> real \<Rightarrow> real \<Rightarrow> controller \<Rightarrow> controller res" where
  "commit r running num_encoder new_blocks borrow_reserved t1 t2 c =
     (let i = request_id r
      in rbind (commit_charges r running new_blocks borrow_reserved c) (\<lambda>c.
         rbind (commit_growth r num_encoder c) (\<lambda>c.
         let c = c\<lparr>sc_retry := dict_del i (sc_retry c), sc_deferred := removeAll i (sc_deferred c)\<rparr>;
             c = (if borrow_reserved \<and> \<not> running then sc_count WORK_CONSERVING_ADMITTED c else c);
             c = (if \<not> running \<and> i \<in> set (sc_preferred c)
                  then (sc_count CACHE_AFFINITY_ADMITTED c)\<lparr>sc_preferred := removeAll i (sc_preferred c)\<rparr> else c)
         in rbind (update_available c) (\<lambda>c.
            case map_of (sc_metadata c) i of None \<Rightarrow> Inr c | Some md \<Rightarrow> Inr (commit_annotated r md t1 t2 c)))))"

section \<open>Deferral, preemption and completion\<close>

definition defer_request :: "request \<Rightarrow> controller \<Rightarrow> controller" where
  "defer_request r c =
     (let c = sc_count DEFERRED c
      in case map_of (sc_metadata c) (request_id r) of
           Some md \<Rightarrow>
             if agent_type md \<noteq> '''' then with_history (agent_type md) (\<lambda>h. h\<lparr>ah_deferrals := ah_deferrals h + 1\<rparr>) c else c
         | None \<Rightarrow> c)"

definition forget_admission :: "string \<Rightarrow> controller \<Rightarrow> controller" where
  "forget_admission i c =
     c\<lparr>sc_admitted := dict_del i (sc_admitted c), sc_growth := dict_del i (sc_growth c),
       sc_prefill_limits := dict_del i (sc_prefill_limits c), sc_prefill_growth := dict_del i (sc_prefill_growth c),
       sc_beneficiaries := removeAll i (sc_beneficiaries c)\<rparr>"

definition preempt :: "request \<Rightarrow> bool \<Rightarrow> real \<Rightarrow> real \<Rightarrow> controller \<Rightarrow> controller res" where
  "preempt r physical t1 t2 c =
     (let i = request_id r; c = forget_admission i (record_growth_wait r True t1 t1 c)
      in rbind (release_charges c) (\<lambda>c.
         let c = sc_count metric.PREEMPTED c
         in rbind (if physical
                   then rbind (uncommitted_blocks c) (\<lambda>available.
                          Inr ((sc_count PHYSICAL_PREEMPTED c)\<lparr>sc_retry := dict_set i (available, sc_epoch c) (sc_retry c)\<rparr>))
                   else Inr c) (\<lambda>c.
            let c = c\<lparr>sc_queued_at := dict_set i t2 (sc_queued_at c)\<rparr>
            in case map_of (sc_metadata c) i of
                 Some md \<Rightarrow>
                   if agent_type md \<noteq> ''''
                   then Inr (with_history (agent_type md) (\<lambda>h. h\<lparr>ah_preemptions := ah_preemptions h + 1\<rparr>) c) else Inr c
               | None \<Rightarrow> Inr c)))"

definition finish_request :: "request \<Rightarrow> real \<Rightarrow> real \<Rightarrow> controller \<Rightarrow> controller" where
  "finish_request r t1 t2 c =
     (let i = request_id r;
          c = record_growth_wait r True t1 t1 c;
          was_admitted = has_key (sc_admitted c) i;
          c = forget_admission i c;
          c = c\<lparr>sc_retry := dict_del i (sc_retry c), sc_queued_at := dict_del i (sc_queued_at c),
                sc_epoch := (if was_admitted then sc_epoch c + 1 else sc_epoch c),
                sc_executed := dict_del i (sc_executed c)\<rparr>;
          md = map_of (sc_metadata c) i;
          started = map_of (sc_started c) i;
          c = c\<lparr>sc_metadata := dict_del i (sc_metadata c), sc_started := dict_del i (sc_started c),
                sc_scores := dict_del i (sc_scores c), sc_agent_scores := dict_del i (sc_agent_scores c)\<rparr>
      in case (md, started) of
           (Some md, Some s) \<Rightarrow>
             if agent_type md \<noteq> ''''
             then with_history (agent_type md) (\<lambda>h. h\<lparr>ah_importance := importance md, ah_output_tokens := ah_output_tokens h + num_output_tokens r,
                      ah_completed := ah_completed h + 1, ah_duration := ah_duration h + max 0 (t2 - s)\<rparr>) c
             else c
         | _ \<Rightarrow> c)"

section \<open>Observations\<close>

definition sc_count_by :: "metric \<Rightarrow> int \<Rightarrow> controller \<Rightarrow> controller res" where
  "sc_count_by x n c = rbind (count_by x n (sc_metrics c)) (\<lambda>ms. Inr (c\<lparr>sc_metrics := ms\<rparr>))"

definition count_hit_blocks :: "ref list list \<Rightarrow> controller \<Rightarrow> controller res" where
  "count_hit_blocks bs c =
     (let st = store (sc_manager c);
          matched = fold (\<lambda>r d. dict_set (block_id (st r)) r d) (filter (\<lambda>r. \<not> is_null (st r)) (concat bs)) [];
          in_use = int (length (filter (\<lambda>(_, r). ref_cnt (st r) > 1) matched))
      in rbind (sc_count_by GPU_SHARED_HIT_BLOCKS in_use c) (\<lambda>c.
         sc_count_by GPU_EXCLUSIVE_HIT_BLOCKS (int (length matched) - in_use) c))"

definition cache_hits :: "request \<Rightarrow> int \<Rightarrow> int \<Rightarrow> ref list list option \<Rightarrow> controller \<Rightarrow> controller res" where
  "cache_hits r gpu cpu blocks c =
     rbind (sc_count_by GPU_HIT_TOKENS gpu c) (\<lambda>c.
     rbind (sc_count_by CPU_HIT_TOKENS cpu c) (\<lambda>c.
     rbind (case blocks of None \<Rightarrow> Inr c | Some bs \<Rightarrow> count_hit_blocks bs c) (\<lambda>c.
       if num_preemptions r \<noteq> 0
       then rbind (sc_count_by RESUME_GPU_HIT_TOKENS gpu c) (sc_count_by RESUME_CPU_HIT_TOKENS cpu) else Inr c)))"

text \<open>Executed token ranges are kept sorted and merged.\<close>

definition repeated_tokens :: "int \<Rightarrow> int \<Rightarrow> (int \<times> int) list \<Rightarrow> int" where
  "repeated_tokens s e ranges = (\<Sum>(a, b) \<leftarrow> ranges. max 0 (min e b - max s a))"

definition merge_step :: "int \<times> int \<Rightarrow> (int \<times> int) list \<Rightarrow> (int \<times> int) list" where
  "merge_step = (\<lambda>(a, b) merged.
     if merged \<noteq> [] \<and> a \<le> snd (last merged)
     then butlast merged @ [(fst (last merged), max (snd (last merged)) b)] else merged @ [(a, b)])"

definition merge_ranges :: "(int \<times> int) list \<Rightarrow> (int \<times> int) list" where
  "merge_ranges rs = fold merge_step (sort rs) []"

definition executed_one :: "(string, int) dict \<Rightarrow> string list \<Rightarrow> string list option \<Rightarrow> string \<times> int \<Rightarrow> controller \<Rightarrow> controller res" where
  "executed_one starts returned failed = (\<lambda>(i, n) c.
     if \<not> has_key (sc_metadata c) i \<or> (case failed of None \<Rightarrow> False | Some f \<Rightarrow> i \<in> set f) \<or> i \<notin> set returned then Inr c
     else rbind (dict_index starts i) (\<lambda>s.
       let ranges = dict_get (sc_executed c) i []
       in rbind (sc_count_by EXECUTED_TOKENS n c) (\<lambda>c.
          rbind (sc_count_by RECOMPUTED_TOKENS (repeated_tokens s (s + n) ranges) c) (\<lambda>c.
            Inr (c\<lparr>sc_executed := dict_set i (merge_ranges (ranges @ [(s, s + n)])) (sc_executed c)\<rparr>)))))"

definition executed ::
  "(string \<times> int) list \<Rightarrow> (string \<times> int) list \<Rightarrow> (string, int) dict \<Rightarrow> string list \<Rightarrow> string list option \<Rightarrow> controller \<Rightarrow> controller res" where
  "executed cached new_reqs scheduled returned failed c =
     (let starts = fold (\<lambda>(i, n). dict_set i n) (cached @ new_reqs) []
      in rfold (executed_one starts returned failed) scheduled c)"

section \<open>Order of the waiting requests\<close>

definition order_key :: "controller \<Rightarrow> request \<Rightarrow> int \<times> int \<times> int \<times> real \<times> string" where
  "order_key c r =
     (let s = dict_get (sc_scores c) (request_id r) 0
      in (- s, - dict_get (sc_agent_scores c) (request_id r) s, req_priority r, arrival_time r, request_id r))"

definition prefix_affinity :: "controller \<Rightarrow> request \<Rightarrow> (real \<times> int) res" where
  "prefix_affinity c r =
     (if num_computed_tokens r \<noteq> 0 \<or> skip_reading_prefix_cache r \<or> has_encoder_inputs r then Inr (0, 0)
      else rbind (find_longest_cache_hit (block_hashes r) (num_tokens r - 1) (sc_manager c)) (\<lambda>(bs, computed).
        let st = store (sc_manager c);
            in_use = int (length (remdups (map (\<lambda>b. block_id (st b)) (filter (\<lambda>b. \<not> is_null (st b) \<and> ref_cnt (st b) > 0) (concat bs)))))
        in if in_use = 0 then Inr (0, 0)
           else rbind (admission_demand r computed bs c) (\<lambda>demand.
                if in_use < demand then Inr (0, 0)
                else Inr (real_of_int in_use / real_of_int (max 1 (in_use + demand)), in_use))))"

text \<open>The candidates of one score band, in the order of their affinity, and those that moved ahead.\<close>

definition band_order :: "controller \<Rightarrow> (request \<times> 'q) list \<Rightarrow> ((request \<times> 'q) list \<times> string list) res" where
  "band_order c xs =
     rbind (rmap (\<lambda>x. prefix_affinity c (fst x)) xs) (\<lambda>as.
       let preferred = map snd (sorted_desc fst (zip as xs));
           positions = fold (\<lambda>(n, x). dict_set (request_id (fst x)) n) (enumerate 0 xs) []
       in Inr (preferred, map (\<lambda>(n, x). request_id (fst x))
                 (filter (\<lambda>(n, x). dict_get positions (request_id (fst x)) 0 > n) (enumerate 0 preferred))))"

function order_bands :: "int \<Rightarrow> (request \<times> 'q) list \<Rightarrow> controller \<Rightarrow> ((request \<times> 'q) list \<times> controller) res" where
  "order_bands band [] c = Inr ([], c)"
| "order_bands band (x # xs) c =
     (let in_band = (\<lambda>y. dict_get (sc_scores c) (request_id (fst y)) 0 \<ge> dict_get (sc_scores c) (request_id (fst x)) 0 - band)
      in rbind (band_order c (x # takeWhile in_band xs)) (\<lambda>(preferred, moved).
         rbind (order_bands band (dropWhile in_band xs) (c\<lparr>sc_preferred := fold set_add moved (sc_preferred c)\<rparr>)) (\<lambda>(rest, c).
           Inr (preferred @ rest, c))))"
  by pat_completeness auto
termination by (relation "measure (\<lambda>(b, xs, c). length xs)") (auto simp: le_imp_less_Suc length_dropWhile_le)

definition order_candidates :: "(request \<times> 'q) list \<Rightarrow> controller \<Rightarrow> ((request \<times> 'q) list \<times> controller) res" where
  "order_candidates candidates c =
     (if \<not> (\<forall>x \<in> set candidates. has_key (sc_scores c) (request_id (fst x))) then Inl KeyError
      else
        let ordered = sort_key (\<lambda>x. order_key c (fst x)) candidates;
            band = cache_affinity_score_band (sc_settings c);
            capacity = real (num_gpu_blocks (sc_manager c)) - 1
        in if band = 0 \<or> \<not> enable_caching (sc_manager c) then Inr (ordered, c)
           else rbind (uncommitted_blocks c) (\<lambda>available.
                if real_of_int available > capacity * (1 - gpu_usage_high (sc_settings c)) then Inr (ordered, c)
                else order_bands band ordered c))"

text \<open>\<^verbatim>\<open>heapq.merge\<close> of two iterables: the second one's item comes first only when it is smaller.\<close>

fun heap_merge :: "('a \<Rightarrow> 'a \<Rightarrow> bool) \<Rightarrow> 'a list \<Rightarrow> 'a list \<Rightarrow> 'a list" where
  "heap_merge lt [] ys = ys"
| "heap_merge lt xs [] = xs"
| "heap_merge lt (x # xs) (y # ys) = (if lt y x then y # heap_merge lt (x # xs) ys else x # heap_merge lt xs (y # ys))"

definition annotated_prefix :: "request_queue \<Rightarrow> request_queue \<Rightarrow> scheduling_policy \<Rightarrow> controller \<Rightarrow> (request \<times> bool) list" where
  "annotated_prefix waiting skipped policy c =
     (let sk = map (\<lambda>r. (r, True)) (queue_iter skipped); wt = map (\<lambda>r. (r, False)) (queue_iter waiting)
      in takeWhile (\<lambda>(r, _). has_key (sc_metadata c) (request_id r))
           (if policy = FCFS then sk @ wt else heap_merge (\<lambda>a b. request_lt (fst a) (fst b)) sk wt))"

section \<open>Victims\<close>

definition score_band :: int where
  "score_band = 3000"

definition releasable :: "controller \<Rightarrow> request \<Rightarrow> int" where
  "releasable c r =
     int (length (filter (\<lambda>b. ref_cnt (store (sc_manager c) (Blk (nat b))) = 1) (request_block_ids r c)))"

definition victim_cost :: "(request \<Rightarrow> int) option \<Rightarrow> controller \<Rightarrow> request \<Rightarrow>
    bool \<times> real \<times> int \<times> int \<times> int \<times> int \<times> real \<times> string" where
  "victim_cost recompute c r =
     (let computed = (case recompute of None \<Rightarrow> num_computed_tokens r | Some f \<Rightarrow> f r);
          n = releasable c r
      in (real_of_int (num_output_tokens r) \<ge> 0.9 * real_of_int (max_tokens r), real_of_int computed / real_of_int (max 1 n), computed, - n,
          dict_get (sc_scores c) (request_id r) 0, - req_priority r, - arrival_time r, request_id r))"

definition victim_candidates :: "request \<Rightarrow> request list \<Rightarrow> int \<Rightarrow> controller \<Rightarrow> request list res" where
  "victim_candidates r running needed c =
     (let scored = filter (\<lambda>x. has_key (sc_scores c) (request_id x)) running;
          score = (\<lambda>x. dict_get (sc_scores c) (request_id x) 0)
      in rbind (py_min id (map score scored)) (\<lambda>lowest.
         let near = filter (\<lambda>x. score x \<le> lowest + score_band) scored;
             sufficient = filter (\<lambda>x. obj_id x \<noteq> obj_id r \<and> releasable c x \<ge> needed) near;
             positive = filter (\<lambda>x. releasable c x > 0) near
         in Inr (if sufficient \<noteq> [] then sufficient else if positive \<noteq> [] then positive else near)))"

definition blocks_needed :: "request \<Rightarrow> int \<Rightarrow> int \<Rightarrow> controller \<Rightarrow> int res" where
  "blocks_needed r n lookahead c =
     rbind (get_num_blocks_to_allocate (request_id r)
              (min (num_computed_tokens r + n + lookahead) (km_max_model_len (sc_manager c))) (no_blocks c) (num_computed_tokens r) False
              (sc_manager c)) (\<lambda>d.
       let needed = d - get_num_free_blocks (sc_manager c)
       in if sc_reclaim c then rbind (uncommitted_blocks c) (\<lambda>u. Inr (max needed (- u))) else Inr needed)"

definition victim ::
  "request \<Rightarrow> request list \<Rightarrow> int \<Rightarrow> int \<Rightarrow> (request \<Rightarrow> int) option \<Rightarrow> controller \<Rightarrow> (request option \<times> controller) res" where
  "victim r running n lookahead recompute c =
     rbind (if sc_reclaim c \<and> request_id r \<notin> set (sc_beneficiaries c)
            then update_available (sc_count RECLAIM_BENEFICIARY (c\<lparr>sc_beneficiaries := sc_beneficiaries c @ [request_id r]\<rparr>))
            else Inr c) (\<lambda>c.
       if \<not> has_key (sc_metadata c) (request_id r) then Inr (None, c)
       else rbind (blocks_needed r n lookahead c) (\<lambda>needed.
            rbind (victim_candidates r running needed c) (\<lambda>cs.
            rbind (py_min (victim_cost recompute c) cs) (\<lambda>x. Inr (Some x, c)))))"

section \<open>The start of a step\<close>

definition adjustment_window :: int where
  "adjustment_window = 500"

definition growth_table :: "bool \<Rightarrow> request list \<Rightarrow> controller \<Rightarrow> (string, int) dict res" where
  "growth_table input_only rs c =
     rfold (\<lambda>r d. rbind (remaining_growth r input_only c) (\<lambda>g. Inr (dict_set (request_id r) g d)))
       (filter (\<lambda>r. has_key (sc_admitted c) (request_id r)) rs) []"

definition score_table :: "request list \<Rightarrow> real \<Rightarrow> controller \<Rightarrow> (string, int) dict" where
  "score_table rs now c =
     fold (\<lambda>r d. case map_of (sc_metadata c) (request_id r) of
              None \<Rightarrow> d | Some md \<Rightarrow> dict_set (request_id r) (request_score md (arrival_time r) now) d) rs []"

text \<open>All members of a join group get the highest score of the group.\<close>

definition join_key :: "controller \<Rightarrow> string \<Rightarrow> (real \<times> string) option" where
  "join_key c i =
     (case map_of (sc_metadata c) i of
        None \<Rightarrow> None
      | Some md \<Rightarrow> if application_started_at_s md > 0 \<and> join_group md \<noteq> ''''
                  then Some (application_started_at_s md, join_group md) else None)"

definition join_scores :: "controller \<Rightarrow> (string, int) dict \<Rightarrow> (string, int) dict" where
  "join_scores c agent_scores =
     (let highest = fold (\<lambda>(i, s) d. case join_key c i of
                None \<Rightarrow> d | Some g \<Rightarrow> dict_set g (max (dict_get d g s) s) d) agent_scores []
      in map (\<lambda>(i, s). (i, case join_key c i of None \<Rightarrow> s | Some g \<Rightarrow> dict_get highest g s)) agent_scores)"

definition adopt_charges :: "request list \<Rightarrow> controller \<Rightarrow> controller" where
  "adopt_charges rs c =
     (if sc_active c then c
      else c\<lparr>sc_charges := fold (\<lambda>b. setdefault b None) (concat (map (\<lambda>r. request_block_ids r c) rs)) (sc_charges c),
             sc_active := True\<rparr>)"

text \<open>Per agent type: how many requests wait, their best score and the time they have waited.\<close>

definition waiting_types :: "request list \<Rightarrow> controller \<Rightarrow> (request \<times> string) list" where
  "waiting_types waiting c =
     concat (map (\<lambda>r. case map_of (sc_metadata c) (request_id r) of
         None \<Rightarrow> [] | Some md \<Rightarrow> if agent_type md \<noteq> '''' then [(r, agent_type md)] else []) waiting)"

definition waiting_best :: "request list \<Rightarrow> controller \<Rightarrow> (string, int) dict" where
  "waiting_best waiting c =
     fold (\<lambda>(r, k) d. let s = dict_get (sc_scores c) (request_id r) 0 in dict_set k (max (dict_get d k s) s) d) (waiting_types waiting c) []"

definition waiting_time :: "request list \<Rightarrow> real \<Rightarrow> controller \<Rightarrow> (string, real) dict" where
  "waiting_time waiting now c =
     fold (\<lambda>(r, k) d. dict_set k (dict_get d k 0 + max 0 (now - arrival_time r)) d) (waiting_types waiting c) []"

definition importance_table :: "request list \<Rightarrow> controller \<Rightarrow> (string, real) dict" where
  "importance_table rs c =
     fold (\<lambda>r d. case map_of (sc_metadata c) (request_id r) of
              None \<Rightarrow> d
            | Some md \<Rightarrow> if agent_type md \<noteq> '''' then dict_set (agent_type md) (max (dict_get d (agent_type md) 0) (importance md)) d else d)
       rs (map (\<lambda>(k, h). (k, ah_importance h)) (sc_history c))"

definition used_table :: "request list \<Rightarrow> controller \<Rightarrow> (string, int) dict" where
  "used_table rs c =
     fold (\<lambda>(r, k) d. dict_set k (dict_get d k 0 + int (length (request_block_ids r c))) d) (waiting_types rs c) []"

definition type_scores :: "(string, real) dict \<Rightarrow> request list \<Rightarrow> real \<Rightarrow> controller \<Rightarrow> (string, real) dict res" where
  "type_scores imp waiting now c =
     (let counts = counter (map snd (waiting_types waiting c)); waits = waiting_time waiting now c
      in rfold (\<lambda>(k, v) d.
           let n = dict_get counts k 0
           in rbind (agent_score v n (dict_get waits k 0 / real_of_int (max 1 n)) (dict_get (sc_history c) k AgentHistory)) (\<lambda>s.
                Inr (dict_set k s d))) imp [])"

definition next_ratio :: "controller \<Rightarrow> real" where
  "next_ratio c =
     (let s = sc_settings c; u = km_usage (sc_manager c);
          ratio = (if u \<ge> gpu_usage_high s then sc_reserve_ratio c + reserve_adjustment_step s
                   else if u \<le> gpu_usage_low s then sc_reserve_ratio c - reserve_adjustment_step s else sc_reserve_ratio c)
      in min (reserve_ratio_max s) (max (reserve_ratio_min s) ratio))"

definition adjust_plan :: "request list \<Rightarrow> request list \<Rightarrow> real \<Rightarrow> controller \<Rightarrow> controller res" where
  "adjust_plan waiting rs now c =
     (if plan_scores (sc_plan c) \<noteq> [] \<and> sc_step c mod adjustment_window \<noteq> 0 then Inr c
      else
        let imp = importance_table rs c
        in rbind (type_scores imp waiting now c) (\<lambda>scores.
             let c = c\<lparr>sc_reserve_ratio := next_ratio c\<rparr>
             in rbind (partition_capacity scores imp (used_table rs c) (int (num_gpu_blocks (sc_manager c)) - 1) (sc_reserve_ratio c)
                         (critical_ratio (sc_settings c))) (\<lambda>plan. Inr (c\<lparr>sc_plan := plan\<rparr>))))"

definition clear_accounting :: "controller \<Rightarrow> controller" where
  "clear_accounting c =
     c\<lparr>sc_charges := [], sc_used := [], sc_scores := [], sc_agent_scores := [], sc_admitted := [], sc_growth := [],
       sc_prefill_limits := [], sc_prefill_growth := [], sc_growth_wait := [], sc_beneficiaries := [], sc_retry := [], sc_active := False\<rparr>"

definition adopt_running :: "request list \<Rightarrow> controller \<Rightarrow> controller" where
  "adopt_running running c =
     fold (\<lambda>r c. c\<lparr>sc_admitted := setdefault (request_id r) 0 (sc_admitted c),
                   sc_prefill_limits := setdefault (request_id r) (num_tokens r) (sc_prefill_limits c)\<rparr>) running c"

definition begin_step :: "request list \<Rightarrow> request list \<Rightarrow> real \<Rightarrow> controller \<Rightarrow> (bool \<times> controller) res" where
  "begin_step waiting running now c =
     (let c = c\<lparr>sc_deferred := [], sc_preferred := [], sc_borrowed := [], sc_waiting_scores := []\<rparr>
      in if sc_metadata c = [] then Inr (False, clear_accounting c)
         else
           let rs = waiting @ running; c = adopt_running running c
           in rbind (growth_table False rs c) (\<lambda>g.
              let c = c\<lparr>sc_growth := g\<rparr>
              in rbind (if sc_progress c \<or> sc_reclaim c
                        then rbind (growth_table True rs c) (\<lambda>p. Inr (c\<lparr>sc_prefill_growth := p\<rparr>)) else Inr c) (\<lambda>c.
                 let agent = score_table rs now c;
                     c = c\<lparr>sc_agent_scores := agent,
                           sc_scores := (if inherit_join_priority (sc_settings c) then join_scores c agent else agent),
                           sc_step := sc_step c + 1\<rparr>;
                     c = adopt_charges rs c;
                     c = c\<lparr>sc_waiting_scores := waiting_best waiting c\<rparr>
                 in rbind (adjust_plan waiting rs now c) (\<lambda>c.
                    let c = c\<lparr>sc_waiting_critical :=
                          filter (\<lambda>k. k \<in> snd ` set (waiting_types waiting c)) (critical (sc_plan c))\<rparr>
                    in rbind (release_charges c) (\<lambda>c. Inr (True, c))))))"

end
