(* ===== verification/Spec2Isabelle.thy ===== *)
theory Spec2Isabelle
  imports Cpu_Manager Lifecycle_Reach Kv_Properties Scheduling
begin

text \<open>
  A verification library for TokenCake, an agent-aware extension of the vLLM inference engine
  (sources under \<^verbatim>\<open>src/vllm\<close>). TokenCake runs in the engine process. Requests of agents carry metadata
  and a lifecycle id; a scheduling controller orders and admits them by agent importance over vLLM's
  paged KV cache; a lifecycle registry follows the stalls of agents, during which the blocks of a
  request are kept reusable in a CPU tier and released again. This library models the data and the
  operations of these parts and proves the properties that the rest of the engine relies on.

  \<^bold>\<open>How the parts interact.\<close> The scheduler holds waiting requests in a request queue and asks the
  scheduling controller for their order, for admission and for victims. The controller reads and
  charges the blocks of the KV cache manager. The manager passes allocations to a coordinator with
  one single-type manager per attention group; these share one block pool. The pool hands out the
  blocks of a doubly linked free queue and keeps the prefix cache, a map from block hashes to blocks.
  The hashes come from the requests. The CPU tier manager stores evicted blocks behind a replacement
  policy (LRU or ARC); the lifecycle registry retains blocks there while an agent stalls. The event
  endpoint delivers stall events to the registry. Metrics count the outcomes of all parts.

  \<^bold>\<open>Conventions\<close> (theory \<^verbatim>\<open>Prelude\<close>). An operation that can raise returns \<open>py_error + 'a\<close>; \<open>rbind\<close>
  sequences such operations and \<open>rfold\<close> is a loop of them. A dict is an association list in insertion
  order. Python ints are \<open>int\<close>, floats are \<open>real\<close> (rounding is not modelled), sets that are iterated are
  duplicate-free lists. Objects with pointers (the block queue) live in an explicit store. Readings of
  a clock are arguments or a stream. There is no fuel: every loop is a total recursion, with a
  termination proof where it is not structural, except the walk over the linked free list and the loop
  of the block hasher, which are partial functions with proofs that they return.

  \<^bold>\<open>Theories, sources and what the lemmas show.\<close>

  \<^item> \<^verbatim>\<open>Free_Queue\<close> (\<^verbatim>\<open>v1/core/kv_cache_utils.py\<close>: hash keys, \<^verbatim>\<open>KVCacheBlock\<close>, \<^verbatim>\<open>FreeKVCacheBlockQueue\<close>). The
    linked queue implements a list of block ids (locale \<^verbatim>\<open>free_list_queue\<close>); the hash key of a hash and
    a group id splits back.
  \<^item> \<^verbatim>\<open>Request\<close> (\<^verbatim>\<open>v1/request.py\<close> and the block hashes of \<^verbatim>\<open>kv_cache_utils.py\<close>). Incremental hashing equals
    hashing from scratch; with a collision-free hash function, which is a parameter, equal block hashes
    mean equal token prefixes and extra keys.
  \<^item> \<^verbatim>\<open>Block_Pool\<close>, \<^verbatim>\<open>Pool_Reach\<close> (\<^verbatim>\<open>v1/core/block_pool.py\<close>). Every operation, the invariant that a block is free
    exactly when nobody references it and that the cache map and the block hashes agree, the exact
    effect of each operation, and the refinement that replaying the emitted events gives the cache.
  \<^item> \<^verbatim>\<open>Kv_Single\<close>, \<^verbatim>\<open>Kv_Manager\<close> (\<^verbatim>\<open>v1/core/single_type_kv_cache_manager.py\<close>, \<^verbatim>\<open>kv_cache_coordinator.py\<close>,
    \<^verbatim>\<open>kv_cache_manager.py\<close>). The operations of the manager. Its state extends that of the pool.
    \<^verbatim>\<open>Kv_Inv\<close> and \<^verbatim>\<open>Kv_Alloc\<close> hold the invariant and the exact effect of each operation for one
    full-attention group, \<^verbatim>\<open>Kv_Reach\<close> the managers that a scheduler can reach, and \<^verbatim>\<open>Kv_Properties\<close> the
    properties: reference counts are numbers of holders, admission and growth take exactly their
    demand or nothing, admitting and freeing is a round trip, the prefix lookup is the longest cached
    prefix, and freed memory admits any request that fits the pool.
  \<^item> \<^verbatim>\<open>Request_Queue\<close> (\<^verbatim>\<open>v1/core/sched/request_queue.py\<close>). Both waiting queues, with the heap operations of
    the standard library written out for a strict weak order (locale \<^verbatim>\<open>weak_order\<close>), behind one
    interface (locale \<^verbatim>\<open>waiting_queue\<close>, interpreted for each queue and for their union).
  \<^item> \<^verbatim>\<open>Agent_Policy\<close>, \<^verbatim>\<open>Scheduling\<close> (\<^verbatim>\<open>tokencake/scheduling.py\<close>). Scores, agent histories, the capacity
    partition with its exactness, and all operations of the controller over the manager above.
  \<^item> \<^verbatim>\<open>Cpu_Policy\<close>, \<^verbatim>\<open>Cpu_Manager\<close> (\<^verbatim>\<open>v1/kv_offload/base.py\<close>, \<^verbatim>\<open>cpu/policies\<close>, \<^verbatim>\<open>cpu/manager.py\<close>). LRU and ARC
    behind one contract (locale \<^verbatim>\<open>cache_policy\<close>), and the manager of the CPU tier over either of them.
  \<^item> \<^verbatim>\<open>Protocol\<close>, \<^verbatim>\<open>Config\<close>, \<^verbatim>\<open>Metrics\<close> (\<^verbatim>\<open>tokencake/protocol.py\<close>, \<^verbatim>\<open>events.py\<close>, \<^verbatim>\<open>api_router.py\<close>, \<^verbatim>\<open>config.py\<close>,
    \<^verbatim>\<open>metrics.py\<close>). Validation of metadata and configuration with its bounds, the event handler, and the
    counters with the exporter. The field readers of pydantic, the engine client and the Prometheus
    objects are parameters or are represented by the calls made on them.
  \<^item> \<^verbatim>\<open>Lifecycle\<close>, \<^verbatim>\<open>Lifecycle_Inv\<close>, \<^verbatim>\<open>Lifecycle_Reach\<close> (\<^verbatim>\<open>tokencake/lifecycle.py\<close>). The registry, its invariant
    with the CPU tier, and its properties: it never raises, retained blocks are backed, ownership is
    bounded and a repeated event is harmless.

  \<^bold>\<open>Not modelled.\<close> The offloading connector and its policy (\<^verbatim>\<open>tokencake/offloading.py\<close>,
  \<^verbatim>\<open>offload_policy.py\<close>) and the scheduler itself (\<^verbatim>\<open>v1/core/sched/scheduler.py\<close>) drive the modelled
  parts from the engine loop; their effect on the parts is covered by quantifying over all sequences of
  calls. The hybrid coordinator and the managers of Mamba, cross-attention and attention sinks are
  further instances of the single-type manager and are left out; the properties of the KV cache
  manager are for one full-attention group, while the definitions also cover sliding-window and
  chunked local attention. The model executors, kernels, workers, tokenizers, entrypoints and the rest of the engine
  compute or transport data and hold no state of the parts above.
\<close>

end
